(* ===== verification/Sponge_Prelude.thy ===== *)
theory Sponge_Prelude
  imports Main "HOL-Library.Word"
begin

unbundle bit_operations_syntax

text \<open>
  Shared vocabulary of the development: the machine types of the C++ sources, the
  exceptions they throw, and the generic lemmas on words and lists that the component
  theories use.

  \<^item> \<open>u8\<close>, \<open>u16\<close>, \<open>u32\<close> and \<open>u64\<close> are \<open>uint8_t\<close>, \<open>uint16_t\<close>, \<open>uint32_t\<close> and
    \<open>uint64_t\<close>/\<open>size_t\<close> (the sources are built for 64-bit Linux): arithmetic wraps around.
  \<^item> A \<open>std::string\<close> holds arbitrary bytes and is a list of bytes; its \<open>size()\<close> is
    \<open>length\<close>, turned into a \<open>size_t\<close> by \<open>of_nat\<close> where the code stores it.
  \<^item> A thrown exception is the left summand of a result \<open>exn + 'a\<close>.
\<close>

type_synonym u8 = "8 word"
type_synonym u16 = "16 word"
type_synonym u32 = "32 word"
type_synonym u64 = "64 word"
type_synonym bytes = "u8 list"

text \<open>
  The exceptions of the sources that the model reaches. \<open>UnixError\<close> is the \<open>unix_error\<close> of
  \<open>util.hh\<close>, with the call attempted and the value of \<open>errno\<close>. \<open>UndefinedBehaviour\<close> marks an
  operation whose result the C++ standard leaves open (an over-wide shift, an
  out-of-bounds array read).
\<close>

datatype exn =
    RuntimeError string
  | OutOfRange string
  | LengthError string
  | UnixError string u32
  | UndefinedBehaviour string

text \<open>Sequencing of calls that may throw.\<close>

definition exn_bind :: "exn + 'a \<Rightarrow> ('a \<Rightarrow> exn + 'b) \<Rightarrow> exn + 'b" where
  "exn_bind m f = (case m of Inl e \<Rightarrow> Inl e | Inr x \<Rightarrow> f x)"

lemma exn_bind_simps [simp]: "exn_bind (Inl e) f = Inl e" "exn_bind (Inr x) f = f x"
  by (simp_all add: exn_bind_def)

lemma exn_bind_cong [fundef_cong]:
  "m = m' \<Longrightarrow> (\<And>x. m' = Inr x \<Longrightarrow> f x = g x) \<Longrightarrow> exn_bind m f = exn_bind m' g"
  by (cases m') simp_all

lemma exn_bind_assoc: "exn_bind (exn_bind m f) g = exn_bind m (\<lambda>x. exn_bind (f x) g)"
  by (cases m) simp_all

lemma exn_bind_Inr: "exn_bind m f = Inr y \<longleftrightarrow> (\<exists>x. m = Inr x \<and> f x = Inr y)"
  by (cases m) simp_all

text \<open>
  The rewrite rules of the model: \<open>sponge_defs\<close> collects the one-line accessors of the
  classes, \<open>inv_intros\<close> the lemmas that an operation keeps its component's invariant.
\<close>

named_theorems sponge_defs
named_theorems inv_intros

subsection \<open>Words and natural numbers\<close>

lemma unat_of_nat64: "n < 2 ^ 64 \<Longrightarrow> unat (of_nat n :: u64) = n"
  by (simp add: unat_of_nat take_bit_nat_eq_self)

lemma unat_add64: "unat a + unat b < 2 ^ 64 \<Longrightarrow> unat (a + b :: u64) = unat a + unat b"
  by (simp add: unat_word_ariths)

lemma unat_succ64: "unat (x :: u64) + 1 < 2 ^ 64 \<Longrightarrow> unat (x + 1) = unat x + 1"
  by (subst unat_add64) simp_all

lemma unat_sub64: "b \<le> a \<Longrightarrow> unat (a - b :: u64) = unat a - unat b"
  by (simp add: unat_sub word_le_nat_alt)

lemma unat_lt64 [simp]: "unat (a :: u64) < 18446744073709551616"
  using unsigned_less [of a, where ?'a = nat] by simp

lemma unat_lt32 [simp]: "unat (a :: u32) < 4294967296"
  using unsigned_less [of a, where ?'a = nat] by simp

lemma unat_lt16 [simp]: "unat (a :: u16) < 65536"
  using unsigned_less [of a, where ?'a = nat] by simp

lemma unat_lt8 [simp]: "unat (a :: u8) < 256"
  using unsigned_less [of a, where ?'a = nat] by simp

lemma of_nat_le_word: "n \<le> unat (w :: u64) \<Longrightarrow> unat (of_nat n :: u64) = n"
  by (rule unat_of_nat64, simp, erule le_less_trans, rule unat_lt64)

lemma unat_max64: "unat (- 1 :: u64) = 18446744073709551615"
  by (simp add: unsigned_minus_1_eq_mask mask_eq_exp_minus_1)

text \<open>Bit operations read as arithmetic on natural numbers.\<close>

lemma unat_drop_bit: "unat (drop_bit n (w :: 'a :: len word)) = unat w div 2 ^ n"
  by (metis drop_bit_eq_div unat_drop_bit_eq)

lemma unat_push_bit:
  "unat (push_bit n (w :: 'a :: len word)) = (unat w * 2 ^ n) mod 2 ^ LENGTH('a)"
  by (subst unsigned_push_bit_eq) (simp add: push_bit_eq_mult take_bit_eq_mod)

lemma unat_ucast: "unat (ucast (w :: 'a :: len word) :: 'b :: len word) = unat w mod 2 ^ LENGTH('b)"
  by (subst unsigned_ucast_eq) (simp add: take_bit_eq_mod)

lemma unat_ucast_widen:
  "LENGTH('a) \<le> LENGTH('b) \<Longrightarrow> unat (ucast (w :: 'a :: len word) :: 'b :: len word) = unat w"
  by (simp add: unat_ucast less_le_trans [OF unsigned_less power_increasing])

lemma unat_and_mask: "unat ((w :: 'a :: len word) AND mask n) = unat w mod 2 ^ n"
  by (metis take_bit_eq_mask take_bit_eq_mod unsigned_take_bit_eq)

lemma unat_not: "unat (NOT (w :: 'a :: len word)) = 2 ^ LENGTH('a) - 1 - unat w"
proof -
  have "NOT w = - 1 - w" by (simp add: not_eq_complement)
  then have "unat (NOT w) = unat (- 1 :: 'a word) - unat w" by (simp add: unat_sub)
  then show ?thesis by (simp add: unsigned_minus_1_eq_mask mask_eq_exp_minus_1)
qed

subsection \<open>Runs of an operation\<close>

text \<open>
  Every class of the program is used through sequences of method calls. This contract
  collects what is common to all of them: a step function and an invariant that each
  step keeps. Its lemmas lift facts about one call to facts about every run.
\<close>

locale step_invariant =
  fixes step :: "'s \<Rightarrow> 'op \<Rightarrow> 's"
    and inv :: "'s \<Rightarrow> bool"
  assumes step_inv: "inv s \<Longrightarrow> inv (step s a)"
begin

lemma run_inv: "inv s \<Longrightarrow> inv (foldl step s ops)"
  by (induction ops arbitrary: s) (auto intro: step_inv)

lemma run_mono:
  assumes mono: "\<And>s a. inv s \<Longrightarrow> f s \<le> (f (step s a) :: 'a :: preorder)"
    and "inv s"
  shows "f s \<le> f (foldl step s ops)"
  using \<open>inv s\<close>
proof (induction ops arbitrary: s)
  case Nil
  then show ?case by simp
next
  case (Cons a ops)
  have "f s \<le> f (step s a)" by (rule mono) (rule Cons.prems)
  also have "f (step s a) \<le> f (foldl step (step s a) ops)"
    by (rule Cons.IH) (rule step_inv [OF Cons.prems])
  finally show ?case by simp
qed

lemma run_const:
  assumes keep: "\<And>s a. inv s \<Longrightarrow> f (step s a) = f s"
    and "inv s"
  shows "f (foldl step s ops) = f s"
  using \<open>inv s\<close> by (induction ops arbitrary: s) (auto simp: keep step_inv)

end

end
