(* ===== verification/Sponge_Buffer.thy ===== *)
theory Sponge_Buffer
  imports Sponge_Prelude
begin

text \<open>
  The string containers of \<open>libsponge/util/buffer.hh\<close> and \<open>libsponge/util/buffer.cc\<close> that
  carry packets: a \<open>Buffer\<close> is a shared string and an offset, a \<open>BufferList\<close> a queue of
  buffers, a \<open>BufferViewList\<close> a queue of string views. All three drop bytes at the front
  without copying; the lemmas show that each behaves as the plain byte string it stands
  for.

  The storage of a buffer is never written after its construction, so sharing it between
  copies cannot be observed and the model keeps the string itself.
\<close>

section \<open>Buffer\<close>

record Buffer =
  buf_storage :: "bytes option"
  buf_starting_offset :: u64

definition Buffer_empty :: Buffer where
  "Buffer_empty = \<lparr>buf_storage = None, buf_starting_offset = 0\<rparr>"

definition Buffer_new :: "bytes \<Rightarrow> Buffer" where
  "Buffer_new str = \<lparr>buf_storage = Some str, buf_starting_offset = 0\<rparr>"

definition Buffer_str :: "Buffer \<Rightarrow> bytes" where
  "Buffer_str b =
     (case buf_storage b of None \<Rightarrow> [] | Some s \<Rightarrow> drop (unat (buf_starting_offset b)) s)"

definition Buffer_at :: "Buffer \<Rightarrow> u64 \<Rightarrow> exn + u8" where
  "Buffer_at b n =
     (if unat n < length (Buffer_str b) then Inr (Buffer_str b ! unat n)
      else Inl (OutOfRange ''basic_string_view::at''))"

definition Buffer_size :: "Buffer \<Rightarrow> u64" where
  "Buffer_size b = of_nat (length (Buffer_str b))"

definition Buffer_copy :: "Buffer \<Rightarrow> bytes" where
  "Buffer_copy b = Buffer_str b"

definition Buffer_remove_prefix :: "Buffer \<Rightarrow> u64 \<Rightarrow> exn + Buffer" where
  "Buffer_remove_prefix b n =
     (if length (Buffer_str b) < unat n then Inl (OutOfRange ''Buffer::remove_prefix'')
      else
        let b = b\<lparr>buf_starting_offset := buf_starting_offset b + n\<rparr>
        in Inr (case buf_storage b of
                  None \<Rightarrow> b
                | Some s \<Rightarrow>
                    if buf_starting_offset b = of_nat (length s) then b\<lparr>buf_storage := None\<rparr>
                    else b))"

section \<open>BufferList\<close>

text \<open>The class has one member, the queue of buffers.\<close>

type_synonym BufferList = "Buffer list"

definition BufferList_of_string :: "bytes \<Rightarrow> BufferList" where
  "BufferList_of_string str = [Buffer_new str]"

definition BufferList_append :: "BufferList \<Rightarrow> BufferList \<Rightarrow> BufferList" where
  "BufferList_append this other = foldl (\<lambda>bs buf. bs @ [buf]) this other"

definition BufferList_to_Buffer :: "BufferList \<Rightarrow> exn + Buffer" where
  "BufferList_to_Buffer bl =
     (case bl of
        [] \<Rightarrow> Inr Buffer_empty
      | [b] \<Rightarrow> Inr b
      | _ \<Rightarrow> Inl (RuntimeError ''BufferList: please use concatenate() to combine a multi-Buffer BufferList into one Buffer''))"

definition BufferList_concatenate :: "BufferList \<Rightarrow> bytes" where
  "BufferList_concatenate bl = foldl (\<lambda>ret buf. ret @ Buffer_str buf) [] bl"

definition BufferList_size :: "BufferList \<Rightarrow> u64" where
  "BufferList_size bl = foldl (\<lambda>ret buf. ret + Buffer_size buf) 0 bl"

fun BufferList_remove_prefix :: "BufferList \<Rightarrow> u64 \<Rightarrow> exn + BufferList" where
  "BufferList_remove_prefix [] n =
     (if 0 < n then Inl (OutOfRange ''BufferList::remove_prefix'') else Inr [])"
| "BufferList_remove_prefix (b # bs) n =
     (if n = 0 then Inr (b # bs)
      else if unat n < length (Buffer_str b) then
        map_sum id (\<lambda>b'. b' # bs) (Buffer_remove_prefix b n)
      else BufferList_remove_prefix bs (n - Buffer_size b))"

section \<open>BufferViewList\<close>

type_synonym BufferViewList = "bytes list"

definition BufferViewList_of_string :: "bytes \<Rightarrow> BufferViewList" where
  "BufferViewList_of_string str = [str]"

definition BufferViewList_of_BufferList :: "BufferList \<Rightarrow> BufferViewList" where
  "BufferViewList_of_BufferList bl = map Buffer_str bl"

fun BufferViewList_remove_prefix :: "BufferViewList \<Rightarrow> u64 \<Rightarrow> exn + BufferViewList" where
  "BufferViewList_remove_prefix [] n =
     (if 0 < n then Inl (OutOfRange ''BufferListView::remove_prefix'') else Inr [])"
| "BufferViewList_remove_prefix (v # vs) n =
     (if n = 0 then Inr (v # vs)
      else if unat n < length v then Inr (drop (unat n) v # vs)
      else BufferViewList_remove_prefix vs (n - of_nat (length v)))"

definition BufferViewList_size :: "BufferViewList \<Rightarrow> u64" where
  "BufferViewList_size vl = foldl (\<lambda>ret v. ret + of_nat (length v)) 0 vl"

text \<open>An \<open>iovec\<close> is a base address and a length; the model keeps the bytes at the address.\<close>

definition BufferViewList_as_iovecs :: "BufferViewList \<Rightarrow> (bytes \<times> u64) list" where
  "BufferViewList_as_iovecs vl = map (\<lambda>v. (v, of_nat (length v))) vl"

section \<open>Well-formed containers\<close>

text \<open>A string of the program has a size that fits in \<open>size_t\<close>; the offset stays inside it.\<close>

definition buffer_inv :: "Buffer \<Rightarrow> bool" where
  "buffer_inv b \<longleftrightarrow> (case buf_storage b of None \<Rightarrow> True
     | Some s \<Rightarrow> length s < 2 ^ 64 \<and> unat (buf_starting_offset b) \<le> length s)"

definition views_inv :: "BufferViewList \<Rightarrow> bool" where
  "views_inv vl \<longleftrightarrow> (\<forall>v \<in> set vl. length v < 2 ^ 64)"

lemma buffer_inv_new [inv_intros]: "length s < 2 ^ 64 \<Longrightarrow> buffer_inv (Buffer_new s)"
  by (simp add: buffer_inv_def Buffer_new_def)

lemma buffer_inv_empty [inv_intros, simp]: "buffer_inv Buffer_empty"
  by (simp add: buffer_inv_def Buffer_empty_def)

lemma Buffer_str_simps [simp]:
  "Buffer_str (Buffer_new s) = s" "Buffer_str Buffer_empty = []" "Buffer_copy b = Buffer_str b"
  by (simp_all add: Buffer_str_def Buffer_new_def Buffer_empty_def Buffer_copy_def)

lemma buffer_inv_length: "buffer_inv b \<Longrightarrow> length (Buffer_str b) < 2 ^ 64"
  by (auto simp: buffer_inv_def Buffer_str_def split: option.splits)

lemma Buffer_remove_prefix_ok:
  assumes inv: "buffer_inv b" and n: "unat n \<le> length (Buffer_str b)"
  shows "\<exists>b'. Buffer_remove_prefix b n = Inr b' \<and> buffer_inv b' \<and>
           Buffer_str b' = drop (unat n) (Buffer_str b)"
proof (cases "buf_storage b")
  case None
  with n show ?thesis by (simp add: Buffer_remove_prefix_def Let_def buffer_inv_def Buffer_str_def)
next
  case (Some s)
  let ?o = "buf_starting_offset b"
  from Some inv have s: "length s < 2 ^ 64" "unat ?o \<le> length s" by (simp_all add: buffer_inv_def)
  with Some n have le: "unat ?o + unat n \<le> length s" by (simp add: Buffer_str_def)
  with s have u: "unat (?o + n) = unat n + unat ?o" by (subst unat_add64) simp_all
  have eq: "?o + n = of_nat (length s) \<longleftrightarrow> unat n + unat ?o = length s"
    using u s by (metis unat_of_nat64 word_unat_eq_iff)
  from Some n s le u show ?thesis
    by (auto simp: Buffer_remove_prefix_def Let_def eq buffer_inv_def Buffer_str_def)
qed

section \<open>The contract of the containers\<close>

text \<open>
  A string that discards bytes from its front: dropping at most as many bytes as there are
  drops them from the string it stands for, dropping more is an error.
\<close>

locale discarding =
  fixes inv :: "'b \<Rightarrow> bool"
    and str :: "'b \<Rightarrow> bytes"
    and discard :: "'b \<Rightarrow> u64 \<Rightarrow> exn + 'b"
  assumes discard_ok: "inv b \<Longrightarrow> unat n \<le> length (str b) \<Longrightarrow>
      \<exists>b'. discard b n = Inr b' \<and> inv b' \<and> str b' = drop (unat n) (str b)"
    and discard_error: "inv b \<Longrightarrow> length (str b) < unat n \<Longrightarrow> \<exists>w. discard b n = Inl (OutOfRange w)"
begin

lemma discard_Inr:
  assumes "inv b" and "discard b n = Inr b'"
  shows "inv b'" and "str b' = drop (unat n) (str b)" and "unat n \<le> length (str b)"
  using assms discard_ok [of b n] discard_error [of b n] by (auto simp: not_less [symmetric])

lemma discard_twice:
  assumes "inv b" and "unat m + unat n \<le> length (str b)"
  shows "\<exists>b1 b2. discard b m = Inr b1 \<and> discard b1 n = Inr b2 \<and>
           str b2 = drop (unat m + unat n) (str b)"
proof -
  obtain b1 where b1: "discard b m = Inr b1" "inv b1" "str b1 = drop (unat m) (str b)"
    using discard_ok [of b m] assms by auto
  have "unat n \<le> length (str b1)" using b1(3) assms(2) by simp
  with discard_ok [OF b1(2) this] obtain b2 where "discard b1 n = Inr b2" "str b2 = drop (unat n) (str b1)" by blast
  with b1 show ?thesis by (auto simp: add.commute)
qed

lemma discard_all:
  assumes "inv b" and "unat n = length (str b)"
  shows "\<exists>b'. discard b n = Inr b' \<and> str b' = []"
  using discard_ok [OF assms(1), of n] assms(2) by auto

end

interpretation buf: discarding buffer_inv Buffer_str Buffer_remove_prefix
proof
  fix b and n :: u64
  assume "buffer_inv b" and "length (Buffer_str b) < unat n"
  then show "\<exists>w. Buffer_remove_prefix b n = Inl (OutOfRange w)"
    by (simp add: Buffer_remove_prefix_def)
qed (rule Buffer_remove_prefix_ok)

abbreviation buffers_inv :: "BufferList \<Rightarrow> bool" where
  "buffers_inv bl \<equiv> \<forall>b \<in> set bl. buffer_inv b"

abbreviation BufferList_str :: "BufferList \<Rightarrow> bytes" where
  "BufferList_str bl \<equiv> concat (map Buffer_str bl)"

lemma unat_sub_size:
  "length s < 2 ^ 64 \<Longrightarrow> length s \<le> unat n \<Longrightarrow> unat (n - of_nat (length s) :: u64) = unat n - length s"
  by (subst unat_sub64) (simp_all add: word_le_nat_alt unat_of_nat64)

lemma unat_sub_Buffer_size:
  "buffer_inv b \<Longrightarrow> length (Buffer_str b) \<le> unat n \<Longrightarrow>
     unat (n - Buffer_size b) = unat n - length (Buffer_str b)"
  unfolding Buffer_size_def by (intro unat_sub_size buffer_inv_length)

lemma BufferList_remove_prefix_ok:
  assumes "buffers_inv bl" and "unat n \<le> length (BufferList_str bl)"
  shows "\<exists>bl'. BufferList_remove_prefix bl n = Inr bl' \<and> buffers_inv bl' \<and>
           BufferList_str bl' = drop (unat n) (BufferList_str bl)"
  using assms
proof (induction bl n rule: BufferList_remove_prefix.induct)
  case (1 n)
  then show ?case by (simp add: word_less_nat_alt)
next
  case (2 b bs n)
  show ?case
  proof (cases "unat n < length (Buffer_str b)")
    case True
    with 2(2) buf.discard_ok [of b n] show ?thesis by auto
  next
    case False
    with 2 have "unat (n - Buffer_size b) = unat n - length (Buffer_str b)"
      by (simp add: unat_sub_Buffer_size)
    with 2 False show ?thesis by auto
  qed
qed

lemma BufferList_remove_prefix_error:
  assumes "buffers_inv bl" and "length (BufferList_str bl) < unat n"
  shows "BufferList_remove_prefix bl n = Inl (OutOfRange ''BufferList::remove_prefix'')"
  using assms
proof (induction bl n rule: BufferList_remove_prefix.induct)
  case (1 n)
  then show ?case by (simp add: word_less_nat_alt)
next
  case (2 b bs n)
  then have "unat (n - Buffer_size b) = unat n - length (Buffer_str b)" "n \<noteq> 0"
    by (auto simp: unat_sub_Buffer_size)
  with 2 show ?case by simp
qed

interpretation bufl: discarding buffers_inv BufferList_str BufferList_remove_prefix
  by unfold_locales (rule BufferList_remove_prefix_ok, assumption+,
      blast intro: BufferList_remove_prefix_error)

lemma BufferViewList_remove_prefix_ok:
  assumes "views_inv vl" and "unat n \<le> length (concat vl)"
  shows "\<exists>vl'. BufferViewList_remove_prefix vl n = Inr vl' \<and> views_inv vl' \<and>
           concat vl' = drop (unat n) (concat vl)"
  using assms
proof (induction vl n rule: BufferViewList_remove_prefix.induct)
  case (1 n)
  then show ?case by (simp add: word_less_nat_alt)
next
  case (2 v vs n)
  then show ?case
    by (cases "unat n < length v") (auto simp: views_inv_def unat_sub_size)
qed

lemma BufferViewList_remove_prefix_error:
  assumes "views_inv vl" and "length (concat vl) < unat n"
  shows "BufferViewList_remove_prefix vl n = Inl (OutOfRange ''BufferListView::remove_prefix'')"
  using assms
proof (induction vl n rule: BufferViewList_remove_prefix.induct)
  case (1 n)
  then show ?case by (simp add: word_less_nat_alt)
next
  case (2 v vs n)
  then have "unat (n - of_nat (length v)) = unat n - length v" "n \<noteq> 0"
    by (auto simp: views_inv_def unat_sub_size)
  with 2 show ?case by (simp add: views_inv_def)
qed

interpretation viewl: discarding views_inv concat BufferViewList_remove_prefix
  by unfold_locales (rule BufferViewList_remove_prefix_ok, assumption+,
      blast intro: BufferViewList_remove_prefix_error)

section \<open>The other operations\<close>

lemma BufferList_append_eq [simp]: "BufferList_append a b = a @ b"
proof -
  have "foldl (\<lambda>bs buf. bs @ [buf]) a b = a @ b" by (induction b arbitrary: a) simp_all
  then show ?thesis by (simp add: BufferList_append_def)
qed

lemma BufferList_concatenate_eq [simp]: "BufferList_concatenate bl = BufferList_str bl"
proof -
  have "foldl (\<lambda>ret buf. ret @ Buffer_str buf) r bl = r @ BufferList_str bl" for r
    by (induction bl arbitrary: r) simp_all
  then show ?thesis by (simp add: BufferList_concatenate_def)
qed

lemma size_loop:
  "foldl (\<lambda>ret v. ret + of_nat (length (f v))) (r :: u64) l = r + of_nat (length (concat (map f l)))"
  by (induction l arbitrary: r) (simp_all add: add.assoc)

lemma BufferList_size_eq: "BufferList_size bl = of_nat (length (BufferList_str bl))"
  using size_loop [of Buffer_str 0 bl] by (simp add: BufferList_size_def Buffer_size_def)

lemma BufferViewList_size_eq: "BufferViewList_size vl = of_nat (length (concat vl))"
  using size_loop [of id 0 vl] by (simp add: BufferViewList_size_def)

section \<open>Properties\<close>

text \<open>A \<open>BufferList\<close> is the string its buffers spell: \<open>remove_prefix\<close> with at most as
  many bytes as there are drops exactly these from the string, whatever the boundaries of
  the buffers, and with more it throws; \<open>append\<close> appends the strings, \<open>concatenate\<close> yields
  the string and \<open>size\<close> its size.\<close>

lemma buffer_list_refines_string:
  assumes "buffers_inv bl" and "buffers_inv bl2"
  shows "(if unat n \<le> length (BufferList_concatenate bl)
          then \<exists>bl'. BufferList_remove_prefix bl n = Inr bl' \<and> buffers_inv bl' \<and>
                 BufferList_concatenate bl' = drop (unat n) (BufferList_concatenate bl)
          else BufferList_remove_prefix bl n = Inl (OutOfRange ''BufferList::remove_prefix'')) \<and>
         BufferList_concatenate (BufferList_append bl bl2) =
           BufferList_concatenate bl @ BufferList_concatenate bl2 \<and>
         BufferList_size bl = of_nat (length (BufferList_concatenate bl))"
  using bufl.discard_ok [OF assms(1), of n] BufferList_remove_prefix_error [OF assms(1), of n]
  by (simp add: BufferList_size_eq)

text \<open>A \<open>BufferViewList\<close> made from a \<open>BufferList\<close> loses its bytes in step with it: after
  both drop the same number of bytes they still spell the same string, so a partial write
  of a packet resumes at the right byte.\<close>

lemma view_list_follows_buffer_list:
  assumes "buffers_inv bl" and "BufferList_remove_prefix bl n = Inr bl'"
  shows "\<exists>vl'. BufferViewList_remove_prefix (BufferViewList_of_BufferList bl) n = Inr vl' \<and>
           concat vl' = BufferList_concatenate bl'"
proof -
  have "views_inv (BufferViewList_of_BufferList bl)"
    using assms(1) by (auto simp: views_inv_def BufferViewList_of_BufferList_def dest: buffer_inv_length [simplified])
  from viewl.discard_ok [OF this, of n] bufl.discard_Inr [OF assms] show ?thesis
    by (auto simp: BufferViewList_of_BufferList_def)
qed

end
