(* ===== verification/Net_Parser.thy ===== *)
theory Net_Parser
  imports Sponge_Buffer
begin

text \<open>
  The parsing and unparsing of network-order integers of \<open>libsponge/util/parser.hh\<close> and
  \<open>libsponge/util/parser.cc\<close>. A parser is a buffer and a sticky error; every read returns
  the value and the parser that remains. The contract \<open>wire_codec\<close> at the end is what the
  header formats of the protocol stack rely on and provide.
\<close>

section \<open>Parse results\<close>

datatype ParseResult =
    NoError | BadChecksum | PacketTooShort | WrongIPVersion | HeaderTooShort | TruncatedPacket
  | Unsupported

primrec ParseResult_index :: "ParseResult \<Rightarrow> nat" where
  "ParseResult_index NoError = 0"
| "ParseResult_index BadChecksum = 1"
| "ParseResult_index PacketTooShort = 2"
| "ParseResult_index WrongIPVersion = 3"
| "ParseResult_index HeaderTooShort = 4"
| "ParseResult_index TruncatedPacket = 5"
| "ParseResult_index Unsupported = 6"

definition as_string_names :: "string list" where
  "as_string_names = [''NoError'', ''BadChecksum'', ''PacketTooShort'', ''WrongIPVersion'',
     ''HeaderTooShort'', ''TruncatedPacket'']"

definition as_string :: "ParseResult \<Rightarrow> exn + string" where
  "as_string r =
     (if ParseResult_index r < length as_string_names
      then Inr (as_string_names ! ParseResult_index r)
      else Inl (UndefinedBehaviour ''array index out of bounds''))"

section \<open>NetParser\<close>

record NetParser =
  np_buffer :: Buffer
  np_error :: ParseResult

definition NetParser_new :: "Buffer \<Rightarrow> NetParser" where
  "NetParser_new buffer = \<lparr>np_buffer = buffer, np_error = NoError\<rparr>"

definition NetParser_set_error :: "NetParser \<Rightarrow> ParseResult \<Rightarrow> NetParser" where
  "NetParser_set_error p res = p\<lparr>np_error := res\<rparr>"

definition NetParser_error :: "NetParser \<Rightarrow> bool" where
  "NetParser_error p = (np_error p \<noteq> NoError)"

definition NetParser_check_size :: "NetParser \<Rightarrow> u64 \<Rightarrow> NetParser" where
  "NetParser_check_size p n =
     (if Buffer_size (np_buffer p) < n then NetParser_set_error p PacketTooShort else p)"

text \<open>
  \<open>Buffer::remove_prefix\<close> is called after the size check, so it does not throw
  (\<open>remove_prefix_checked\<close> below); \<open>drop_checked\<close> is the call with that knowledge.
\<close>

definition drop_checked :: "Buffer \<Rightarrow> u64 \<Rightarrow> Buffer" where
  "drop_checked b n = (case Buffer_remove_prefix b n of Inl _ \<Rightarrow> b | Inr b' \<Rightarrow> b')"

definition NetParser_remove_prefix :: "NetParser \<Rightarrow> u64 \<Rightarrow> NetParser" where
  "NetParser_remove_prefix p n =
     (let p = NetParser_check_size p n
      in if NetParser_error p then p else p\<lparr>np_buffer := drop_checked (np_buffer p) n\<rparr>)"

text \<open>\<open>_parse_int<T>\<close>; the type of the result is \<open>T\<close>, and \<open>sizeof(T)\<close> its width in bytes.\<close>

definition NetParser_parse_int :: "NetParser \<Rightarrow> 'a :: len word \<times> NetParser" where
  "NetParser_parse_int p =
     (let len = LENGTH('a) div 8;
          p = NetParser_check_size p (of_nat len)
      in if NetParser_error p then (0, p)
         else
           (foldl (\<lambda>ret i. push_bit 8 ret + ucast (Buffer_str (np_buffer p) ! i)) 0 [0..<len],
            p\<lparr>np_buffer := drop_checked (np_buffer p) (of_nat len)\<rparr>))"

definition NetParser_u32 :: "NetParser \<Rightarrow> u32 \<times> NetParser" where
  "NetParser_u32 p = NetParser_parse_int p"

definition NetParser_u16 :: "NetParser \<Rightarrow> u16 \<times> NetParser" where
  "NetParser_u16 p = NetParser_parse_int p"

definition NetParser_u8 :: "NetParser \<Rightarrow> u8 \<times> NetParser" where
  "NetParser_u8 p = NetParser_parse_int p"

section \<open>NetUnparser\<close>

definition NetUnparser_unparse_int :: "bytes \<Rightarrow> 'a :: len word \<Rightarrow> bytes" where
  "NetUnparser_unparse_int s val =
     (let len = LENGTH('a) div 8
      in foldl (\<lambda>s i. s @ [ucast (drop_bit ((len - i - 1) * 8) val AND 0xff)]) s [0..<len])"

definition NetUnparser_u32 :: "bytes \<Rightarrow> u32 \<Rightarrow> bytes" where
  "NetUnparser_u32 s val = NetUnparser_unparse_int s val"

definition NetUnparser_u16 :: "bytes \<Rightarrow> u16 \<Rightarrow> bytes" where
  "NetUnparser_u16 s val = NetUnparser_unparse_int s val"

definition NetUnparser_u8 :: "bytes \<Rightarrow> u8 \<Rightarrow> bytes" where
  "NetUnparser_u8 s val = NetUnparser_unparse_int s val"

section \<open>The parser as a byte string\<close>

abbreviation np_str :: "NetParser \<Rightarrow> bytes" where
  "np_str p \<equiv> Buffer_str (np_buffer p)"

definition np_inv :: "NetParser \<Rightarrow> bool" where
  "np_inv p \<longleftrightarrow> buffer_inv (np_buffer p)"

text \<open>A parser that has not failed, standing before the bytes \<open>s\<close>.\<close>

definition np_at :: "NetParser \<Rightarrow> bytes \<Rightarrow> bool" where
  "np_at p s \<longleftrightarrow> np_inv p \<and> np_error p = NoError \<and> np_str p = s"

lemma np_at_new: "length s < 2 ^ 64 \<Longrightarrow> np_at (NetParser_new (Buffer_new s)) s"
  by (simp add: np_at_def np_inv_def NetParser_new_def buffer_inv_new)

lemma remove_prefix_checked:
  assumes "buffer_inv b" and "\<not> Buffer_size b < n"
  shows "\<exists>b'. Buffer_remove_prefix b n = Inr b'"
    and "buffer_inv (drop_checked b n)" and "Buffer_str (drop_checked b n) = drop (unat n) (Buffer_str b)"
proof -
  have "unat n \<le> length (Buffer_str b)"
    using assms unat_of_nat64 [OF buffer_inv_length [OF assms(1)]]
    by (simp add: Buffer_size_def word_less_nat_alt)
  from buf.discard_ok [OF assms(1) this] show "\<exists>b'. Buffer_remove_prefix b n = Inr b'"
    "buffer_inv (drop_checked b n)" "Buffer_str (drop_checked b n) = drop (unat n) (Buffer_str b)"
    by (auto simp: drop_checked_def)
qed

lemma check_size_short:
  assumes "np_inv p"
  shows "Buffer_size (np_buffer p) < n \<longleftrightarrow> length (np_str p) < unat n"
  using unat_of_nat64 [OF buffer_inv_length, of "np_buffer p"] assms
  by (simp add: Buffer_size_def word_less_nat_alt np_inv_def)

lemma NetParser_remove_prefix_at:
  assumes "np_at p s" and "unat n \<le> length s"
  shows "np_at (NetParser_remove_prefix p n) (drop (unat n) s)"
  using assms check_size_short [of p n] remove_prefix_checked [of "np_buffer p" n]
  by (simp add: NetParser_remove_prefix_def NetParser_check_size_def NetParser_error_def np_at_def np_inv_def)

lemma NetParser_parse_int_at:
  assumes "np_at p s" and "LENGTH('a) div 8 \<le> length s" and "LENGTH('a) div 8 < 2 ^ 64"
  shows "fst (NetParser_parse_int p :: 'a :: len word \<times> NetParser) =
      foldl (\<lambda>ret i. push_bit 8 ret + ucast (s ! i)) 0 [0..<LENGTH('a) div 8]"
    and "np_at (snd (NetParser_parse_int p :: 'a word \<times> NetParser)) (drop (LENGTH('a) div 8) s)"
proof -
  have u: "unat (of_nat (LENGTH('a) div 8) :: u64) = LENGTH('a) div 8" by (rule unat_of_nat64 [OF assms(3)])
  show "fst (NetParser_parse_int p :: 'a word \<times> NetParser) =
      foldl (\<lambda>ret i. push_bit 8 ret + ucast (s ! i)) 0 [0..<LENGTH('a) div 8]"
    and "np_at (snd (NetParser_parse_int p :: 'a word \<times> NetParser)) (drop (LENGTH('a) div 8) s)"
    using assms(1,2) check_size_short [of p "of_nat (LENGTH('a) div 8)"] u
      remove_prefix_checked [of "np_buffer p" "of_nat (LENGTH('a) div 8)"]
    by (simp_all add: NetParser_parse_int_def Let_def NetParser_check_size_def NetParser_error_def
        np_at_def np_inv_def)
qed

text \<open>Too few bytes set the error, which then stays: every later read gives zero.\<close>

lemma NetParser_parse_int_short:
  assumes "np_inv p" and "length (np_str p) < LENGTH('a) div 8" and "LENGTH('a) div 8 < 2 ^ 64"
  shows "NetParser_parse_int p = (0 :: 'a :: len word, p\<lparr>np_error := PacketTooShort\<rparr>)"
  using assms check_size_short [of p "of_nat (LENGTH('a) div 8)"] unat_of_nat64 [OF assms(3)]
  by (simp add: NetParser_parse_int_def Let_def NetParser_check_size_def NetParser_error_def
      NetParser_set_error_def)

lemma NetParser_parse_int_error:
  assumes "np_error p \<noteq> NoError"
  shows "\<exists>p'. NetParser_parse_int p = (0 :: 'a :: len word, p') \<and> np_error p' \<noteq> NoError \<and>
           np_buffer p' = np_buffer p"
  using assms by (simp_all add: NetParser_parse_int_def Let_def NetParser_check_size_def NetParser_error_def
      NetParser_set_error_def)

section \<open>Integers in network byte order\<close>

text \<open>The bytes an integer is written as, most significant first.\<close>

definition u8_bytes :: "u8 \<Rightarrow> bytes" where
  "u8_bytes v = [v]"

definition u16_bytes :: "u16 \<Rightarrow> bytes" where
  "u16_bytes v = [ucast (drop_bit 8 v AND 0xff), ucast (v AND 0xff)]"

definition u32_bytes :: "u32 \<Rightarrow> bytes" where
  "u32_bytes v = [ucast (drop_bit 24 v AND 0xff), ucast (drop_bit 16 v AND 0xff),
     ucast (drop_bit 8 v AND 0xff), ucast (v AND 0xff)]"

lemma length_int_bytes [simp]:
  "length (u8_bytes a) = 1" "length (u16_bytes b) = 2" "length (u32_bytes c) = 4"
  by (simp_all add: u8_bytes_def u16_bytes_def u32_bytes_def)

lemma low_byte: "unat (ucast ((w :: 'a :: len word) AND 0xff) :: u8) = unat w mod 256"
  using unat_and_mask [of w 8] by (simp add: unat_ucast mask_numeral)

lemma NetUnparser_bytes [simp]:
  "NetUnparser_u8 s a = s @ u8_bytes a"
  "NetUnparser_u16 s b = s @ u16_bytes b"
  "NetUnparser_u32 s c = s @ u32_bytes c"
proof -
  have "(ucast (a AND 0xff) :: u8) = a"
    using low_byte [of a] by (intro unsigned_word_eqI [where ?'a = nat]) simp
  then show "NetUnparser_u8 s a = s @ u8_bytes a"
    by (simp add: NetUnparser_u8_def NetUnparser_unparse_int_def u8_bytes_def)
qed (simp_all add: NetUnparser_u16_def NetUnparser_u32_def NetUnparser_unparse_int_def
      u16_bytes_def u32_bytes_def upt_rec)

lemma parse_step:
  assumes "unat (w :: 'a :: len word) = v div (256 * d)" and "unat (b :: u8) = v div d mod 256"
    and "v < 2 ^ LENGTH('a)" and "8 \<le> LENGTH('a)"
  shows "unat (push_bit 8 w + ucast b) = v div d"
proof -
  have v: "v div (256 * d) * 256 + v div d mod 256 = v div d"
    using div_mult_mod_eq [of "v div d" 256] by (simp add: div_mult2_eq mult.commute)
  have lt: "v div d < 2 ^ LENGTH('a)" using assms(3) by (meson div_le_dividend le_less_trans)
  have "256 \<le> (2 :: nat) ^ LENGTH('a)"
    using assms(4) power_increasing [of 8 "LENGTH('a)" "2 :: nat"] by simp
  then have "unat b < 2 ^ LENGTH('a)" by (rule less_le_trans [OF unat_lt8])
  then have "unat (push_bit 8 w + ucast b) = (v div (256 * d) * 256 + v div d mod 256) mod 2 ^ LENGTH('a)"
    by (simp add: unat_word_ariths unat_push_bit unat_ucast assms(1,2) mod_simps)
  then show ?thesis unfolding v using lt by simp
qed

lemma u16_fold:
  "foldl (\<lambda>ret i. push_bit 8 ret + ucast (u16_bytes v ! i)) 0 [0..<2] = (v :: u16)"
proof (rule unsigned_word_eqI [where ?'a = nat])
  have 1: "unat (push_bit 8 (0 :: u16) + ucast (ucast (drop_bit 8 v AND 0xff) :: u8)) = unat v div 256"
    by (rule parse_step) (simp_all add: low_byte unat_drop_bit)
  have "unat (push_bit 8 (push_bit 8 (0 :: u16) + ucast (ucast (drop_bit 8 v AND 0xff) :: u8)) +
      ucast (ucast (v AND 0xff) :: u8)) = unat v div 1"
    by (rule parse_step) (simp_all only: low_byte 1, simp_all)
  then show "unat (foldl (\<lambda>ret i. push_bit 8 ret + ucast (u16_bytes v ! i)) 0 [0..<2] :: u16) = unat v"
    by (simp add: u16_bytes_def upt_rec)
qed

lemma u32_fold:
  "foldl (\<lambda>ret i. push_bit 8 ret + ucast (u32_bytes v ! i)) 0 [0..<4] = (v :: u32)"
proof (rule unsigned_word_eqI [where ?'a = nat])
  let ?b = "\<lambda>k. ucast (ucast (drop_bit k v AND 0xff) :: u8) :: u32"
  let ?v1 = "push_bit 8 0 + ?b 24" let ?v2 = "push_bit 8 ?v1 + ?b 16"
  let ?v3 = "push_bit 8 ?v2 + ?b 8"
  have 1: "unat ?v1 = unat v div 16777216"
    by (rule parse_step) (simp_all add: low_byte unat_drop_bit)
  have 2: "unat ?v2 = unat v div 65536"
    by (rule parse_step) (simp_all only: low_byte unat_drop_bit 1, simp_all)
  have 3: "unat ?v3 = unat v div 256"
    by (rule parse_step) (simp_all only: low_byte unat_drop_bit 2, simp_all)
  have "unat (push_bit 8 ?v3 + ucast (ucast (v AND 0xff) :: u8)) = unat v div 1"
    by (rule parse_step) (simp_all only: low_byte 3, simp_all)
  then show "unat (foldl (\<lambda>ret i. push_bit 8 ret + ucast (u32_bytes v ! i)) 0 [0..<4] :: u32) = unat v"
    by (simp add: u32_bytes_def upt_rec)
qed

lemma u8_fold: "foldl (\<lambda>ret i. push_bit 8 ret + ucast (u8_bytes v ! i)) 0 [0..<1] = (v :: u8)"
  by (simp add: u8_bytes_def)

lemma fold_prefix:
  "n \<le> length s \<Longrightarrow>
     foldl (\<lambda>ret i. push_bit 8 ret + ucast ((s @ r) ! i)) a [0..<n] =
     foldl (\<lambda>ret i. push_bit 8 ret + ucast (s ! i)) (a :: 'a :: len word) [0..<n]"
  by (intro foldl_cong) (simp_all add: nth_append)

lemma NetParser_parse_int_bytes:
  fixes v :: "'a :: len word"
  assumes "np_at p (s @ r)" and "length s = LENGTH('a) div 8" and "LENGTH('a) div 8 < 2 ^ 64"
    and "foldl (\<lambda>ret i. push_bit 8 ret + ucast (s ! i)) 0 [0..<LENGTH('a) div 8] = v"
  shows "\<exists>p'. NetParser_parse_int p = (v, p') \<and> np_at p' r"
proof -
  let ?q = "NetParser_parse_int p :: 'a word \<times> NetParser"
  have len: "LENGTH('a) div 8 \<le> length (s @ r)" using assms(2) by simp
  have "fst ?q = v"
    using NetParser_parse_int_at(1) [OF assms(1) len assms(3)] assms(2,4)
    by (simp add: fold_prefix)
  moreover have "np_at (snd ?q) r"
    using NetParser_parse_int_at(2) [OF assms(1) len assms(3)] assms(2) by simp
  ultimately show ?thesis by (cases ?q) simp
qed

lemma NetParser_u8_at:
  "np_at p (u8_bytes v @ r) \<Longrightarrow> \<exists>p'. NetParser_u8 p = (v, p') \<and> np_at p' r"
  unfolding NetParser_u8_def using u8_fold [of v] by (intro NetParser_parse_int_bytes) simp_all

lemma NetParser_u16_at:
  "np_at p (u16_bytes v @ r) \<Longrightarrow> \<exists>p'. NetParser_u16 p = (v, p') \<and> np_at p' r"
  unfolding NetParser_u16_def using u16_fold [of v] by (intro NetParser_parse_int_bytes) simp_all

lemma NetParser_u32_at:
  "np_at p (u32_bytes v @ r) \<Longrightarrow> \<exists>p'. NetParser_u32 p = (v, p') \<and> np_at p' r"
  unfolding NetParser_u32_def using u32_fold [of v] by (intro NetParser_parse_int_bytes) simp_all

section \<open>The contract of a wire format\<close>

text \<open>
  A wire format: printing a value and parsing the bytes back gives the value and leaves
  the parser, without an error, just behind them. Integers provide it; the header formats
  of TCP, IPv4, Ethernet and ARP rely on it for their fields and provide it in turn.
\<close>

locale wire_codec =
  fixes ok :: "'a \<Rightarrow> bool"
    and print :: "'a \<Rightarrow> bytes"
    and parse :: "NetParser \<Rightarrow> 'a \<times> NetParser"
  assumes parse_print: "ok x \<Longrightarrow> np_at p (print x @ r) \<Longrightarrow> \<exists>p'. parse p = (x, p') \<and> np_at p' r"
begin

lemma parse_whole:
  assumes "ok x" and "length (print x) < 2 ^ 64"
  shows "\<exists>p'. parse (NetParser_new (Buffer_new (print x))) = (x, p') \<and> np_at p' []"
  using parse_print [OF assms(1), of _ "[]"] np_at_new [OF assms(2)] by simp

lemma print_prefix_free:
  assumes "ok x" and "ok y" and "print x @ r = print y @ s" and "length (print x @ r) < 2 ^ 64"
  shows "x = y \<and> r = s"
proof -
  let ?p = "NetParser_new (Buffer_new (print x @ r))"
  have "np_at ?p (print x @ r)" "np_at ?p (print y @ s)"
    using np_at_new [OF assms(4)] assms(3) by simp_all
  then obtain p1 p2 where "parse ?p = (x, p1)" "np_at p1 r" "parse ?p = (y, p2)" "np_at p2 s"
    using parse_print assms(1,2) by metis
  then show ?thesis by (auto simp: np_at_def)
qed

lemma print_inj:
  assumes "ok x" and "ok y" and "print x = print y" and "length (print x) < 2 ^ 64"
  shows "x = y"
  using print_prefix_free [of x y "[]" "[]"] assms by simp

end

interpretation wire_u8: wire_codec "\<lambda>_. True" u8_bytes NetParser_u8
  by unfold_locales (rule NetParser_u8_at)

interpretation wire_u16: wire_codec "\<lambda>_. True" u16_bytes NetParser_u16
  by unfold_locales (rule NetParser_u16_at)

interpretation wire_u32: wire_codec "\<lambda>_. True" u32_bytes NetParser_u32
  by unfold_locales (rule NetParser_u32_at)

section \<open>Properties\<close>

text \<open>Integers survive the wire: writing an 8-bit, a 16-bit and a 32-bit integer in network
  byte order and reading them back from the resulting bytes, followed by any others,
  gives the same integers, no error, and a buffer that holds exactly the bytes that
  followed.\<close>

lemma net_int_roundtrip:
  assumes "length r < 2 ^ 63"
  shows "\<exists>p1 p2 p3.
           NetParser_u8 (NetParser_new (Buffer_new
             (NetUnparser_u32 (NetUnparser_u16 (NetUnparser_u8 [] a) b) c @ r))) = (a, p1) \<and>
           NetParser_u16 p1 = (b, p2) \<and> NetParser_u32 p2 = (c, p3) \<and>
           np_error p3 = NoError \<and> Buffer_str (np_buffer p3) = r"
proof -
  let ?s = "u8_bytes a @ u16_bytes b @ u32_bytes c @ r"
  have "np_at (NetParser_new (Buffer_new ?s)) ?s" using assms by (intro np_at_new) simp
  from wire_u8.parse_print [OF TrueI this] obtain p1 where
    p1: "NetParser_u8 (NetParser_new (Buffer_new ?s)) = (a, p1)" "np_at p1 (u16_bytes b @ u32_bytes c @ r)"
    by blast
  from wire_u16.parse_print [OF TrueI p1(2)] obtain p2 where
    p2: "NetParser_u16 p1 = (b, p2)" "np_at p2 (u32_bytes c @ r)" by blast
  from wire_u32.parse_print [OF TrueI p2(2)] obtain p3 where
    p3: "NetParser_u32 p2 = (c, p3)" "np_at p3 r" by blast
  with p1 p2 show ?thesis by (simp add: np_at_def)
qed

text \<open>Reading past the end: a read that needs more bytes than are left consumes nothing,
  returns zero and records \<open>PacketTooShort\<close>; every later read returns zero, consumes
  nothing and leaves an error recorded.\<close>

lemma net_parser_short_read:
  assumes "np_inv p" and "length (Buffer_str (np_buffer p)) < 4"
  shows "\<exists>p'. NetParser_u32 p = (0, p') \<and> np_buffer p' = np_buffer p \<and> np_error p' = PacketTooShort \<and>
           fst (NetParser_u16 p') = 0 \<and> np_buffer (snd (NetParser_u16 p')) = np_buffer p \<and>
           NetParser_error (snd (NetParser_u16 p'))"
proof -
  let ?p = "p\<lparr>np_error := PacketTooShort\<rparr>"
  have "NetParser_u32 p = (0, ?p)"
    unfolding NetParser_u32_def using assms by (intro NetParser_parse_int_short) simp_all
  moreover have "\<exists>p'. NetParser_u16 ?p = (0, p') \<and> np_error p' \<noteq> NoError \<and> np_buffer p' = np_buffer ?p"
    unfolding NetParser_u16_def by (rule NetParser_parse_int_error) simp
  ultimately show ?thesis by (auto simp: NetParser_error_def)
qed

text \<open>The table of names that \<open>as_string\<close> indexes has an entry for every parse result but
  \<open>Unsupported\<close>, for which the lookup leaves the array.\<close>

lemma as_string_total_except_unsupported:
  "(\<exists>w. as_string r = Inl w) \<longleftrightarrow> r = Unsupported"
  by (cases r) (simp_all add: as_string_def as_string_names_def)

end
