(* ===== verification/Internet_Checksum.thy ===== *)
theory Internet_Checksum
  imports Sponge_Prelude
begin

text \<open>
  The class \<open>InternetChecksum\<close> of \<open>libsponge/util/util.hh\<close> and \<open>libsponge/util/util.cc\<close>:
  a 32-bit accumulator of the 16-bit big-endian words of a packet, folded to 16 bits and
  complemented. The lemmas relate the folding loop to arithmetic modulo 65535.
\<close>

section \<open>The class\<close>

record InternetChecksum =
  ic_sum :: u32
  ic_parity :: bool

definition InternetChecksum_new :: "u32 \<Rightarrow> InternetChecksum" where
  "InternetChecksum_new initial_sum = \<lparr>ic_sum = initial_sum, ic_parity = False\<rparr>"

definition InternetChecksum_add :: "InternetChecksum \<Rightarrow> bytes \<Rightarrow> InternetChecksum" where
  "InternetChecksum_add c data =
     foldl (\<lambda>c byte.
         let val = (ucast byte :: u16);
             val = (if \<not> ic_parity c then push_bit 8 val else val)
         in c\<lparr>ic_sum := ic_sum c + ucast val, ic_parity := \<not> ic_parity c\<rparr>) c data"

text \<open>One round of the folding loop, on natural numbers.\<close>

lemma fold_round_unat:
  "unat (drop_bit 16 (ret :: u32) + (ret AND 0xffff)) = unat ret div 65536 + unat ret mod 65536"
proof -
  have hi: "unat (drop_bit 16 ret) = unat ret div 65536"
    by (simp add: unat_drop_bit)
  have lo: "unat (ret AND 0xffff) = unat ret mod 65536"
    using unat_and_mask [of ret 16] by (simp add: mask_numeral)
  have "unat ret div 65536 < 65536" using unat_lt32 [of ret] by (simp add: div_less_iff_less_mult)
  then have "unat ret div 65536 + unat ret mod 65536 < 2 ^ 32"
    using mod_less_divisor [of 65536 "unat ret"] by simp
  then show ?thesis by (simp add: unat_word_ariths hi lo)
qed

lemma fold_round_less: "65535 < n \<Longrightarrow> n div 65536 + n mod 65536 < (n :: nat)"
  using div_mult_mod_eq [of n 65536] div_greater_zero_iff [of n 65536] by linarith

function InternetChecksum_fold :: "u32 \<Rightarrow> u32" where
  "InternetChecksum_fold ret =
     (if 0xffff < ret then InternetChecksum_fold (drop_bit 16 ret + (ret AND 0xffff)) else ret)"
  by pat_completeness auto
termination
  by (relation "measure unat") (simp_all add: fold_round_unat fold_round_less word_less_nat_alt)

declare InternetChecksum_fold.simps [simp del]

definition InternetChecksum_value :: "InternetChecksum \<Rightarrow> u16" where
  "InternetChecksum_value c = ucast (NOT (InternetChecksum_fold (ic_sum c)))"

section \<open>The sum\<close>

text \<open>What a packet adds to the sum, as a natural number.\<close>

fun byte_sum :: "bool \<Rightarrow> bytes \<Rightarrow> nat" where
  "byte_sum parity [] = 0"
| "byte_sum parity (b # bs) = (if parity then unat b else 256 * unat b) + byte_sum (\<not> parity) bs"

lemma byte_sum_append:
  "byte_sum p (a @ b) = byte_sum p a + byte_sum (p \<noteq> odd (length a)) b"
proof (induction a arbitrary: p)
  case (Cons x a)
  have "((\<not> p) = even (length a)) = (p = odd (length a))" by auto
  with Cons [of "\<not> p"] show ?case by simp
qed simp

lemma byte_sum_bound: "byte_sum p data \<le> 65280 * length data"
proof (induction data arbitrary: p)
  case (Cons b bs)
  have "unat b \<le> 255" using unat_lt8 [of b] by linarith
  with Cons [of "\<not> p"] show ?case by (cases p) simp_all
qed simp

lemma byte_value: "unat (ucast (push_bit 8 (ucast (b :: u8) :: u16)) :: u32) = 256 * unat b"
proof -
  have "unat b \<le> 255" using unat_lt8 [of b] by linarith
  then show ?thesis by (simp add: unat_ucast unat_push_bit)
qed

lemma word_of_nat_unat: "unat (w :: 'a :: len word) = n \<Longrightarrow> w = of_nat n"
  by auto

lemma InternetChecksum_add_eq:
  "InternetChecksum_add c data =
     c\<lparr>ic_sum := ic_sum c + of_nat (byte_sum (ic_parity c) data),
       ic_parity := (ic_parity c \<noteq> odd (length data))\<rparr>"
proof (induction data arbitrary: c)
  case Nil
  then show ?case by (simp add: InternetChecksum_add_def)
next
  case (Cons b bs)
  have b: "unat b \<le> 255" using unat_lt8 [of b] by linarith
  have val: "(ucast (if \<not> p then push_bit 8 (ucast b) else ucast b :: u16) :: u32) =
      of_nat (if p then unat b else 256 * unat b)" for p
  proof -
    have "unat (ucast (ucast b :: u16) :: u32) = unat b" using b by (simp add: unat_ucast)
    then show ?thesis by (intro word_of_nat_unat) (simp add: byte_value)
  qed
  show ?case
    using Cons [of "c\<lparr>ic_sum := ic_sum c + of_nat (if ic_parity c then unat b else 256 * unat b),
      ic_parity := \<not> ic_parity c\<rparr>"]
    by (auto simp: InternetChecksum_add_def Let_def val [symmetric] algebra_simps)
qed

section \<open>The folding loop\<close>

text \<open>The representative of \<open>n\<close> modulo 65535 in one's complement: zero only for zero.\<close>

definition ones_sum :: "nat \<Rightarrow> nat" where
  "ones_sum n = (if n = 0 then 0 else (n - 1) mod 65535 + 1)"

lemma ones_sum_small: "n \<le> 65535 \<Longrightarrow> ones_sum n = n"
  by (simp add: ones_sum_def)

lemma ones_sum_le: "ones_sum n \<le> 65535"
  using mod_less_divisor [of 65535 "n - 1"] by (auto simp: ones_sum_def)

lemma ones_sum_round: "ones_sum (n div 65536 + n mod 65536) = ones_sum n"
proof (cases "n = 0")
  case False
  let ?m = "n div 65536 + n mod 65536"
  have n: "n = 65535 * (n div 65536) + ?m" by simp
  have pos: "?m \<noteq> 0"
    using False by (metis add_is_0 div_mult_mod_eq mult_0)
  have "n - 1 = 65535 * (n div 65536) + (?m - 1)"
    using n pos by linarith
  then have "(n - 1) mod 65535 = (?m - 1) mod 65535"
    by (metis mod_mult_self4)
  with pos False show ?thesis by (simp add: ones_sum_def)
qed simp

lemma fold_ones_sum: "unat (InternetChecksum_fold r) = ones_sum (unat r)"
proof (induction r rule: InternetChecksum_fold.induct)
  case (1 r)
  show ?case
  proof (cases "0xffff < r")
    case True
    with 1 show ?thesis
      by (subst InternetChecksum_fold.simps) (simp add: fold_round_unat ones_sum_round)
  next
    case False
    then show ?thesis
      by (subst InternetChecksum_fold.simps) (simp add: word_less_nat_alt ones_sum_small)
  qed
qed

lemma unat_not16: "unat w \<le> 65535 \<Longrightarrow> unat (ucast (NOT (w :: u32)) :: u16) = 65535 - unat w"
proof -
  assume w: "unat w \<le> 65535"
  have "unat (NOT w) = 65535 * 65536 + (65535 - unat w)" using w by (simp add: unat_not)
  then have "unat (NOT w) mod 65536 = (65535 - unat w) mod 65536" by (metis mod_mult_self3)
  then show ?thesis by (simp add: unat_ucast)
qed

lemma value_unat: "unat (InternetChecksum_value c) = 65535 - ones_sum (unat (ic_sum c))"
  by (simp add: InternetChecksum_value_def unat_not16 fold_ones_sum ones_sum_le)

lemma value_zero_iff:
  "InternetChecksum_value c = 0 \<longleftrightarrow> 0 < unat (ic_sum c) \<and> 65535 dvd unat (ic_sum c)"
proof -
  let ?n = "unat (ic_sum c)"
  have "InternetChecksum_value c = 0 \<longleftrightarrow> ones_sum ?n = 65535"
    using ones_sum_le [of ?n] by (simp add: unat_eq_0 [symmetric] value_unat)
  also have "\<dots> \<longleftrightarrow> 0 < ?n \<and> 65535 dvd ?n"
    by (cases ?n) (auto simp: ones_sum_def dvd_eq_mod_eq_0 mod_Suc split: if_splits)
  finally show ?thesis .
qed

lemma ones_sum_complement: "0 < n + (65535 - ones_sum n)" "65535 dvd n + (65535 - ones_sum n)"
proof -
  have "n + (65535 - ones_sum n) = 65535 * (if n = 0 then 1 else (n - 1) div 65535 + 1)"
  proof (cases n)
    case (Suc m)
    define q r where "q = m div 65535" and "r = m mod 65535"
    then have "m = 65535 * q + r" "r < 65535" by simp_all
    then have "Suc m + (65535 - (r + 1)) = 65535 * (q + 1)" by simp
    with Suc show ?thesis by (simp add: ones_sum_def q_def r_def)
  qed (simp add: ones_sum_def)
  then show "0 < n + (65535 - ones_sum n)" "65535 dvd n + (65535 - ones_sum n)"
    by (simp_all del: mult_Suc_right)
qed

lemma sum_unat:
  "unat (ic_sum (InternetChecksum_add (InternetChecksum_new init) data)) =
     (unat init + byte_sum False data) mod 2 ^ 32"
  by (simp add: InternetChecksum_add_eq InternetChecksum_new_def unat_word_ariths
      unat_of_nat take_bit_eq_mod mod_simps)

lemma self_verifies:
  assumes "even (length pre)"
    and "unat init + 65280 * (length pre + length post) + 65535 < 2 ^ 32"
    and "256 * unat hi + unat lo =
           unat (InternetChecksum_value
             (InternetChecksum_add (InternetChecksum_new init) (pre @ [0, 0] @ post)))"
  shows "InternetChecksum_value
           (InternetChecksum_add (InternetChecksum_new init) (pre @ [hi, lo] @ post)) = 0"
proof -
  let ?n = "unat init + byte_sum False pre + byte_sum False post"
  have bound: "?n + 65535 < 2 ^ 32"
    using assms(2) byte_sum_bound [of False pre] byte_sum_bound [of False post]
    by (simp add: distrib_left)
  have sums: "byte_sum False (pre @ [a, b] @ post) =
      byte_sum False pre + (256 * unat a + unat b) + byte_sum False post" for a b
    using assms(1) by (simp add: byte_sum_append)
  from assms(3) bound have field: "256 * unat hi + unat lo = 65535 - ones_sum ?n"
    unfolding value_unat sum_unat sums by (simp add: add.assoc)
  let ?c = "InternetChecksum_add (InternetChecksum_new init) (pre @ [hi, lo] @ post)"
  have "unat (ic_sum ?c) = (unat init + byte_sum False (pre @ [hi, lo] @ post)) mod 2 ^ 32"
    by (rule sum_unat)
  also have "\<dots> = ?n + (65535 - ones_sum ?n)"
    unfolding sums field using bound by simp
  finally have sum: "unat (ic_sum ?c) = ?n + (65535 - ones_sum ?n)" .
  show ?thesis unfolding value_zero_iff sum by (intro conjI ones_sum_complement)
qed

section \<open>Properties\<close>

text \<open>\<open>value\<close> is the one's complement of the one's-complement sum: for every accumulated
  sum the folding loop ends, and what it returns is 65535 minus the representative of the
  sum modulo 65535 (zero only for the sum zero).\<close>

lemma checksum_value_ones_complement:
  "unat (InternetChecksum_value (InternetChecksum_add (InternetChecksum_new init) data)) =
     65535 - ones_sum ((unat init + byte_sum False data) mod 2 ^ 32)"
  by (simp only: value_unat sum_unat)

text \<open>C35. A packet that carries its own checksum verifies: computing the checksum with the
  two bytes of the field zero, writing it there in network byte order and summing the
  packet again gives zero, as long as the packet is short enough for the 32-bit
  accumulator.\<close>

theorem checksum_self_verifies:
  assumes "even (length pre)"
    and "unat init + 65280 * (length pre + length post) + 65535 < 2 ^ 32"
    and "256 * unat hi + unat lo =
           unat (InternetChecksum_value
             (InternetChecksum_add (InternetChecksum_new init) (pre @ [0, 0] @ post)))"
  shows "InternetChecksum_value
           (InternetChecksum_add (InternetChecksum_new init) (pre @ [hi, lo] @ post)) = 0"
  by (rule self_verifies [OF assms])

theorem checksum_self_verifies_witness:
  "InternetChecksum_value
     (InternetChecksum_add (InternetChecksum_new 0) ([0x45, 0] @ [0x7A, 0xDD] @ [0x40, 0x22])) = 0"
proof (rule checksum_self_verifies)
  show "256 * unat (0x7A :: u8) + unat (0xDD :: u8) =
      unat (InternetChecksum_value
        (InternetChecksum_add (InternetChecksum_new 0) ([0x45, 0] @ [0, 0] @ [0x40, 0x22])))"
    by (simp add: value_unat InternetChecksum_add_eq InternetChecksum_new_def ones_sum_def)
qed simp_all

end
