(* ===== verification/Wrapping_Integers.thy ===== *)
theory Wrapping_Integers
  imports Sponge_Prelude
begin

text \<open>
  The 32-bit sequence numbers of \<open>libsponge/wrapping_integers.hh\<close> and
  \<open>libsponge/wrapping_integers.cc\<close>: the class \<open>WrappingInt32\<close>, its operators, and the
  conversions \<open>wrap\<close> and \<open>unwrap\<close> between relative 32-bit and absolute 64-bit sequence
  numbers.
\<close>

unbundle bit_operations_syntax

datatype WrappingInt32 = WrappingInt32 (raw_value: u32)

definition wi_minus :: "WrappingInt32 \<Rightarrow> WrappingInt32 \<Rightarrow> int" where
  "wi_minus a b = sint (raw_value a - raw_value b)"

definition wi_add :: "WrappingInt32 \<Rightarrow> u32 \<Rightarrow> WrappingInt32" where
  "wi_add a b = WrappingInt32 (raw_value a + b)"

definition wi_sub :: "WrappingInt32 \<Rightarrow> u32 \<Rightarrow> WrappingInt32" where
  "wi_sub a b = wi_add a (- b)"

definition wrap :: "u64 \<Rightarrow> WrappingInt32 \<Rightarrow> WrappingInt32" where
  "wrap n isn =
     (let mask = 0xFFFFFFFF;
          n = n AND mask;
          n = n + ucast (raw_value isn);
          n = n AND mask
      in WrappingInt32 (ucast n))"

definition unwrap :: "WrappingInt32 \<Rightarrow> WrappingInt32 \<Rightarrow> u64 \<Rightarrow> u64" where
  "unwrap n isn checkpoint =
     (let mask = 0xFFFFFFFF :: u64;
          off = (if wi_minus n isn < 0
                 then 0xFFFFFFFF - (raw_value isn - raw_value n - 1)
                 else raw_value n - raw_value isn) :: u32;
          res = (checkpoint AND NOT mask) + ucast off
      in if res \<le> checkpoint then
           (if checkpoint - res \<le> drop_bit 1 (mask + 1) then res
            else max res (res + (mask + 1)))
         else
           (if res - checkpoint \<le> drop_bit 1 (mask + 1) \<or> res < mask + 1 then res
            else res - (mask + 1)))"

section \<open>The arithmetic of the conversions\<close>

lemma ucast_and32: "(ucast (x AND mask 32 :: u64) :: u32) = ucast x"
  by (rule bit_word_eqI) (simp add: bit_simps)

lemma ucast_add32: "(ucast (x + y :: u64) :: u32) = ucast x + ucast y"
  by (rule unsigned_word_eqI [where ?'a = nat])
     (simp add: unat_word_ariths unsigned_ucast_eq take_bit_eq_mod mod_mod_cancel mod_simps)

lemma ucast_ucast32: "(ucast (ucast (x :: u32) :: u64) :: u32) = x"
  by (rule bit_word_eqI) (simp add: bit_simps)

lemma unat_ucast32: "unat (ucast (x :: u64) :: u32) = unat x mod 2 ^ 32"
  by (simp add: unsigned_ucast_eq take_bit_eq_mod)

lemma unat_ucast64: "unat (ucast (x :: u32) :: u64) = unat x"
  using unat_lt32 [of x] by (simp add: unsigned_ucast_eq take_bit_eq_mod del: unat_lt32)

lemma hi32_less: "unat (c :: u64) div 4294967296 < 4294967296"
  by (rule less_mult_imp_div_less) simp

lemma and_not_mask32: "unat ((c :: u64) AND NOT (mask 32)) = unat c div 2 ^ 32 * 2 ^ 32"
proof -
  have eq: "c AND NOT (mask 32) = push_bit 32 (drop_bit 32 c)"
    by (rule bit_word_eqI) (auto simp add: bit_simps)
  have "unat c div 2 ^ 32 * 2 ^ 32 < 2 ^ 64"
    by (simp add: hi32_less)
  then show ?thesis
    unfolding eq unsigned_push_bit_eq unat_drop_bit_eq
    by (simp only: push_bit_eq_mult drop_bit_eq_div take_bit_eq_mod) simp
qed

lemma mask32: "(0xFFFFFFFF :: u64) = mask 32"
  by (simp add: mask_eq_exp_minus_1)

lemma wrap_eq: "wrap n isn = WrappingInt32 (ucast n + raw_value isn)"
  by (simp add: wrap_def Let_def mask32 ucast_and32 ucast_add32 ucast_ucast32)

text \<open>The same computation as \<open>unwrap\<close> on natural numbers.\<close>

definition unwrap_nat :: "nat \<Rightarrow> nat \<Rightarrow> nat" where
  "unwrap_nat off C =
     (let R = C div 2 ^ 32 * 2 ^ 32 + off
      in if R \<le> C then
           (if C - R \<le> 2 ^ 31 then R else if R + 2 ^ 32 < 2 ^ 64 then R + 2 ^ 32 else R)
         else (if R - C \<le> 2 ^ 31 \<or> R < 2 ^ 32 then R else R - 2 ^ 32))"

lemma unwrap_off:
  "(if wi_minus n isn < 0 then 0xFFFFFFFF - (raw_value isn - raw_value n - 1)
    else raw_value n - raw_value isn) = raw_value n - raw_value isn"
proof -
  have "(0xFFFFFFFF :: u32) = - 1" by simp
  then show ?thesis by simp
qed

lemma unwrap_nat_eq: "unat (unwrap n isn c) = unwrap_nat (unat (raw_value n - raw_value isn)) (unat c)"
proof -
  let ?o = "unat (raw_value n - raw_value isn)"
  define R where "R = (c AND NOT (mask 32)) + ucast (raw_value n - raw_value isn)"
  have R: "unat R = unat c div 2 ^ 32 * 2 ^ 32 + ?o"
    using hi32_less [of c] unat_lt32 [of "raw_value n - raw_value isn"]
    unfolding R_def by (subst unat_add64) (simp_all add: and_not_mask32 unat_ucast64 del: unat_lt32)
  have nums: "mask 32 + 1 = (4294967296 :: u64)" "drop_bit 1 (4294967296 :: u64) = 2147483648"
    by (simp_all add: mask_eq_exp_minus_1)
  have up: "unat (max R (R + 4294967296)) = (if unat R + 2 ^ 32 < 2 ^ 64 then unat R + 2 ^ 32 else unat R)"
    using unat_lt64 [of R]
    by (simp add: max_def word_le_nat_alt unat_word_ariths le_mod_geq del: unat_lt64) linarith
  have down: "unat (R - 4294967296) = unat R - 2 ^ 32" if "\<not> unat R < 2 ^ 32"
    using that by (subst unat_sub64) (simp_all add: word_le_nat_alt)
  show ?thesis
  proof (cases "R \<le> c")
    case True
    then have "unat R \<le> unat c" "unat (c - R) = unat c - unat R"
      by (simp_all add: word_le_nat_alt unat_sub64)
    with True show ?thesis
      unfolding unwrap_def Let_def unwrap_off mask32 R_def [symmetric] unwrap_nat_def R [symmetric] nums
      by (simp add: up word_le_nat_alt)
  next
    case False
    then have "\<not> unat R \<le> unat c" "unat (R - c) = unat R - unat c"
      by (simp_all add: word_le_nat_alt unat_sub64)
    with False down show ?thesis
      unfolding unwrap_def Let_def unwrap_off mask32 R_def [symmetric] unwrap_nat_def R [symmetric] nums
      by (simp add: word_le_nat_alt word_less_nat_alt)
  qed
qed

lemma unwrap_nat_mod: 
  assumes "off < 2 ^ 32"
  shows "unwrap_nat off C mod 2 ^ 32 = off"
proof -
  let ?R = "C div 2 ^ 32 * 2 ^ 32 + off"
  have R: "?R mod 2 ^ 32 = off" using assms by simp
  then have "(?R + 2 ^ 32) mod 2 ^ 32 = off" by (simp only: mod_add_self2)
  moreover have "(?R - 2 ^ 32) mod 2 ^ 32 = off" if "\<not> ?R < 2 ^ 32"
    using R le_mod_geq [of "2 ^ 32" ?R] that by (simp only: not_less)
  ultimately show ?thesis using R unfolding unwrap_nat_def Let_def by (simp only: split: if_split) blast
qed

lemma unwrap_nat_cases:
  assumes "off < 2 ^ 32"
  shows "(unwrap_nat off C \<le> C + 2 ^ 31 \<and> C \<le> unwrap_nat off C + 2 ^ 31) \<or>
    (unwrap_nat off C \<le> C \<and> 2 ^ 64 \<le> unwrap_nat off C + 2 ^ 32) \<or>
    (C \<le> unwrap_nat off C \<and> unwrap_nat off C < 2 ^ 32)"
proof -
  define R where "R = C div 2 ^ 32 * 2 ^ 32 + off"
  have "C < C div 2 ^ 32 * 2 ^ 32 + 2 ^ 32" "C div 2 ^ 32 * 2 ^ 32 \<le> C"
    using div_mult_mod_eq [of C "2 ^ 32"] mod_less_divisor [of "2 ^ 32" C] by simp_all
  with assms have "R < C + 2 ^ 32" "C < R + 2 ^ 32" by (simp_all add: R_def)
  then show ?thesis
    unfolding unwrap_nat_def R_def [symmetric] Let_def by auto
qed

lemma mod_eq_dist:
  assumes "(a :: nat) mod 2 ^ 32 = b mod 2 ^ 32"
  shows "a = b \<or> a + 2 ^ 32 \<le> b \<or> b + 2 ^ 32 \<le> a"
proof (rule ccontr)
  assume "\<not> ?thesis"
  then have "a \<noteq> b" and d: "b < a + 2 ^ 32" "a < b + 2 ^ 32" by auto
  moreover have "2 ^ 32 dvd a - b" "2 ^ 32 dvd b - a"
    using assms by (metis mod_eq_dvd_iff_nat dvd_0_right diff_is_0_eq nat_le_linear)+
  then have "a - b = 0 \<or> 2 ^ 32 \<le> a - b" "b - a = 0 \<or> 2 ^ 32 \<le> b - a"
    by (auto dest: dvd_imp_le)
  ultimately show False by linarith
qed

lemma unwrap_nat_closest:
  assumes off: "off < 2 ^ 32" and m: "m < 2 ^ 64" "m mod 2 ^ 32 = off"
  shows "\<bar>int (unwrap_nat off C) - int C\<bar> \<le> \<bar>int m - int C\<bar>"
proof -
  have d: "m = unwrap_nat off C \<or> m + 2 ^ 32 \<le> unwrap_nat off C \<or> unwrap_nat off C + 2 ^ 32 \<le> m"
    by (rule mod_eq_dist) (simp only: m(2) unwrap_nat_mod [OF off])
  from unwrap_nat_cases [OF off, of C] d m(1) show ?thesis
    by (elim disjE conjE) simp_all
qed

lemma wrap_iff:
  "wrap m isn = n \<longleftrightarrow> unat m mod 2 ^ 32 = unat (raw_value n - raw_value isn)"
proof -
  have "wrap m isn = n \<longleftrightarrow> ucast m = raw_value n - raw_value isn"
    by (cases n) (auto simp: wrap_eq eq_diff_eq)
  then show ?thesis by (simp only: word_unat_eq_iff unat_ucast32)
qed

lemma wrap_unwrap: "wrap (unwrap n isn c) isn = n"
  unfolding wrap_iff unwrap_nat_eq by (rule unwrap_nat_mod) simp

lemma unwrap_closest_to:
  assumes "wrap m isn = n"
  shows "\<bar>int (unat (unwrap n isn c)) - int (unat c)\<bar> \<le> \<bar>int (unat m) - int (unat c)\<bar>"
  unfolding unwrap_nat_eq using assms unfolding wrap_iff
  by (intro unwrap_nat_closest) simp_all

lemma closest_unique:
  assumes "\<bar>int u - int c\<bar> \<le> \<bar>int m - int c\<bar>" and "m < c + 2 ^ 31" and "c < m + 2 ^ 31"
    and "u mod 2 ^ 32 = m mod 2 ^ 32"
  shows "u = m"
  using mod_eq_dist [OF assms(4)] assms(1-3) by auto

lemma unwrap_wrap:
  assumes "unat m < unat c + 2 ^ 31" and "unat c < unat m + 2 ^ 31"
  shows "unwrap (wrap m isn) isn c = m"
proof -
  let ?u = "unwrap (wrap m isn) isn c"
  have "\<bar>int (unat ?u) - int (unat c)\<bar> \<le> \<bar>int (unat m) - int (unat c)\<bar>"
    by (rule unwrap_closest_to) simp
  then have "unat ?u = unat m" using assms
  proof (rule closest_unique)
    show "unat ?u mod 2 ^ 32 = unat m mod 2 ^ 32"
      using wrap_unwrap [of "wrap m isn" isn c] wrap_iff by metis
  qed
  then show ?thesis by (simp only: word_unat_eq_iff)
qed

section \<open>The contract of the sequence-number conversions\<close>

text \<open>
  The sender and the receiver only rely on this: converting back gives the original
  number when the checkpoint is less than \<open>2 ^ 31\<close> away, and the result of the
  conversion always has the relative number it was given.
\<close>

locale seqno_codec =
  fixes to_rel :: "u64 \<Rightarrow> 'r" and from_rel :: "'r \<Rightarrow> u64 \<Rightarrow> u64"
  assumes from_to: "unat m < unat c + 2 ^ 31 \<Longrightarrow> unat c < unat m + 2 ^ 31 \<Longrightarrow>
      from_rel (to_rel m) c = m"
    and to_from: "to_rel (from_rel r c) = r"
begin

lemma to_rel_inj_near:
  fixes c :: u64
  assumes "to_rel a = to_rel b"
    and "unat a < unat c + 2 ^ 31" "unat c < unat a + 2 ^ 31"
    and "unat b < unat c + 2 ^ 31" "unat c < unat b + 2 ^ 31"
  shows "a = b"
  by (rule trans [OF from_to [OF assms(2,3), symmetric]])
     (simp only: assms(1) from_to [OF assms(4,5)])

text \<open>
  An acknowledgment number is accepted exactly when it names a number in the half-open
  range \<open>(una, nxt]\<close> of sequence numbers that are outstanding.
\<close>

lemma accept_iff:
  assumes "unat nxt < unat una + 2 ^ 31"
  shows "una < from_rel r nxt \<and> from_rel r nxt \<le> nxt \<longleftrightarrow>
    (\<exists>a. una < a \<and> a \<le> nxt \<and> to_rel a = r)"
proof
  assume "una < from_rel r nxt \<and> from_rel r nxt \<le> nxt"
  then show "\<exists>a. una < a \<and> a \<le> nxt \<and> to_rel a = r" using to_from by blast
next
  assume "\<exists>a. una < a \<and> a \<le> nxt \<and> to_rel a = r"
  then obtain a where a: "una < a" "a \<le> nxt" "to_rel a = r" by blast
  with assms have "from_rel (to_rel a) nxt = a"
    by (intro from_to) (auto simp: word_less_nat_alt word_le_nat_alt)
  with a show "una < from_rel r nxt \<and> from_rel r nxt \<le> nxt" by simp
qed

end

interpretation seqno: seqno_codec "\<lambda>n. wrap n isn" "\<lambda>r c. unwrap r isn c" for isn
  by unfold_locales (rule unwrap_wrap, assumption+, rule wrap_unwrap)

section \<open>Properties\<close>

text \<open>
  C33. The documented meaning of \<open>unwrap\<close>: its result wraps to \<open>n\<close>, and no other 64-bit
  number that wraps to \<open>n\<close> is closer to the checkpoint.
\<close>

theorem unwrap_closest:
  "wrap (unwrap n isn checkpoint) isn = n \<and>
   (\<forall>m. wrap m isn = n \<longrightarrow>
      \<bar>int (unat (unwrap n isn checkpoint)) - int (unat checkpoint)\<bar> \<le>
      \<bar>int (unat m) - int (unat checkpoint)\<bar>)"
  using wrap_unwrap unwrap_closest_to by blast

theorem unwrap_closest_witness:
  "wrap 17 (WrappingInt32 15) = WrappingInt32 32 \<and>
   \<bar>int (unat (unwrap (WrappingInt32 32) (WrappingInt32 15) 4294967300)) - 4294967300\<bar> \<le>
   \<bar>int (unat (17 :: u64)) - 4294967300\<bar>"
proof -
  have w: "wrap 17 (WrappingInt32 15) = WrappingInt32 32"
    by (simp add: wrap_eq)
  with unwrap_closest [of "WrappingInt32 32" "WrappingInt32 15" 4294967300]
  have "\<bar>int (unat (unwrap (WrappingInt32 32) (WrappingInt32 15) 4294967300)) - int (unat (4294967300 :: u64))\<bar> \<le>
      \<bar>int (unat (17 :: u64)) - int (unat (4294967300 :: u64))\<bar>"
    by blast
  with w show ?thesis by simp
qed

text \<open>
  Round trip: a number less than \<open>2 ^ 31\<close> away from the checkpoint survives the trip
  through its 32-bit form, whatever the initial sequence number and however often the
  32-bit number has wrapped.
\<close>

lemma wrap_unwrap_roundtrip:
  assumes "unat m < unat checkpoint + 2 ^ 31" and "unat checkpoint < unat m + 2 ^ 31"
  shows "unwrap (wrap m isn) isn checkpoint = m"
  using assms by (rule unwrap_wrap)

end
