(* ===== verification/TCP_Segment.thy ===== *)
theory TCP_Segment
  imports Net_Parser Internet_Checksum Wrapping_Integers
begin

text \<open>
  TCP headers and segments on the wire: \<open>libsponge/tcp_helpers/tcp_header.hh\<close>,
  \<open>tcp_header.cc\<close>, \<open>tcp_segment.hh\<close> and \<open>tcp_segment.cc\<close>. A parse overwrites every field of
  the header object it is called on, so it is a function from the parser to the result,
  the header and the parser that remains; a \<open>throw\<close> is a left result.
\<close>

section \<open>TCPHeader\<close>

record TCPHeader =
  th_sport :: u16
  th_dport :: u16
  th_seqno :: WrappingInt32
  th_ackno :: WrappingInt32
  th_doff :: u8
  th_urg :: bool
  th_ack :: bool
  th_psh :: bool
  th_rst :: bool
  th_syn :: bool
  th_fin :: bool
  th_win :: u16
  th_cksum :: u16
  th_uptr :: u16

definition TCPHeader_LENGTH :: u64 where
  "TCPHeader_LENGTH = 20"

definition TCPHeader_default :: TCPHeader where
  "TCPHeader_default =
     \<lparr>th_sport = 0, th_dport = 0, th_seqno = WrappingInt32 0, th_ackno = WrappingInt32 0,
      th_doff = ucast (TCPHeader_LENGTH div 4), th_urg = False, th_ack = False, th_psh = False,
      th_rst = False, th_syn = False, th_fin = False, th_win = 0, th_cksum = 0, th_uptr = 0\<rparr>"

definition TCPHeader_parse :: "NetParser \<Rightarrow> ParseResult \<times> TCPHeader \<times> NetParser" where
  "TCPHeader_parse p =
     (let (sport, p) = NetParser_u16 p;
          (dport, p) = NetParser_u16 p;
          (seqno, p) = NetParser_u32 p;
          (ackno, p) = NetParser_u32 p;
          (doff_b, p) = NetParser_u8 p;
          (fl_b, p) = NetParser_u8 p;
          (win, p) = NetParser_u16 p;
          (cksum, p) = NetParser_u16 p;
          (uptr, p) = NetParser_u16 p;
          doff = drop_bit 4 doff_b;
          h = \<lparr>th_sport = sport, th_dport = dport, th_seqno = WrappingInt32 seqno,
               th_ackno = WrappingInt32 ackno, th_doff = doff,
               th_urg = (fl_b AND 0b00100000 \<noteq> 0), th_ack = (fl_b AND 0b00010000 \<noteq> 0),
               th_psh = (fl_b AND 0b00001000 \<noteq> 0), th_rst = (fl_b AND 0b00000100 \<noteq> 0),
               th_syn = (fl_b AND 0b00000010 \<noteq> 0), th_fin = (fl_b AND 0b00000001 \<noteq> 0),
               th_win = win, th_cksum = cksum, th_uptr = uptr\<rparr>
      in if doff < 5 then (HeaderTooShort, h, p)
         else
           let p = NetParser_remove_prefix p (ucast doff * 4 - TCPHeader_LENGTH)
           in if NetParser_error p then (np_error p, h, p) else (NoError, h, p))"

definition TCPHeader_flags :: "TCPHeader \<Rightarrow> u8" where
  "TCPHeader_flags h =
     ((if th_urg h then 0b00100000 else 0) OR (if th_ack h then 0b00010000 else 0) OR
      (if th_psh h then 0b00001000 else 0) OR (if th_rst h then 0b00000100 else 0) OR
      (if th_syn h then 0b00000010 else 0) OR (if th_fin h then 0b00000001 else 0))"

text \<open>\<open>std::string::resize\<close>: cut the string, or fill it up with zero bytes.\<close>

definition string_resize :: "bytes \<Rightarrow> nat \<Rightarrow> bytes" where
  "string_resize s n = take n s @ replicate (n - length s) 0"

definition TCPHeader_serialize :: "TCPHeader \<Rightarrow> exn + bytes" where
  "TCPHeader_serialize h =
     (if th_doff h < 5 then Inl (RuntimeError ''TCP header too short'')
      else
        let ret = [];
            ret = NetUnparser_u16 ret (th_sport h);
            ret = NetUnparser_u16 ret (th_dport h);
            ret = NetUnparser_u32 ret (raw_value (th_seqno h));
            ret = NetUnparser_u32 ret (raw_value (th_ackno h));
            ret = NetUnparser_u8 ret (push_bit 4 (th_doff h));
            ret = NetUnparser_u8 ret (TCPHeader_flags h);
            ret = NetUnparser_u16 ret (th_win h);
            ret = NetUnparser_u16 ret (th_cksum h);
            ret = NetUnparser_u16 ret (th_uptr h)
        in Inr (string_resize ret (4 * unat (th_doff h))))"

definition TCPHeader_eq :: "TCPHeader \<Rightarrow> TCPHeader \<Rightarrow> bool" where
  "TCPHeader_eq a b \<longleftrightarrow>
     th_seqno a = th_seqno b \<and> th_ackno a = th_ackno b \<and> th_doff a = th_doff b \<and>
     th_urg a = th_urg b \<and> th_ack a = th_ack b \<and> th_psh a = th_psh b \<and> th_rst a = th_rst b \<and>
     th_syn a = th_syn b \<and> th_fin a = th_fin b \<and> th_win a = th_win b \<and> th_uptr a = th_uptr b"

section \<open>TCPSegment\<close>

record TCPSegment =
  ts_header :: TCPHeader
  ts_payload :: Buffer

definition TCPSegment_default :: TCPSegment where
  "TCPSegment_default = \<lparr>ts_header = TCPHeader_default, ts_payload = Buffer_empty\<rparr>"

definition TCPSegment_parse :: "TCPSegment \<Rightarrow> Buffer \<Rightarrow> u32 \<Rightarrow> ParseResult \<times> TCPSegment" where
  "TCPSegment_parse this buffer datagram_layer_checksum =
     (let check = InternetChecksum_new datagram_layer_checksum;
          check = InternetChecksum_add check (Buffer_str buffer)
      in if InternetChecksum_value check \<noteq> 0 then (BadChecksum, this)
         else
           let p = NetParser_new buffer;
               (_, header, p) = TCPHeader_parse p
           in (np_error p, this\<lparr>ts_header := header, ts_payload := np_buffer p\<rparr>))"

definition TCPSegment_length_in_sequence_space :: "TCPSegment \<Rightarrow> u64" where
  "TCPSegment_length_in_sequence_space s =
     of_nat (length (Buffer_str (ts_payload s))) + (if th_syn (ts_header s) then 1 else 0) +
     (if th_fin (ts_header s) then 1 else 0)"

definition TCPSegment_serialize :: "TCPSegment \<Rightarrow> u32 \<Rightarrow> exn + BufferList" where
  "TCPSegment_serialize this datagram_layer_checksum =
     (let header_out = (ts_header this)\<lparr>th_cksum := 0\<rparr>;
          check = InternetChecksum_new datagram_layer_checksum
      in case TCPHeader_serialize header_out of
           Inl e \<Rightarrow> Inl e
         | Inr bytes0 \<Rightarrow>
             let check = InternetChecksum_add check bytes0;
                 check = InternetChecksum_add check (Buffer_str (ts_payload this));
                 header_out = header_out\<lparr>th_cksum := InternetChecksum_value check\<rparr>
             in case TCPHeader_serialize header_out of
                  Inl e \<Rightarrow> Inl e
                | Inr bytes1 \<Rightarrow>
                    let ret = BufferList_append [] (BufferList_of_string bytes1);
                        ret = BufferList_append ret [ts_payload this]
                    in Inr ret)"

section \<open>The layout of a header\<close>

text \<open>The sixteen bytes before the checksum, and the fixed part of twenty bytes.\<close>

definition tcp_head :: "TCPHeader \<Rightarrow> bytes" where
  "tcp_head h = u16_bytes (th_sport h) @ u16_bytes (th_dport h) @
     u32_bytes (raw_value (th_seqno h)) @ u32_bytes (raw_value (th_ackno h)) @
     u8_bytes (push_bit 4 (th_doff h)) @ u8_bytes (TCPHeader_flags h) @ u16_bytes (th_win h)"

definition tcp_fixed :: "TCPHeader \<Rightarrow> bytes" where
  "tcp_fixed h = tcp_head h @ u16_bytes (th_cksum h) @ u16_bytes (th_uptr h)"

definition tcp_padding :: "TCPHeader \<Rightarrow> bytes" where
  "tcp_padding h = replicate (4 * unat (th_doff h) - 20) 0"

definition tcp_header_ok :: "TCPHeader \<Rightarrow> bool" where
  "tcp_header_ok h \<longleftrightarrow> 5 \<le> th_doff h \<and> th_doff h < 16"

lemma length_tcp_head [simp]: "length (tcp_head h) = 16" "length (tcp_fixed h) = 20"
  by (simp_all add: tcp_head_def tcp_fixed_def)

lemma string_resize_grow: "length s \<le> n \<Longrightarrow> string_resize s n = s @ replicate (n - length s) 0"
  by (simp add: string_resize_def)

lemma TCPHeader_serialize_eq:
  assumes "tcp_header_ok h"
  shows "TCPHeader_serialize h = Inr (tcp_fixed h @ tcp_padding h)"
proof -
  have "TCPHeader_serialize h = Inr (string_resize (tcp_fixed h) (4 * unat (th_doff h)))"
    using assms by (simp add: TCPHeader_serialize_def tcp_header_ok_def Let_def tcp_fixed_def
        tcp_head_def word_le_nat_alt word_less_nat_alt)
  with assms show ?thesis
    by (simp add: string_resize_grow tcp_padding_def tcp_header_ok_def word_le_nat_alt)
qed

lemma flags_roundtrip:
  "(TCPHeader_flags h AND 0b00100000 \<noteq> 0) = th_urg h"
  "(TCPHeader_flags h AND 0b00010000 \<noteq> 0) = th_ack h"
  "(TCPHeader_flags h AND 0b00001000 \<noteq> 0) = th_psh h"
  "(TCPHeader_flags h AND 0b00000100 \<noteq> 0) = th_rst h"
  "(TCPHeader_flags h AND 0b00000010 \<noteq> 0) = th_syn h"
  "(TCPHeader_flags h AND 0b00000001 \<noteq> 0) = th_fin h"
  unfolding TCPHeader_flags_def
  by (cases "th_urg h"; cases "th_ack h"; cases "th_psh h"; cases "th_rst h"; cases "th_syn h";
      cases "th_fin h"; simp)+

lemma doff_roundtrip: "d < 16 \<Longrightarrow> drop_bit 4 (push_bit 4 (d :: u8)) = d"
  by (rule unsigned_word_eqI [where ?'a = nat])
    (simp add: unat_drop_bit unat_push_bit word_less_nat_alt)

lemma TCPHeader_parse_fixed:
  assumes "th_doff h < 16" and "np_at p (tcp_fixed h @ r)"
  shows "\<exists>p'. np_at p' r \<and> TCPHeader_parse p =
     (if th_doff h < 5 then (HeaderTooShort, h, p')
      else let q = NetParser_remove_prefix p' (ucast (th_doff h) * 4 - TCPHeader_LENGTH)
           in if NetParser_error q then (np_error q, h, q) else (NoError, h, q))"
proof -
  note u16 = wire_u16.parse_print [OF TrueI] and u32 = wire_u32.parse_print [OF TrueI]
    and u8 = wire_u8.parse_print [OF TrueI]
  from assms(2) obtain p1 where p1: "NetParser_u16 p = (th_sport h, p1)" "np_at p1
      (u16_bytes (th_dport h) @ u32_bytes (raw_value (th_seqno h)) @ u32_bytes (raw_value (th_ackno h)) @
       u8_bytes (push_bit 4 (th_doff h)) @ u8_bytes (TCPHeader_flags h) @ u16_bytes (th_win h) @
       u16_bytes (th_cksum h) @ u16_bytes (th_uptr h) @ r)"
    using u16 [of p "th_sport h"] by (auto simp: tcp_fixed_def tcp_head_def)
  from u16 [OF p1(2)] obtain p2 where p2: "NetParser_u16 p1 = (th_dport h, p2)" "np_at p2
      (u32_bytes (raw_value (th_seqno h)) @ u32_bytes (raw_value (th_ackno h)) @
       u8_bytes (push_bit 4 (th_doff h)) @ u8_bytes (TCPHeader_flags h) @ u16_bytes (th_win h) @
       u16_bytes (th_cksum h) @ u16_bytes (th_uptr h) @ r)" by blast
  from u32 [OF p2(2)] obtain p3 where p3: "NetParser_u32 p2 = (raw_value (th_seqno h), p3)" "np_at p3
      (u32_bytes (raw_value (th_ackno h)) @
       u8_bytes (push_bit 4 (th_doff h)) @ u8_bytes (TCPHeader_flags h) @ u16_bytes (th_win h) @
       u16_bytes (th_cksum h) @ u16_bytes (th_uptr h) @ r)" by blast
  from u32 [OF p3(2)] obtain p4 where p4: "NetParser_u32 p3 = (raw_value (th_ackno h), p4)" "np_at p4
      (u8_bytes (push_bit 4 (th_doff h)) @ u8_bytes (TCPHeader_flags h) @ u16_bytes (th_win h) @
       u16_bytes (th_cksum h) @ u16_bytes (th_uptr h) @ r)" by blast
  from u8 [OF p4(2)] obtain p5 where p5: "NetParser_u8 p4 = (push_bit 4 (th_doff h), p5)" "np_at p5
      (u8_bytes (TCPHeader_flags h) @ u16_bytes (th_win h) @
       u16_bytes (th_cksum h) @ u16_bytes (th_uptr h) @ r)" by blast
  from u8 [OF p5(2)] obtain p6 where p6: "NetParser_u8 p5 = (TCPHeader_flags h, p6)" "np_at p6
      (u16_bytes (th_win h) @ u16_bytes (th_cksum h) @ u16_bytes (th_uptr h) @ r)" by blast
  from u16 [OF p6(2)] obtain p7 where p7: "NetParser_u16 p6 = (th_win h, p7)" "np_at p7
      (u16_bytes (th_cksum h) @ u16_bytes (th_uptr h) @ r)" by blast
  from u16 [OF p7(2)] obtain p8 where p8: "NetParser_u16 p7 = (th_cksum h, p8)" "np_at p8
      (u16_bytes (th_uptr h) @ r)" by blast
  from u16 [OF p8(2)] obtain p9 where p9: "NetParser_u16 p8 = (th_uptr h, p9)" "np_at p9 r" by blast
  show ?thesis
    by (intro exI [of _ p9] conjI p9(2))
      (simp add: TCPHeader_parse_def p1 p2 p3 p4 p5 p6 p7 p8 p9 flags_roundtrip
        doff_roundtrip [OF assms(1)] Let_def)
qed


lemma np_at_buffer: "buffer_inv b \<Longrightarrow> np_at (NetParser_new b) (Buffer_str b)"
  by (simp add: np_at_def np_inv_def NetParser_new_def)

lemma u16_bytes_value:
  "\<exists>hi lo. u16_bytes v = [hi, lo] \<and> 256 * unat hi + unat lo = unat v"
proof -
  have "256 * (unat v div 256 mod 256) + unat v mod 256 = unat v"
    by (simp add: less_mult_imp_div_less)
  then show ?thesis by (simp add: u16_bytes_def low_byte unat_drop_bit)
qed

lemma InternetChecksum_add_append:
  "InternetChecksum_add (InternetChecksum_add c a) b = InternetChecksum_add c (a @ b)"
  by (simp add: InternetChecksum_add_def)

lemma options_length:
  assumes "tcp_header_ok h"
  shows "unat (ucast (th_doff h) * 4 - TCPHeader_LENGTH) = 4 * unat (th_doff h) - 20"
proof -
  have d: "5 \<le> unat (th_doff h)" "unat (th_doff h) < 16"
    using assms by (simp_all add: tcp_header_ok_def word_le_nat_alt word_less_nat_alt)
  then have m: "unat (ucast (th_doff h) * 4 :: u64) = 4 * unat (th_doff h)"
    by (simp add: unat_word_ariths unat_ucast)
  then show ?thesis
    unfolding TCPHeader_LENGTH_def using d by (subst unat_sub64) (simp_all add: word_le_nat_alt)
qed

lemma TCPHeader_parse_ok:
  assumes ok: "tcp_header_ok h" and "np_at p ((tcp_fixed h @ tcp_padding h) @ r)"
  shows "\<exists>p'. TCPHeader_parse p = (NoError, h, p') \<and> np_at p' r"
proof -
  have d: "th_doff h < 16" "\<not> th_doff h < 5" using ok by (auto simp: tcp_header_ok_def)
  let ?n = "ucast (th_doff h) * 4 - TCPHeader_LENGTH :: u64"
  from TCPHeader_parse_fixed [OF d(1), of p "tcp_padding h @ r"] assms(2) d(2) obtain p' where
    p': "np_at p' (tcp_padding h @ r)" "TCPHeader_parse p =
      (let q = NetParser_remove_prefix p' ?n
       in if NetParser_error q then (np_error q, h, q) else (NoError, h, q))" by auto
  have "unat ?n = length (tcp_padding h)"
    by (simp add: options_length [OF ok] tcp_padding_def)
  with NetParser_remove_prefix_at [OF p'(1), of ?n] have "np_at (NetParser_remove_prefix p' ?n) r"
    by simp
  with p'(2) show ?thesis by (simp add: Let_def NetParser_error_def np_at_def)
qed

interpretation wire_tcp: wire_codec tcp_header_ok "\<lambda>h. tcp_fixed h @ tcp_padding h"
  "\<lambda>p. snd (TCPHeader_parse p)"
proof
  fix h p r
  assume "tcp_header_ok h" and "np_at p ((tcp_fixed h @ tcp_padding h) @ r)"
  from TCPHeader_parse_ok [OF this] show "\<exists>p'. snd (TCPHeader_parse p) = (h, p') \<and> np_at p' r"
    by auto
qed

lemma tcp_header_ok_cksum [simp]: "tcp_header_ok (h\<lparr>th_cksum := v\<rparr>) = tcp_header_ok h"
  by (simp add: tcp_header_ok_def)

lemma tcp_fixed_cksum:
  "tcp_fixed (h\<lparr>th_cksum := v\<rparr>) = tcp_head h @ u16_bytes v @ u16_bytes (th_uptr h)"
  "tcp_padding (h\<lparr>th_cksum := v\<rparr>) = tcp_padding h"
  by (simp_all add: tcp_fixed_def tcp_head_def tcp_padding_def TCPHeader_flags_def)

text \<open>The checksum that \<open>serialize\<close> computes, and the bytes it produces.\<close>

definition tcp_tail :: "TCPSegment \<Rightarrow> bytes" where
  "tcp_tail seg = u16_bytes (th_uptr (ts_header seg)) @ tcp_padding (ts_header seg) @
     Buffer_str (ts_payload seg)"

definition tcp_checksum :: "TCPSegment \<Rightarrow> u32 \<Rightarrow> u16" where
  "tcp_checksum seg ck = InternetChecksum_value (InternetChecksum_add (InternetChecksum_new ck)
     (tcp_head (ts_header seg) @ [0, 0] @ tcp_tail seg))"

lemma TCPSegment_serialize_eq:
  assumes "tcp_header_ok (ts_header seg)"
  shows "\<exists>bl. TCPSegment_serialize seg ck = Inr bl \<and>
           BufferList_concatenate bl = tcp_head (ts_header seg) @ u16_bytes (tcp_checksum seg ck) @ tcp_tail seg"
proof -
  have "u16_bytes 0 = [0, 0]" by (simp add: u16_bytes_def)
  then show ?thesis using assms
    by (simp add: TCPSegment_serialize_def Let_def TCPHeader_serialize_eq InternetChecksum_add_append
        tcp_fixed_cksum tcp_checksum_def tcp_tail_def BufferList_of_string_def)
qed

lemma tcp_tail_length:
  "tcp_header_ok (ts_header seg) \<Longrightarrow>
     length (tcp_tail seg) \<le> 42 + length (Buffer_str (ts_payload seg))"
  by (auto simp: tcp_tail_def tcp_padding_def tcp_header_ok_def word_less_nat_alt)

text \<open>The serialized form determines the header.\<close>

lemma tcp_header_serialize_injective:
  assumes "tcp_header_ok h" and "tcp_header_ok h'"
    and "TCPHeader_serialize h = Inr s" and "TCPHeader_serialize h' = Inr s'"
    and "s @ r = s' @ r'" and "length (s @ r) < 2 ^ 64"
  shows "h = h' \<and> r = r'"
proof -
  have s: "tcp_fixed h @ tcp_padding h = s" "tcp_fixed h' @ tcp_padding h' = s'"
    using assms(1-4) by (simp_all add: TCPHeader_serialize_eq)
  show ?thesis
    by (rule wire_tcp.print_prefix_free [OF assms(1,2)]; unfold s; rule assms)
qed

section \<open>Properties\<close>

text \<open>Parsing what \<open>serialize\<close> writes, from any buffer that holds it.\<close>

lemma TCPSegment_parse_wire:
  assumes ok: "tcp_header_ok (ts_header seg)" and len: "length (Buffer_str (ts_payload seg)) \<le> 65535"
    and ck: "unat ck \<le> 10000000" and b: "buffer_inv b"
    and s: "Buffer_str b = tcp_head (ts_header seg) @ u16_bytes (tcp_checksum seg ck) @ tcp_tail seg"
  shows "\<exists>seg'. TCPSegment_parse this b ck = (NoError, seg') \<and>
           ts_header seg' = (ts_header seg)\<lparr>th_cksum := tcp_checksum seg ck\<rparr> \<and>
           Buffer_str (ts_payload seg') = Buffer_str (ts_payload seg)"
proof -
  let ?h = "(ts_header seg)\<lparr>th_cksum := tcp_checksum seg ck\<rparr>" and ?pay = "Buffer_str (ts_payload seg)"
  obtain hi lo where v: "u16_bytes (tcp_checksum seg ck) = [hi, lo]"
    "256 * unat hi + unat lo = unat (tcp_checksum seg ck)" using u16_bytes_value by blast
  have s': "Buffer_str b = tcp_head (ts_header seg) @ [hi, lo] @ tcp_tail seg" using s v by simp
  have zero: "InternetChecksum_value (InternetChecksum_add (InternetChecksum_new ck) (Buffer_str b)) = 0"
    unfolding s' using v(2) tcp_tail_length [OF ok] len ck
    by (intro self_verifies) (simp_all add: tcp_checksum_def)
  have "Buffer_str b = (tcp_fixed ?h @ tcp_padding ?h) @ ?pay"
    unfolding s by (simp add: tcp_fixed_cksum tcp_tail_def)
  with np_at_buffer [OF b] TCPHeader_parse_ok [of ?h "NetParser_new b" ?pay] ok obtain p' where
    "TCPHeader_parse (NetParser_new b) = (NoError, ?h, p')" "np_at p' ?pay" by auto
  with zero show ?thesis by (simp add: TCPSegment_parse_def Let_def np_at_def)
qed

text \<open>C29. A segment survives the wire: a segment whose header has a legal data offset and whose
  payload is no longer than an IP datagram allows is serialized without an exception, and
  parsing the bytes with the same pseudo-header checksum reports no error and yields the
  same header (with the checksum filled in) and the same payload.\<close>

theorem tcp_segment_roundtrip:
  assumes "tcp_header_ok (ts_header seg)"
    and "length (Buffer_str (ts_payload seg)) \<le> 65535" and "unat ck \<le> 10000000"
  shows "\<exists>bl seg'. TCPSegment_serialize seg ck = Inr bl \<and>
           TCPSegment_parse this (Buffer_new (BufferList_concatenate bl)) ck = (NoError, seg') \<and>
           ts_header seg' = (ts_header seg)\<lparr>th_cksum := tcp_checksum seg ck\<rparr> \<and>
           Buffer_str (ts_payload seg') = Buffer_str (ts_payload seg)"
proof -
  obtain bl where bl: "TCPSegment_serialize seg ck = Inr bl"
    "BufferList_concatenate bl = tcp_head (ts_header seg) @ u16_bytes (tcp_checksum seg ck) @ tcp_tail seg"
    using TCPSegment_serialize_eq [OF assms(1), of ck] by auto
  have "length (BufferList_concatenate bl) < 2 ^ 64"
    unfolding bl(2) using tcp_tail_length [OF assms(1)] assms(2) by simp
  from TCPSegment_parse_wire [OF assms buffer_inv_new [OF this]] bl show ?thesis by simp
qed

lemma TCPHeader_default_doff: "th_doff TCPHeader_default = 5"
  by (simp add: TCPHeader_default_def TCPHeader_LENGTH_def)

theorem tcp_segment_roundtrip_witness:
  "\<exists>bl seg'. TCPSegment_serialize (TCPSegment_default\<lparr>ts_payload := Buffer_new [1, 2, 3]\<rparr>) 77 = Inr bl \<and>
     TCPSegment_parse TCPSegment_default (Buffer_new (BufferList_concatenate bl)) 77 = (NoError, seg') \<and>
     Buffer_str (ts_payload seg') = [1, 2, 3]"
  using tcp_segment_roundtrip [of "TCPSegment_default\<lparr>ts_payload := Buffer_new [1, 2, 3]\<rparr>" 77 TCPSegment_default]
  by (auto simp: tcp_header_ok_def TCPSegment_default_def TCPHeader_default_doff)

text \<open>\<open>TCPSegment::parse\<close> drops the verdict of \<open>TCPHeader::parse\<close>: a segment with a correct
  checksum whose data offset is below the minimum of five words, for which the header
  parser answers \<open>HeaderTooShort\<close>, is accepted with \<open>NoError\<close>.\<close>

lemma tcp_segment_accepts_short_doff:
  assumes "th_doff h < 5" and "buffer_inv b" and "Buffer_str b = tcp_fixed h @ r"
    and "InternetChecksum_value (InternetChecksum_add (InternetChecksum_new ck) (Buffer_str b)) = 0"
  shows "fst (TCPHeader_parse (NetParser_new b)) = HeaderTooShort \<and>
         (\<exists>seg. TCPSegment_parse this b ck = (NoError, seg) \<and> ts_header seg = h \<and>
                Buffer_str (ts_payload seg) = r)"
proof -
  have "th_doff h < 16" using assms(1) by (simp add: word_less_nat_alt)
  from TCPHeader_parse_fixed [OF this, of "NetParser_new b" r] np_at_buffer [OF assms(2)] assms(1,3)
  obtain p' where "np_at p' r" "TCPHeader_parse (NetParser_new b) = (HeaderTooShort, h, p')" by auto
  with assms(4) show ?thesis by (auto simp: TCPSegment_parse_def Let_def np_at_def)
qed

end
