(* ===== verification/IPv4_Datagram.thy ===== *)
theory IPv4_Datagram
  imports TCP_Segment
begin

text \<open>
  IPv4 headers and datagrams on the wire: \<open>libsponge/tcp_helpers/ipv4_header.hh\<close>,
  \<open>ipv4_header.cc\<close>, \<open>ipv4_datagram.hh\<close> and \<open>ipv4_datagram.cc\<close>. The header parser can return
  before it has assigned the fields, so it takes the header object it is called on.
\<close>

section \<open>IPv4Header\<close>

record IPv4Header =
  ih_ver :: u8
  ih_hlen :: u8
  ih_tos :: u8
  ih_len :: u16
  ih_id :: u16
  ih_df :: bool
  ih_mf :: bool
  ih_offset :: u16
  ih_ttl :: u8
  ih_proto :: u8
  ih_cksum :: u16
  ih_src :: u32
  ih_dst :: u32

definition IPv4Header_LENGTH :: u64 where
  "IPv4Header_LENGTH = 20"

definition IPv4Header_DEFAULT_TTL :: u8 where
  "IPv4Header_DEFAULT_TTL = 128"

definition IPv4Header_PROTO_TCP :: u8 where
  "IPv4Header_PROTO_TCP = 6"

definition IPv4Header_default :: IPv4Header where
  "IPv4Header_default =
     \<lparr>ih_ver = 4, ih_hlen = ucast (IPv4Header_LENGTH div 4), ih_tos = 0, ih_len = 0, ih_id = 0,
      ih_df = True, ih_mf = False, ih_offset = 0, ih_ttl = IPv4Header_DEFAULT_TTL,
      ih_proto = IPv4Header_PROTO_TCP, ih_cksum = 0, ih_src = 0, ih_dst = 0\<rparr>"

definition IPv4Header_parse ::
  "IPv4Header \<Rightarrow> NetParser \<Rightarrow> ParseResult \<times> IPv4Header \<times> NetParser" where
  "IPv4Header_parse this p =
     (let original = np_buffer p;
          data_size = Buffer_size (np_buffer p)
      in if data_size < IPv4Header_LENGTH then (PacketTooShort, this, p)
         else
           let (first_byte, p) = NetParser_u8 p;
               (tos, p) = NetParser_u8 p;
               (len, p) = NetParser_u16 p;
               (ident, p) = NetParser_u16 p;
               (fo_val, p) = NetParser_u16 p;
               (ttl, p) = NetParser_u8 p;
               (proto, p) = NetParser_u8 p;
               (cksum, p) = NetParser_u16 p;
               (src, p) = NetParser_u32 p;
               (dst, p) = NetParser_u32 p;
               hlen = first_byte AND 0x0f;
               h = \<lparr>ih_ver = drop_bit 4 first_byte, ih_hlen = hlen, ih_tos = tos, ih_len = len,
                    ih_id = ident, ih_df = (fo_val AND 0x4000 \<noteq> 0), ih_mf = (fo_val AND 0x2000 \<noteq> 0),
                    ih_offset = fo_val AND 0x1fff, ih_ttl = ttl, ih_proto = proto,
                    ih_cksum = cksum, ih_src = src, ih_dst = dst\<rparr>
           in if data_size < 4 * ucast hlen then (PacketTooShort, h, p)
              else if ih_ver h \<noteq> 4 then (WrongIPVersion, h, p)
              else if hlen < 5 then (HeaderTooShort, h, p)
              else if data_size \<noteq> ucast len then (TruncatedPacket, h, p)
              else
                let p = NetParser_remove_prefix p (ucast hlen * 4 - IPv4Header_LENGTH)
                in if NetParser_error p then (np_error p, h, p)
                   else
                     let check = InternetChecksum_add (InternetChecksum_new 0)
                                   (take (4 * unat hlen) (Buffer_str original))
                     in if InternetChecksum_value check \<noteq> 0 then (BadChecksum, h, p)
                        else (NoError, h, p))"

definition IPv4Header_fo_val :: "IPv4Header \<Rightarrow> u16" where
  "IPv4Header_fo_val h =
     ((if ih_df h then 0x4000 else 0) OR (if ih_mf h then 0x2000 else 0) OR (ih_offset h AND 0x1fff))"

definition IPv4Header_serialize :: "IPv4Header \<Rightarrow> exn + bytes" where
  "IPv4Header_serialize h =
     (if ih_ver h \<noteq> 4 then Inl (RuntimeError ''wrong IP version'')
      else if 4 * ucast (ih_hlen h) < IPv4Header_LENGTH then
        Inl (RuntimeError ''IP header too short'')
      else
        let ret = [];
            first_byte = push_bit 4 (ih_ver h) OR (ih_hlen h AND 0xf);
            ret = NetUnparser_u8 ret first_byte;
            ret = NetUnparser_u8 ret (ih_tos h);
            ret = NetUnparser_u16 ret (ih_len h);
            ret = NetUnparser_u16 ret (ih_id h);
            ret = NetUnparser_u16 ret (IPv4Header_fo_val h);
            ret = NetUnparser_u8 ret (ih_ttl h);
            ret = NetUnparser_u8 ret (ih_proto h);
            ret = NetUnparser_u16 ret (ih_cksum h);
            ret = NetUnparser_u32 ret (ih_src h);
            ret = NetUnparser_u32 ret (ih_dst h)
        in Inr (string_resize ret (4 * unat (ih_hlen h))))"

definition IPv4Header_payload_length :: "IPv4Header \<Rightarrow> u16" where
  "IPv4Header_payload_length h = ih_len h - 4 * ucast (ih_hlen h)"

definition IPv4Header_pseudo_cksum :: "IPv4Header \<Rightarrow> u32" where
  "IPv4Header_pseudo_cksum h =
     (let pcksum = drop_bit 16 (ih_src h) + (ih_src h AND 0xffff);
          pcksum = pcksum + (drop_bit 16 (ih_dst h) + (ih_dst h AND 0xffff));
          pcksum = pcksum + ucast (ih_proto h);
          pcksum = pcksum + ucast (IPv4Header_payload_length h)
      in pcksum)"

section \<open>IPv4Datagram\<close>

record IPv4Datagram =
  id_header :: IPv4Header
  id_payload :: BufferList

definition IPv4Datagram_default :: IPv4Datagram where
  "IPv4Datagram_default = \<lparr>id_header = IPv4Header_default, id_payload = []\<rparr>"

definition IPv4Datagram_parse :: "IPv4Datagram \<Rightarrow> Buffer \<Rightarrow> ParseResult \<times> IPv4Datagram" where
  "IPv4Datagram_parse this buffer =
     (let p = NetParser_new buffer;
          (_, header, p) = IPv4Header_parse (id_header this) p;
          this = this\<lparr>id_header := header, id_payload := [np_buffer p]\<rparr>
      in if BufferList_size (id_payload this) \<noteq> ucast (IPv4Header_payload_length header)
         then (PacketTooShort, this) else (np_error p, this))"

definition IPv4Datagram_serialize :: "IPv4Datagram \<Rightarrow> exn + BufferList" where
  "IPv4Datagram_serialize this =
     (if BufferList_size (id_payload this) \<noteq> ucast (IPv4Header_payload_length (id_header this))
      then Inl (RuntimeError ''IPv4Datagram::serialize: payload is wrong size'')
      else
        let header_out = (id_header this)\<lparr>ih_cksum := 0\<rparr>
        in case IPv4Header_serialize header_out of
             Inl e \<Rightarrow> Inl e
           | Inr header_zero_checksum \<Rightarrow>
               let check = InternetChecksum_add (InternetChecksum_new 0) header_zero_checksum;
                   header_out = header_out\<lparr>ih_cksum := InternetChecksum_value check\<rparr>
               in case IPv4Header_serialize header_out of
                    Inl e \<Rightarrow> Inl e
                  | Inr bytes \<Rightarrow>
                      let ret = BufferList_append [] (BufferList_of_string bytes);
                          ret = BufferList_append ret (id_payload this)
                      in Inr ret)"

section \<open>The layout of a header\<close>

definition ip_first_byte :: "IPv4Header \<Rightarrow> u8" where
  "ip_first_byte h = push_bit 4 (ih_ver h) OR (ih_hlen h AND 0xf)"

definition ip_head :: "IPv4Header \<Rightarrow> bytes" where
  "ip_head h = u8_bytes (ip_first_byte h) @ u8_bytes (ih_tos h) @ u16_bytes (ih_len h) @
     u16_bytes (ih_id h) @ u16_bytes (IPv4Header_fo_val h) @ u8_bytes (ih_ttl h) @
     u8_bytes (ih_proto h)"

definition ip_tail :: "IPv4Header \<Rightarrow> bytes" where
  "ip_tail h = u32_bytes (ih_src h) @ u32_bytes (ih_dst h)"

definition ip_padding :: "IPv4Header \<Rightarrow> bytes" where
  "ip_padding h = replicate (4 * unat (ih_hlen h) - 20) 0"

text \<open>
  A header whose fields fit their places on the wire: version and header length in four
  bits each, the fragment offset in thirteen.
\<close>

definition ip_fields_ok :: "IPv4Header \<Rightarrow> bool" where
  "ip_fields_ok h \<longleftrightarrow> ih_ver h < 16 \<and> ih_hlen h < 16 \<and> ih_offset h < 0x2000"

definition ip_header_ok :: "IPv4Header \<Rightarrow> bool" where
  "ip_header_ok h \<longleftrightarrow> ip_fields_ok h \<and> ih_ver h = 4 \<and> 5 \<le> ih_hlen h"

lemma length_ip_head [simp]: "length (ip_head h) = 10" "length (ip_tail h) = 8"
  by (simp_all add: ip_head_def ip_tail_def)

lemma nibble_and: "x < 16 \<Longrightarrow> x AND 0xf = (x :: u8)"
  using unat_and_mask [of x 4]
  by (intro unsigned_word_eqI [where ?'a = nat]) (simp add: mask_numeral word_less_nat_alt)

lemma first_byte_roundtrip:
  assumes "ip_fields_ok h"
  shows "drop_bit 4 (ip_first_byte h) = ih_ver h" and "ip_first_byte h AND 0xf = ih_hlen h"
proof -
  have m: "(0xf :: u8) = mask 4" by (simp add: mask_numeral)
  have "drop_bit 4 (ih_hlen h AND 0xf) = 0"
    unfolding m take_bit_eq_mask [symmetric] by (simp add: drop_bit_take_bit)
  with assms show "drop_bit 4 (ip_first_byte h) = ih_ver h"
    by (simp add: ip_first_byte_def ip_fields_ok_def doff_roundtrip)
  have "push_bit 4 (ih_ver h) AND 0xf = 0"
    unfolding m take_bit_eq_mask [symmetric] by (simp add: take_bit_push_bit)
  with assms show "ip_first_byte h AND 0xf = ih_hlen h"
    by (simp add: ip_first_byte_def ip_fields_ok_def bit.conj_disj_distrib2 nibble_and)
qed

lemma offset_and: "x < 0x2000 \<Longrightarrow> x AND 0x1fff = (x :: u16)"
  using unat_and_mask [of x 13]
  by (intro unsigned_word_eqI [where ?'a = nat]) (simp add: mask_numeral word_less_nat_alt)

lemma fo_val_roundtrip:
  assumes "ip_fields_ok h"
  shows "(IPv4Header_fo_val h AND 0x4000 \<noteq> 0) = ih_df h"
    and "(IPv4Header_fo_val h AND 0x2000 \<noteq> 0) = ih_mf h"
    and "IPv4Header_fo_val h AND 0x1fff = ih_offset h"
proof -
  show "(IPv4Header_fo_val h AND 0x4000 \<noteq> 0) = ih_df h"
    and "(IPv4Header_fo_val h AND 0x2000 \<noteq> 0) = ih_mf h"
    by (simp_all add: IPv4Header_fo_val_def bit.conj_disj_distrib2 and.assoc)
  show "IPv4Header_fo_val h AND 0x1fff = ih_offset h"
    using assms
    by (simp add: IPv4Header_fo_val_def bit.conj_disj_distrib2 and.assoc ip_fields_ok_def offset_and)
qed

lemma IPv4Header_serialize_eq:
  assumes "ip_header_ok h"
  shows "IPv4Header_serialize h = Inr (ip_head h @ u16_bytes (ih_cksum h) @ ip_tail h @ ip_padding h)"
proof -
  have n: "5 \<le> unat (ih_hlen h)" "unat (ih_hlen h) < 16"
    using assms by (simp_all add: ip_header_ok_def ip_fields_ok_def word_le_nat_alt word_less_nat_alt)
  have "\<not> 4 * ucast (ih_hlen h) < IPv4Header_LENGTH"
    using n by (simp add: IPv4Header_LENGTH_def word_less_nat_alt unat_word_ariths unat_ucast)
  then have "IPv4Header_serialize h =
      Inr (string_resize (ip_head h @ u16_bytes (ih_cksum h) @ ip_tail h) (4 * unat (ih_hlen h)))"
    using assms by (simp add: IPv4Header_serialize_def ip_header_ok_def Let_def ip_head_def ip_tail_def
        ip_first_byte_def)
  with n show ?thesis by (simp add: string_resize_grow ip_padding_def)
qed

text \<open>The fields of any header that fits the wire are read back; then come the checks.\<close>

definition ip_parse_checks :: "IPv4Header \<Rightarrow> bytes \<Rightarrow> NetParser \<Rightarrow> ParseResult \<times> IPv4Header \<times> NetParser" where
  "ip_parse_checks h s p =
     (if length s < 4 * unat (ih_hlen h) then (PacketTooShort, h, p)
      else if ih_ver h \<noteq> 4 then (WrongIPVersion, h, p)
      else if ih_hlen h < 5 then (HeaderTooShort, h, p)
      else if length s \<noteq> unat (ih_len h) then (TruncatedPacket, h, p)
      else
        let p = NetParser_remove_prefix p (ucast (ih_hlen h) * 4 - IPv4Header_LENGTH)
        in if NetParser_error p then (np_error p, h, p)
           else if InternetChecksum_value (InternetChecksum_add (InternetChecksum_new 0)
                     (take (4 * unat (ih_hlen h)) s)) \<noteq> 0
           then (BadChecksum, h, p) else (NoError, h, p))"

lemma size_tests:
  assumes "np_at p s" and "unat (n :: u8) < 16"
  shows "Buffer_size (np_buffer p) < 4 * ucast n \<longleftrightarrow> length s < 4 * unat n"
    and "Buffer_size (np_buffer p) = ucast (l :: u16) \<longleftrightarrow> length s = unat l"
    and "Buffer_size (np_buffer p) < IPv4Header_LENGTH \<longleftrightarrow> length s < 20"
proof -
  have u: "unat (Buffer_size (np_buffer p)) = length s"
    using assms(1) unat_of_nat64 [OF buffer_inv_length, of "np_buffer p"]
    by (simp add: np_at_def np_inv_def Buffer_size_def)
  have "unat (4 * ucast n :: u64) = 4 * unat n" using assms(2) by (simp add: unat_word_ariths unat_ucast)
  then show "Buffer_size (np_buffer p) < 4 * ucast n \<longleftrightarrow> length s < 4 * unat n"
    by (simp add: word_less_nat_alt u)
  show "Buffer_size (np_buffer p) < IPv4Header_LENGTH \<longleftrightarrow> length s < 20"
    by (simp add: word_less_nat_alt u IPv4Header_LENGTH_def)
  have "unat (ucast l :: u64) = unat l" by (rule unat_ucast_widen) simp
  then show "Buffer_size (np_buffer p) = ucast l \<longleftrightarrow> length s = unat l"
    by (metis u word_unat_eq_iff)
qed

lemma IPv4Header_parse_fields:
  assumes ok: "ip_fields_ok h" and at: "np_at p s" and s: "s = ip_head h @ u16_bytes (ih_cksum h) @ ip_tail h @ r"
  shows "\<exists>p'. np_at p' r \<and> IPv4Header_parse this p = ip_parse_checks h s p'"
proof -
  note u16 = wire_u16.parse_print [OF TrueI] and u32 = wire_u32.parse_print [OF TrueI]
    and u8 = wire_u8.parse_print [OF TrueI]
  let ?r2 = "u16_bytes (ih_len h) @ u16_bytes (ih_id h) @ u16_bytes (IPv4Header_fo_val h) @
    u8_bytes (ih_ttl h) @ u8_bytes (ih_proto h) @ u16_bytes (ih_cksum h) @ ip_tail h @ r"
  from at have "np_at p (u8_bytes (ip_first_byte h) @ u8_bytes (ih_tos h) @ ?r2)"
    by (simp add: s ip_head_def)
  from u8 [OF this] obtain p1 where p1: "NetParser_u8 p = (ip_first_byte h, p1)"
    "np_at p1 (u8_bytes (ih_tos h) @ ?r2)" by blast
  from u8 [OF p1(2)] obtain p2 where p2: "NetParser_u8 p1 = (ih_tos h, p2)" "np_at p2 ?r2" by blast
  let ?r4 = "u16_bytes (IPv4Header_fo_val h) @ u8_bytes (ih_ttl h) @ u8_bytes (ih_proto h) @
    u16_bytes (ih_cksum h) @ ip_tail h @ r"
  from u16 [OF p2(2)] obtain p3 where p3: "NetParser_u16 p2 = (ih_len h, p3)"
    "np_at p3 (u16_bytes (ih_id h) @ ?r4)" by blast
  from u16 [OF p3(2)] obtain p4 where p4: "NetParser_u16 p3 = (ih_id h, p4)" "np_at p4 ?r4" by blast
  let ?r6 = "u8_bytes (ih_proto h) @ u16_bytes (ih_cksum h) @ u32_bytes (ih_src h) @ u32_bytes (ih_dst h) @ r"
  from u16 [OF p4(2)] obtain p5 where p5: "NetParser_u16 p4 = (IPv4Header_fo_val h, p5)"
    "np_at p5 (u8_bytes (ih_ttl h) @ ?r6)" by (auto simp: ip_tail_def)
  from u8 [OF p5(2)] obtain p6 where p6: "NetParser_u8 p5 = (ih_ttl h, p6)" "np_at p6 ?r6" by blast
  from u8 [OF p6(2)] obtain p7 where p7: "NetParser_u8 p6 = (ih_proto h, p7)"
    "np_at p7 (u16_bytes (ih_cksum h) @ u32_bytes (ih_src h) @ u32_bytes (ih_dst h) @ r)" by blast
  from u16 [OF p7(2)] obtain p8 where p8: "NetParser_u16 p7 = (ih_cksum h, p8)"
    "np_at p8 (u32_bytes (ih_src h) @ u32_bytes (ih_dst h) @ r)" by blast
  from u32 [OF p8(2)] obtain p9 where p9: "NetParser_u32 p8 = (ih_src h, p9)"
    "np_at p9 (u32_bytes (ih_dst h) @ r)" by blast
  from u32 [OF p9(2)] obtain pe where pe: "NetParser_u32 p9 = (ih_dst h, pe)" "np_at pe r" by blast
  have n: "unat (ih_hlen h) < 16" using ok by (simp add: ip_fields_ok_def word_less_nat_alt)
  have "Buffer_str (np_buffer p) = s" using at by (simp add: np_at_def)
  moreover have "\<not> length s < 20" by (simp add: s)
  ultimately show ?thesis
    by (intro exI [of _ pe] conjI pe(2))
      (simp add: IPv4Header_parse_def size_tests [OF at n] p1 p2 p3 p4 p5 p6 p7 p8 p9 pe
        first_byte_roundtrip [OF ok] fo_val_roundtrip [OF ok] Let_def ip_parse_checks_def)
qed

lemma ip_header_ok_cksum [simp]: "ip_header_ok (h\<lparr>ih_cksum := v\<rparr>) = ip_header_ok h"
  by (simp add: ip_header_ok_def ip_fields_ok_def)

lemma ip_bytes_cksum [simp]:
  "ip_head (h\<lparr>ih_cksum := v\<rparr>) = ip_head h" "ip_tail (h\<lparr>ih_cksum := v\<rparr>) = ip_tail h"
  "ip_padding (h\<lparr>ih_cksum := v\<rparr>) = ip_padding h"
  "IPv4Header_payload_length (h\<lparr>ih_cksum := v\<rparr>) = IPv4Header_payload_length h"
  by (simp_all add: ip_head_def ip_tail_def ip_padding_def ip_first_byte_def IPv4Header_fo_val_def
      IPv4Header_payload_length_def)

lemma ip_options_length:
  assumes "ip_header_ok h"
  shows "unat (ucast (ih_hlen h) * 4 - IPv4Header_LENGTH) = length (ip_padding h)"
proof -
  have d: "5 \<le> unat (ih_hlen h)" "unat (ih_hlen h) < 16"
    using assms by (simp_all add: ip_header_ok_def ip_fields_ok_def word_le_nat_alt word_less_nat_alt)
  then have m: "unat (ucast (ih_hlen h) * 4 :: u64) = 4 * unat (ih_hlen h)"
    by (simp add: unat_word_ariths unat_ucast)
  then show ?thesis
    unfolding IPv4Header_LENGTH_def using d
    by (subst unat_sub64) (simp_all add: word_le_nat_alt ip_padding_def)
qed

text \<open>The checksum that \<open>serialize\<close> computes: over the header with the field zero.\<close>

definition ip_checksum :: "IPv4Header \<Rightarrow> u16" where
  "ip_checksum h = InternetChecksum_value (InternetChecksum_add (InternetChecksum_new 0)
     (ip_head h @ [0, 0] @ ip_tail h @ ip_padding h))"

lemma IPv4Header_parse_ok:
  assumes ok: "ip_header_ok h" and at: "np_at p s"
    and s: "s = ip_head h @ u16_bytes (ih_cksum h) @ ip_tail h @ ip_padding h @ r"
    and len: "unat (ih_len h) = length s" and ck: "ih_cksum h = ip_checksum h"
  shows "\<exists>p'. IPv4Header_parse this p = (NoError, h, p') \<and> np_at p' r"
proof -
  have f: "ip_fields_ok h" and h: "ih_ver h = 4" "\<not> ih_hlen h < 5"
    and n: "5 \<le> unat (ih_hlen h)" "unat (ih_hlen h) < 16"
    using ok by (auto simp: ip_header_ok_def ip_fields_ok_def word_le_nat_alt word_less_nat_alt)
  from IPv4Header_parse_fields [OF f at, of "ip_padding h @ r"] s obtain p' where
    p': "np_at p' (ip_padding h @ r)" "IPv4Header_parse this p = ip_parse_checks h s p'" by auto
  let ?q = "NetParser_remove_prefix p' (ucast (ih_hlen h) * 4 - IPv4Header_LENGTH)"
  have q: "np_at ?q r"
    using NetParser_remove_prefix_at [OF p'(1), of "ucast (ih_hlen h) * 4 - IPv4Header_LENGTH"]
    by (simp add: ip_options_length [OF ok])
  obtain hi lo where v: "u16_bytes (ih_cksum h) = [hi, lo]" "256 * unat hi + unat lo = unat (ih_cksum h)"
    using u16_bytes_value by blast
  have pad: "length (ip_padding h) = 4 * unat (ih_hlen h) - 20" by (simp add: ip_padding_def)
  have "s = (ip_head h @ [hi, lo] @ ip_tail h @ ip_padding h) @ r" by (simp add: s v)
  moreover have "length (ip_head h @ [hi, lo] @ ip_tail h @ ip_padding h) = 4 * unat (ih_hlen h)"
    using n pad by simp
  ultimately have "take (4 * unat (ih_hlen h)) s = ip_head h @ [hi, lo] @ ip_tail h @ ip_padding h"
    by (metis append_eq_conv_conj)
  moreover have "InternetChecksum_value (InternetChecksum_add (InternetChecksum_new 0)
      (ip_head h @ [hi, lo] @ ip_tail h @ ip_padding h)) = 0"
    using v(2) n pad by (intro self_verifies) (simp_all add: ck ip_checksum_def)
  moreover have "\<not> length s < 4 * unat (ih_hlen h)" using n pad by (simp add: s)
  ultimately show ?thesis
    using p'(2) q h len by (simp add: ip_parse_checks_def Let_def NetParser_error_def np_at_def)
qed

text \<open>A datagram whose length field counts the header and the payload.\<close>

definition ip_datagram_ok :: "IPv4Datagram \<Rightarrow> bool" where
  "ip_datagram_ok d \<longleftrightarrow> ip_header_ok (id_header d) \<and>
     unat (ih_len (id_header d)) =
       4 * unat (ih_hlen (id_header d)) + length (BufferList_concatenate (id_payload d))"

lemma payload_length_unat:
  assumes "ip_datagram_ok d"
  shows "unat (IPv4Header_payload_length (id_header d)) = length (BufferList_concatenate (id_payload d))"
proof -
  have n: "unat (ih_hlen (id_header d)) < 16"
    using assms by (simp add: ip_datagram_ok_def ip_header_ok_def ip_fields_ok_def word_less_nat_alt)
  then have "unat (4 * ucast (ih_hlen (id_header d)) :: u16) = 4 * unat (ih_hlen (id_header d))"
    by (simp add: unat_word_ariths unat_ucast)
  with assms show ?thesis
    by (simp add: IPv4Header_payload_length_def unat_sub word_le_nat_alt ip_datagram_ok_def)
qed

lemma payload_size_eq:
  assumes "ip_datagram_ok d" and "BufferList_concatenate bl = BufferList_concatenate (id_payload d)"
  shows "BufferList_size bl = ucast (IPv4Header_payload_length (id_header d))"
  using payload_length_unat [OF assms(1)] assms(2)
  by (simp add: BufferList_size_eq) (metis of_nat_unat)

lemma IPv4Datagram_serialize_eq:
  assumes "ip_datagram_ok d"
  shows "\<exists>bl. IPv4Datagram_serialize d = Inr bl \<and>
           BufferList_concatenate bl = ip_head (id_header d) @ u16_bytes (ip_checksum (id_header d)) @
             ip_tail (id_header d) @ ip_padding (id_header d) @ BufferList_concatenate (id_payload d)"
proof -
  have ok: "ip_header_ok (id_header d)" using assms by (simp add: ip_datagram_ok_def)
  have "u16_bytes 0 = [0, 0]" by (simp add: u16_bytes_def)
  with ok show ?thesis
    using payload_size_eq [OF assms refl]
    by (simp add: IPv4Datagram_serialize_def Let_def IPv4Header_serialize_eq ip_checksum_def
        BufferList_of_string_def)
qed


lemma IPv4Datagram_parse_eq:
  assumes "IPv4Header_parse (id_header this) (NetParser_new b) = (res, h, p')"
    and "np_at p' (BufferList_concatenate (id_payload d))" and "ip_datagram_ok d"
    and "IPv4Header_payload_length h = IPv4Header_payload_length (id_header d)"
  shows "\<exists>b'. IPv4Datagram_parse this b = (NoError, this\<lparr>id_header := h, id_payload := [b']\<rparr>) \<and> buffer_inv b' \<and>
           Buffer_str b' = BufferList_concatenate (id_payload d)"
proof -
  have "BufferList_size [np_buffer p'] = ucast (IPv4Header_payload_length (id_header d))"
    using assms(2) by (intro payload_size_eq [OF assms(3)]) (simp add: np_at_def)
  with assms show ?thesis
    by (intro exI [of _ "np_buffer p'"]) (simp add: IPv4Datagram_parse_def np_at_def np_inv_def)
qed

text \<open>Parsing what \<open>serialize\<close> writes, from any buffer that holds it.\<close>

definition ip_wire :: "IPv4Datagram \<Rightarrow> bytes" where
  "ip_wire d = ip_head (id_header d) @ u16_bytes (ip_checksum (id_header d)) @ ip_tail (id_header d) @
     ip_padding (id_header d) @ BufferList_concatenate (id_payload d)"

lemma ip_wire_length: "ip_datagram_ok d \<Longrightarrow> length (ip_wire d) = unat (ih_len (id_header d))"
  by (auto simp: ip_wire_def ip_datagram_ok_def ip_padding_def ip_header_ok_def word_le_nat_alt)

lemma IPv4Datagram_serialize_wire:
  "ip_datagram_ok d \<Longrightarrow> \<exists>bl. IPv4Datagram_serialize d = Inr bl \<and> BufferList_concatenate bl = ip_wire d"
  unfolding ip_wire_def by (rule IPv4Datagram_serialize_eq)

lemma IPv4Datagram_parse_wire:
  assumes d: "ip_datagram_ok d" and b: "buffer_inv b" "Buffer_str b = ip_wire d"
  defines "h \<equiv> (id_header d)\<lparr>ih_cksum := ip_checksum (id_header d)\<rparr>"
  shows "fst (IPv4Header_parse (id_header this) (NetParser_new b)) = NoError"
    and "\<exists>b'. IPv4Datagram_parse this b = (NoError, this\<lparr>id_header := h, id_payload := [b']\<rparr>) \<and> buffer_inv b' \<and>
           Buffer_str b' = BufferList_concatenate (id_payload d)"
proof -
  let ?pay = "BufferList_concatenate (id_payload d)"
  have s: "Buffer_str b = ip_head h @ u16_bytes (ih_cksum h) @ ip_tail h @ ip_padding h @ ?pay"
    using b(2) by (simp add: ip_wire_def h_def)
  have ok: "ip_header_ok h" using d by (simp add: ip_datagram_ok_def h_def)
  have len: "unat (ih_len h) = length (Buffer_str b)" using ip_wire_length [OF d] b(2) by (simp add: h_def)
  have ck: "ih_cksum h = ip_checksum h" by (simp add: ip_checksum_def h_def)
  from IPv4Header_parse_ok [OF ok np_at_buffer [OF b(1)] s len ck] obtain p' where
    p': "IPv4Header_parse (id_header this) (NetParser_new b) = (NoError, h, p')" "np_at p' ?pay" by blast
  show "fst (IPv4Header_parse (id_header this) (NetParser_new b)) = NoError" using p'(1) by simp
  show "\<exists>b'. IPv4Datagram_parse this b = (NoError, this\<lparr>id_header := h, id_payload := [b']\<rparr>) \<and> buffer_inv b' \<and>
      Buffer_str b' = BufferList_concatenate (id_payload d)"
    using IPv4Datagram_parse_eq [OF p' d] by (simp add: h_def)
qed

text \<open>The pseudo-header adds little to the sum of a TCP segment.\<close>

lemma unat_add_le: "unat (a + b :: 'a :: len word) \<le> unat a + unat b"
  by (simp add: unat_word_ariths)

lemma pseudo_cksum_bound: "unat (IPv4Header_pseudo_cksum h) \<le> 400000"
proof -
  have half: "unat (drop_bit 16 x + (x AND 0xffff)) \<le> 131070" for x :: u32
  proof -
    have "unat x div 65536 \<le> 65535" using unat_lt32 [of x] by (simp add: less_Suc_eq_le [symmetric] div_less_iff_less_mult)
    moreover have "unat x mod 65536 \<le> 65535" by (simp add: less_Suc_eq_le [symmetric])
    ultimately show ?thesis unfolding fold_round_unat by linarith
  qed
  have "unat (ucast (ih_proto h) :: u32) \<le> 255" "unat (ucast (IPv4Header_payload_length h) :: u32) \<le> 65535"
    using unat_lt8 [of "ih_proto h"] unat_lt16 [of "IPv4Header_payload_length h"]
    by (simp_all add: unat_ucast_widen less_Suc_eq_le [symmetric])
  moreover have "unat (a + b + c + d) \<le> unat a + unat b + unat c + unat d" for a b c d :: u32
    using unat_add_le [of "a + b + c" d] unat_add_le [of "a + b" c] unat_add_le [of a b] by linarith
  note this [of "drop_bit 16 (ih_src h) + (ih_src h AND 0xffff)"
      "drop_bit 16 (ih_dst h) + (ih_dst h AND 0xffff)" "ucast (ih_proto h)"
      "ucast (IPv4Header_payload_length h)"]
  ultimately show ?thesis
    using half [of "ih_src h"] half [of "ih_dst h"]
    unfolding IPv4Header_pseudo_cksum_def Let_def by linarith
qed

section \<open>Properties\<close>

text \<open>C30. A datagram survives the wire: a datagram whose header fields fit the wire, of version
  four, with a legal header length and a length field that counts header and payload, is
  serialized without an exception, and parsing the bytes reports no error and yields the
  same header (with the checksum filled in) and the same payload; the header parser itself
  also reports no error.\<close>

theorem ipv4_datagram_roundtrip:
  assumes "ip_datagram_ok d"
  shows "\<exists>bl d'. IPv4Datagram_serialize d = Inr bl \<and>
           fst (IPv4Header_parse (id_header this)
             (NetParser_new (Buffer_new (BufferList_concatenate bl)))) = NoError \<and>
           IPv4Datagram_parse this (Buffer_new (BufferList_concatenate bl)) = (NoError, d') \<and>
           id_header d' = (id_header d)\<lparr>ih_cksum := ip_checksum (id_header d)\<rparr> \<and>
           BufferList_concatenate (id_payload d') = BufferList_concatenate (id_payload d)"
proof -
  obtain bl where bl: "IPv4Datagram_serialize d = Inr bl" "BufferList_concatenate bl = ip_wire d"
    using IPv4Datagram_serialize_wire [OF assms] by auto
  have "length (BufferList_concatenate bl) < 2 ^ 64"
    unfolding bl(2) ip_wire_length [OF assms] by (simp add: less_trans [OF unat_lt16])
  note w = IPv4Datagram_parse_wire [OF assms buffer_inv_new [OF this], of this]
  from w(1) w(2) bl show ?thesis by auto
qed

theorem ipv4_datagram_roundtrip_witness:
  "\<exists>bl d'. IPv4Datagram_serialize
       \<lparr>id_header = IPv4Header_default\<lparr>ih_len := 23\<rparr>, id_payload = [Buffer_new [1], Buffer_new [2, 3]]\<rparr> = Inr bl \<and>
     IPv4Datagram_parse IPv4Datagram_default (Buffer_new (BufferList_concatenate bl)) = (NoError, d') \<and>
     BufferList_concatenate (id_payload d') = [1, 2, 3]"
  using ipv4_datagram_roundtrip [of "\<lparr>id_header = IPv4Header_default\<lparr>ih_len := 23\<rparr>,
      id_payload = [Buffer_new [1], Buffer_new [2, 3]]\<rparr>" IPv4Datagram_default]
  by (auto simp: ip_datagram_ok_def ip_header_ok_def ip_fields_ok_def IPv4Header_default_def
      IPv4Header_LENGTH_def)

text \<open>C40. \<open>IPv4Datagram::parse\<close> drops the verdict of \<open>IPv4Header::parse\<close>: whatever the checksum
  field holds, a datagram whose other fields are right is accepted with \<open>NoError\<close>, also when
  the header parser answers \<open>BadChecksum\<close>.\<close>

theorem ipv4_datagram_accepts_bad_checksum:
  assumes "ip_datagram_ok d" and "buffer_inv b"
    and "Buffer_str b = ip_head (id_header d) @ u16_bytes (ih_cksum (id_header d)) @ ip_tail (id_header d) @
           ip_padding (id_header d) @ BufferList_concatenate (id_payload d)"
  shows "\<exists>d'. IPv4Datagram_parse this b = (NoError, d') \<and> id_header d' = id_header d \<and>
           BufferList_concatenate (id_payload d') = BufferList_concatenate (id_payload d) \<and>
           fst (IPv4Header_parse (id_header this) (NetParser_new b)) =
             (if InternetChecksum_value (InternetChecksum_add (InternetChecksum_new 0)
                   (take (4 * unat (ih_hlen (id_header d))) (Buffer_str b))) = 0
              then NoError else BadChecksum)"
proof -
  let ?h = "id_header d"
  have ok: "ip_header_ok ?h" using assms(1) by (simp add: ip_datagram_ok_def)
  then have f: "ip_fields_ok ?h" and h: "ih_ver ?h = 4" "\<not> ih_hlen ?h < 5" "5 \<le> unat (ih_hlen ?h)"
    by (auto simp: ip_header_ok_def word_le_nat_alt word_less_nat_alt)
  obtain p' where p': "np_at p' (ip_padding ?h @ BufferList_concatenate (id_payload d))"
    "IPv4Header_parse (id_header this) (NetParser_new b) = ip_parse_checks ?h (Buffer_str b) p'"
    using IPv4Header_parse_fields [OF f np_at_buffer [OF assms(2)] assms(3)] by blast
  let ?q = "NetParser_remove_prefix p' (ucast (ih_hlen ?h) * 4 - IPv4Header_LENGTH)"
  have q: "np_at ?q (BufferList_concatenate (id_payload d))"
    using NetParser_remove_prefix_at [OF p'(1), of "ucast (ih_hlen ?h) * 4 - IPv4Header_LENGTH"]
    by (simp add: ip_options_length [OF ok])
  have len: "length (Buffer_str b) = unat (ih_len ?h)"
    unfolding assms(3) using assms(1) h(3) by (simp add: ip_datagram_ok_def ip_padding_def)
  have "4 * unat (ih_hlen ?h) \<le> length (Buffer_str b)"
    unfolding len using assms(1) by (simp add: ip_datagram_ok_def)
  with p'(2) h len q obtain res where
    "IPv4Header_parse (id_header this) (NetParser_new b) = (res, ?h, ?q)"
    "res = (if InternetChecksum_value (InternetChecksum_add (InternetChecksum_new 0)
        (take (4 * unat (ih_hlen ?h)) (Buffer_str b))) = 0 then NoError else BadChecksum)"
    by (simp add: ip_parse_checks_def Let_def NetParser_error_def np_at_def)
  with IPv4Datagram_parse_eq [OF this(1) q assms(1) refl] show ?thesis by auto
qed

theorem ipv4_datagram_accepts_bad_checksum_witness:
  "\<exists>d'. IPv4Datagram_parse IPv4Datagram_default
       (Buffer_new [0x45, 0, 0, 20, 0, 0, 0x40, 0, 128, 6, 0, 0, 0, 0, 0, 0, 0, 0, 0, 0]) = (NoError, d') \<and>
     fst (IPv4Header_parse IPv4Header_default (NetParser_new
       (Buffer_new [0x45, 0, 0, 20, 0, 0, 0x40, 0, 128, 6, 0, 0, 0, 0, 0, 0, 0, 0, 0, 0]))) = BadChecksum"
proof -
  let ?d = "\<lparr>id_header = IPv4Header_default\<lparr>ih_len := 20\<rparr>, id_payload = []\<rparr>"
  let ?s = "[0x45, 0, 0, 20, 0, 0, 0x40, 0, 128, 6, 0, 0, 0, 0, 0, 0, 0, 0, 0, 0] :: bytes"
  have eval: "ip_datagram_ok ?d" "id_header IPv4Datagram_default = IPv4Header_default"
    "?s = ip_head (id_header ?d) @ u16_bytes (ih_cksum (id_header ?d)) @ ip_tail (id_header ?d) @
      ip_padding (id_header ?d) @ BufferList_concatenate (id_payload ?d)"
    "unat (ih_hlen (id_header ?d)) = 5"
    by (simp_all add: ip_datagram_ok_def ip_header_ok_def ip_fields_ok_def IPv4Header_default_def
      IPv4Datagram_default_def IPv4Header_LENGTH_def IPv4Header_DEFAULT_TTL_def IPv4Header_PROTO_TCP_def
      ip_head_def ip_tail_def ip_padding_def ip_first_byte_def IPv4Header_fo_val_def
      u8_bytes_def u16_bytes_def u32_bytes_def)
  have "InternetChecksum_value (InternetChecksum_add (InternetChecksum_new 0) ?s) \<noteq> 0"
    unfolding value_zero_iff sum_unat by simp
  moreover have "take (4 * unat (ih_hlen (id_header ?d))) (Buffer_str (Buffer_new ?s)) = ?s"
    unfolding eval(4) by simp
  moreover have "buffer_inv (Buffer_new ?s)" by (rule buffer_inv_new) simp
  from ipv4_datagram_accepts_bad_checksum [OF eval(1) this, of IPv4Datagram_default]
  have "\<exists>d'. IPv4Datagram_parse IPv4Datagram_default (Buffer_new ?s) = (NoError, d') \<and>
      fst (IPv4Header_parse (id_header IPv4Datagram_default) (NetParser_new (Buffer_new ?s))) =
        (if InternetChecksum_value (InternetChecksum_add (InternetChecksum_new 0)
              (take (4 * unat (ih_hlen (id_header ?d))) (Buffer_str (Buffer_new ?s)))) = 0
         then NoError else BadChecksum)"
    unfolding Buffer_str_simps(1) eval(3) by blast
  ultimately show ?thesis unfolding eval(2) by (simp only: if_False)
qed

end
