(* ===== verification/Ethernet_ARP.thy ===== *)
theory Ethernet_ARP
  imports IPv4_Datagram
begin

text \<open>
  Ethernet headers, Ethernet frames and ARP messages on the wire:
  \<open>libsponge/tcp_helpers/ethernet_header.hh\<close>, \<open>ethernet_header.cc\<close>, \<open>ethernet_frame.hh\<close>,
  \<open>ethernet_frame.cc\<close>, \<open>arp_message.hh\<close> and \<open>arp_message.cc\<close>. An Ethernet address is an array
  of six bytes, here a list of that length.
\<close>

section \<open>Ethernet addresses\<close>

type_synonym EthernetAddress = bytes

definition ETHERNET_BROADCAST :: EthernetAddress where
  "ETHERNET_BROADCAST = [0xff, 0xff, 0xff, 0xff, 0xff, 0xff]"

text \<open>The loops that read and write the bytes of an address.\<close>

fun read_bytes :: "nat \<Rightarrow> NetParser \<Rightarrow> bytes \<times> NetParser" where
  "read_bytes 0 p = ([], p)"
| "read_bytes (Suc n) p =
     (let (byte, p) = NetParser_u8 p; (rest, p) = read_bytes n p in (byte # rest, p))"

definition write_bytes :: "bytes \<Rightarrow> bytes \<Rightarrow> bytes" where
  "write_bytes ret addr = foldl NetUnparser_u8 ret addr"

section \<open>EthernetHeader and EthernetFrame\<close>

record EthernetHeader =
  eh_dst :: EthernetAddress
  eh_src :: EthernetAddress
  eh_type :: u16

definition EthernetHeader_LENGTH :: u64 where
  "EthernetHeader_LENGTH = 14"

definition EthernetHeader_TYPE_IPv4 :: u16 where
  "EthernetHeader_TYPE_IPv4 = 0x800"

definition EthernetHeader_TYPE_ARP :: u16 where
  "EthernetHeader_TYPE_ARP = 0x806"

text \<open>\<open>EthernetHeader _header{}\<close> zero-initializes the arrays and the type.\<close>

definition EthernetHeader_default :: EthernetHeader where
  "EthernetHeader_default = \<lparr>eh_dst = replicate 6 0, eh_src = replicate 6 0, eh_type = 0\<rparr>"

definition EthernetHeader_parse ::
  "EthernetHeader \<Rightarrow> NetParser \<Rightarrow> ParseResult \<times> EthernetHeader \<times> NetParser" where
  "EthernetHeader_parse this p =
     (if Buffer_size (np_buffer p) < EthernetHeader_LENGTH then (PacketTooShort, this, p)
      else
        let (dst, p) = read_bytes 6 p;
            (src, p) = read_bytes 6 p;
            (type, p) = NetParser_u16 p
        in (np_error p, \<lparr>eh_dst = dst, eh_src = src, eh_type = type\<rparr>, p))"

definition EthernetHeader_serialize :: "EthernetHeader \<Rightarrow> bytes" where
  "EthernetHeader_serialize h =
     (let ret = [];
          ret = write_bytes ret (eh_dst h);
          ret = write_bytes ret (eh_src h);
          ret = NetUnparser_u16 ret (eh_type h)
      in ret)"

record EthernetFrame =
  ef_header :: EthernetHeader
  ef_payload :: BufferList

definition EthernetFrame_default :: EthernetFrame where
  "EthernetFrame_default = \<lparr>ef_header = EthernetHeader_default, ef_payload = []\<rparr>"

definition EthernetFrame_parse :: "EthernetFrame \<Rightarrow> Buffer \<Rightarrow> ParseResult \<times> EthernetFrame" where
  "EthernetFrame_parse this buffer =
     (let p = NetParser_new buffer;
          (_, header, p) = EthernetHeader_parse (ef_header this) p
      in (np_error p, this\<lparr>ef_header := header, ef_payload := [np_buffer p]\<rparr>))"

definition EthernetFrame_serialize :: "EthernetFrame \<Rightarrow> BufferList" where
  "EthernetFrame_serialize this =
     (let ret = BufferList_append [] (BufferList_of_string (EthernetHeader_serialize (ef_header this)));
          ret = BufferList_append ret (ef_payload this)
      in ret)"

section \<open>ARPMessage\<close>

record ARPMessage =
  arp_hardware_type :: u16
  arp_protocol_type :: u16
  arp_hardware_address_size :: u8
  arp_protocol_address_size :: u8
  arp_opcode :: u16
  arp_sender_ethernet_address :: EthernetAddress
  arp_sender_ip_address :: u32
  arp_target_ethernet_address :: EthernetAddress
  arp_target_ip_address :: u32

definition ARPMessage_LENGTH :: u64 where
  "ARPMessage_LENGTH = 28"

definition ARPMessage_TYPE_ETHERNET :: u16 where
  "ARPMessage_TYPE_ETHERNET = 1"

definition ARPMessage_OPCODE_REQUEST :: u16 where
  "ARPMessage_OPCODE_REQUEST = 1"

definition ARPMessage_OPCODE_REPLY :: u16 where
  "ARPMessage_OPCODE_REPLY = 2"

definition ARPMessage_default :: ARPMessage where
  "ARPMessage_default =
     \<lparr>arp_hardware_type = ARPMessage_TYPE_ETHERNET, arp_protocol_type = EthernetHeader_TYPE_IPv4,
      arp_hardware_address_size = 6, arp_protocol_address_size = 4, arp_opcode = 0,
      arp_sender_ethernet_address = replicate 6 0, arp_sender_ip_address = 0,
      arp_target_ethernet_address = replicate 6 0, arp_target_ip_address = 0\<rparr>"

definition ARPMessage_supported :: "ARPMessage \<Rightarrow> bool" where
  "ARPMessage_supported m \<longleftrightarrow>
     arp_hardware_type m = ARPMessage_TYPE_ETHERNET \<and>
     arp_protocol_type m = EthernetHeader_TYPE_IPv4 \<and>
     arp_hardware_address_size m = 6 \<and> arp_protocol_address_size m = 4 \<and>
     (arp_opcode m = ARPMessage_OPCODE_REQUEST \<or> arp_opcode m = ARPMessage_OPCODE_REPLY)"

definition ARPMessage_parse :: "ARPMessage \<Rightarrow> Buffer \<Rightarrow> ParseResult \<times> ARPMessage" where
  "ARPMessage_parse this buffer =
     (let p = NetParser_new buffer
      in if Buffer_size (np_buffer p) < ARPMessage_LENGTH then (PacketTooShort, this)
         else
           let (hardware_type, p) = NetParser_u16 p;
               (protocol_type, p) = NetParser_u16 p;
               (hardware_address_size, p) = NetParser_u8 p;
               (protocol_address_size, p) = NetParser_u8 p;
               (opcode, p) = NetParser_u16 p;
               this = this\<lparr>arp_hardware_type := hardware_type, arp_protocol_type := protocol_type,
                           arp_hardware_address_size := hardware_address_size,
                           arp_protocol_address_size := protocol_address_size, arp_opcode := opcode\<rparr>
           in if \<not> ARPMessage_supported this then (Unsupported, this)
              else
                let (sender_ethernet_address, p) = read_bytes 6 p;
                    (sender_ip_address, p) = NetParser_u32 p;
                    (target_ethernet_address, p) = read_bytes 6 p;
                    (target_ip_address, p) = NetParser_u32 p
                in (np_error p,
                    this\<lparr>arp_sender_ethernet_address := sender_ethernet_address,
                         arp_sender_ip_address := sender_ip_address,
                         arp_target_ethernet_address := target_ethernet_address,
                         arp_target_ip_address := target_ip_address\<rparr>))"

definition ARPMessage_serialize :: "ARPMessage \<Rightarrow> exn + bytes" where
  "ARPMessage_serialize m =
     (if \<not> ARPMessage_supported m then
        Inl (RuntimeError ''ARPMessage::serialize(): unsupported field combination (must be Ethernet/IP, and request or reply)'')
      else
        let ret = [];
            ret = NetUnparser_u16 ret (arp_hardware_type m);
            ret = NetUnparser_u16 ret (arp_protocol_type m);
            ret = NetUnparser_u8 ret (arp_hardware_address_size m);
            ret = NetUnparser_u8 ret (arp_protocol_address_size m);
            ret = NetUnparser_u16 ret (arp_opcode m);
            ret = write_bytes ret (arp_sender_ethernet_address m);
            ret = NetUnparser_u32 ret (arp_sender_ip_address m);
            ret = write_bytes ret (arp_target_ethernet_address m);
            ret = NetUnparser_u32 ret (arp_target_ip_address m)
        in Inr ret)"

section \<open>Addresses on the wire\<close>

lemma write_bytes_eq [simp]: "write_bytes ret addr = ret @ addr"
proof -
  have "foldl NetUnparser_u8 ret addr = ret @ addr"
    by (induction addr arbitrary: ret) (simp_all add: u8_bytes_def)
  then show ?thesis by (simp add: write_bytes_def)
qed

lemma read_bytes_at:
  "np_at p (s @ r) \<Longrightarrow> \<exists>p'. read_bytes (length s) p = (s, p') \<and> np_at p' r"
proof (induction s arbitrary: p)
  case (Cons b s)
  then have "np_at p (u8_bytes b @ s @ r)" by (simp add: u8_bytes_def)
  then obtain q where "NetParser_u8 p = (b, q)" "np_at q (s @ r)"
    using wire_u8.parse_print [OF TrueI] by blast
  with Cons.IH show ?case by fastforce
qed simp

abbreviation address_ok :: "EthernetAddress \<Rightarrow> bool" where
  "address_ok a \<equiv> length a = 6"

interpretation wire_address: wire_codec address_ok "\<lambda>a. a" "read_bytes 6"
proof
  fix a p r
  assume "address_ok a" and "np_at p (a @ r)"
  with read_bytes_at [of p a r] show "\<exists>p'. read_bytes 6 p = (a, p') \<and> np_at p' r" by simp
qed

definition eth_header_ok :: "EthernetHeader \<Rightarrow> bool" where
  "eth_header_ok h \<longleftrightarrow> address_ok (eh_dst h) \<and> address_ok (eh_src h)"

lemma EthernetHeader_serialize_eq:
  "EthernetHeader_serialize h = eh_dst h @ eh_src h @ u16_bytes (eh_type h)"
  by (simp add: EthernetHeader_serialize_def)

lemma size_short:
  "np_at p s \<Longrightarrow> unat n \<le> length s \<Longrightarrow> \<not> Buffer_size (np_buffer p) < n"
  using check_size_short [of p n] by (auto simp: np_at_def)

lemma EthernetHeader_parse_ok:
  assumes "eth_header_ok h" and "np_at p (EthernetHeader_serialize h @ r)"
  shows "\<exists>p'. EthernetHeader_parse this p = (NoError, h, p') \<and> np_at p' r"
proof -
  have ok: "address_ok (eh_dst h)" "address_ok (eh_src h)" using assms(1) by (simp_all add: eth_header_ok_def)
  have "\<not> Buffer_size (np_buffer p) < EthernetHeader_LENGTH"
    using ok by (intro size_short [OF assms(2)]) (simp add: EthernetHeader_serialize_eq EthernetHeader_LENGTH_def)
  moreover have "np_at p (eh_dst h @ eh_src h @ u16_bytes (eh_type h) @ r)"
    using assms(2) by (simp add: EthernetHeader_serialize_eq)
  from wire_address.parse_print [OF ok(1) this] obtain p1 where
    p1: "read_bytes 6 p = (eh_dst h, p1)" "np_at p1 (eh_src h @ u16_bytes (eh_type h) @ r)" by blast
  from wire_address.parse_print [OF ok(2) p1(2)] obtain p2 where
    p2: "read_bytes 6 p1 = (eh_src h, p2)" "np_at p2 (u16_bytes (eh_type h) @ r)" by blast
  from wire_u16.parse_print [OF TrueI p2(2)] obtain p3 where
    p3: "NetParser_u16 p2 = (eh_type h, p3)" "np_at p3 r" by blast
  ultimately show ?thesis by (simp add: EthernetHeader_parse_def np_at_def p1 p2)
qed

interpretation wire_ethernet: wire_codec eth_header_ok EthernetHeader_serialize
  "\<lambda>p. snd (EthernetHeader_parse this p)" for this
proof
  fix h p r
  assume "eth_header_ok h" and "np_at p (EthernetHeader_serialize h @ r)"
  from EthernetHeader_parse_ok [OF this, of this]
  show "\<exists>p'. snd (EthernetHeader_parse this p) = (h, p') \<and> np_at p' r" by auto
qed

section \<open>ARP messages on the wire\<close>

lemma zero_address: "replicate 6 (0 :: u8) = [0, 0, 0, 0, 0, 0]"
  by (simp add: eval_nat_numeral)

definition arp_ok :: "ARPMessage \<Rightarrow> bool" where
  "arp_ok m \<longleftrightarrow> ARPMessage_supported m \<and> address_ok (arp_sender_ethernet_address m) \<and>
     address_ok (arp_target_ethernet_address m)"

text \<open>The five fields that say what kind of message it is, and the addresses.\<close>

definition arp_kind_bytes :: "ARPMessage \<Rightarrow> bytes" where
  "arp_kind_bytes m = u16_bytes (arp_hardware_type m) @ u16_bytes (arp_protocol_type m) @
     u8_bytes (arp_hardware_address_size m) @ u8_bytes (arp_protocol_address_size m) @
     u16_bytes (arp_opcode m)"

definition arp_address_bytes :: "ARPMessage \<Rightarrow> bytes" where
  "arp_address_bytes m = arp_sender_ethernet_address m @ u32_bytes (arp_sender_ip_address m) @
     arp_target_ethernet_address m @ u32_bytes (arp_target_ip_address m)"

lemma length_arp_kind [simp]: "length (arp_kind_bytes m) = 8"
  by (simp add: arp_kind_bytes_def)

lemma ARPMessage_serialize_eq:
  "ARPMessage_supported m \<Longrightarrow> ARPMessage_serialize m = Inr (arp_kind_bytes m @ arp_address_bytes m)"
  by (simp add: ARPMessage_serialize_def Let_def arp_kind_bytes_def arp_address_bytes_def)

definition arp_parse_addresses :: "ARPMessage \<Rightarrow> NetParser \<Rightarrow> ParseResult \<times> ARPMessage" where
  "arp_parse_addresses this p =
     (let (sender_ethernet_address, p) = read_bytes 6 p;
          (sender_ip_address, p) = NetParser_u32 p;
          (target_ethernet_address, p) = read_bytes 6 p;
          (target_ip_address, p) = NetParser_u32 p
      in (np_error p,
          this\<lparr>arp_sender_ethernet_address := sender_ethernet_address,
               arp_sender_ip_address := sender_ip_address,
               arp_target_ethernet_address := target_ethernet_address,
               arp_target_ip_address := target_ip_address\<rparr>))"

definition arp_set_kind :: "ARPMessage \<Rightarrow> ARPMessage \<Rightarrow> ARPMessage" where
  "arp_set_kind this m = this\<lparr>arp_hardware_type := arp_hardware_type m,
     arp_protocol_type := arp_protocol_type m,
     arp_hardware_address_size := arp_hardware_address_size m,
     arp_protocol_address_size := arp_protocol_address_size m, arp_opcode := arp_opcode m\<rparr>"

text \<open>The kind fields of any message are read back; only supported kinds go on.\<close>

lemma ARPMessage_parse_kind:
  assumes "buffer_inv b" and "Buffer_str b = arp_kind_bytes m @ r" and "20 \<le> length r"
  shows "\<exists>p'. np_at p' r \<and> ARPMessage_parse this b =
           (if ARPMessage_supported m then arp_parse_addresses (arp_set_kind this m) p'
            else (Unsupported, arp_set_kind this m))"
proof -
  note u16 = wire_u16.parse_print [OF TrueI] and u8 = wire_u8.parse_print [OF TrueI]
  let ?p = "NetParser_new b"
  have at: "np_at ?p (arp_kind_bytes m @ r)" using np_at_buffer [OF assms(1)] assms(2) by simp
  have big: "\<not> Buffer_size (np_buffer ?p) < ARPMessage_LENGTH"
    using assms(3) by (intro size_short [OF at]) (simp add: ARPMessage_LENGTH_def)
  from at have "np_at ?p (u16_bytes (arp_hardware_type m) @ u16_bytes (arp_protocol_type m) @
      u8_bytes (arp_hardware_address_size m) @ u8_bytes (arp_protocol_address_size m) @
      u16_bytes (arp_opcode m) @ r)" by (simp add: arp_kind_bytes_def)
  from u16 [OF this] obtain p1 where p1: "NetParser_u16 ?p = (arp_hardware_type m, p1)"
    "np_at p1 (u16_bytes (arp_protocol_type m) @ u8_bytes (arp_hardware_address_size m) @
      u8_bytes (arp_protocol_address_size m) @ u16_bytes (arp_opcode m) @ r)" by blast
  from u16 [OF p1(2)] obtain p2 where p2: "NetParser_u16 p1 = (arp_protocol_type m, p2)"
    "np_at p2 (u8_bytes (arp_hardware_address_size m) @ u8_bytes (arp_protocol_address_size m) @
      u16_bytes (arp_opcode m) @ r)" by blast
  from u8 [OF p2(2)] obtain p3 where p3: "NetParser_u8 p2 = (arp_hardware_address_size m, p3)"
    "np_at p3 (u8_bytes (arp_protocol_address_size m) @ u16_bytes (arp_opcode m) @ r)" by blast
  from u8 [OF p3(2)] obtain p4 where p4: "NetParser_u8 p3 = (arp_protocol_address_size m, p4)"
    "np_at p4 (u16_bytes (arp_opcode m) @ r)" by blast
  from u16 [OF p4(2)] obtain p5 where p5: "NetParser_u16 p4 = (arp_opcode m, p5)" "np_at p5 r" by blast
  have "ARPMessage_supported (arp_set_kind this m) = ARPMessage_supported m"
    by (simp add: arp_set_kind_def ARPMessage_supported_def)
  then show ?thesis using big p5(2)
    by (intro exI [of _ p5])
      (simp add: ARPMessage_parse_def Let_def p1 p2 p3 p4 p5 arp_parse_addresses_def
        arp_set_kind_def)
qed

lemma arp_parse_addresses_ok:
  assumes "arp_ok m" and "np_at p (arp_address_bytes m @ r)"
  shows "arp_parse_addresses this p = (NoError,
    this\<lparr>arp_sender_ethernet_address := arp_sender_ethernet_address m,
         arp_sender_ip_address := arp_sender_ip_address m,
         arp_target_ethernet_address := arp_target_ethernet_address m,
         arp_target_ip_address := arp_target_ip_address m\<rparr>)"
proof -
  have ok: "address_ok (arp_sender_ethernet_address m)" "address_ok (arp_target_ethernet_address m)"
    using assms(1) by (simp_all add: arp_ok_def)
  have "np_at p (arp_sender_ethernet_address m @ u32_bytes (arp_sender_ip_address m) @
     arp_target_ethernet_address m @ u32_bytes (arp_target_ip_address m) @ r)"
    using assms(2) by (simp add: arp_address_bytes_def)
  from wire_address.parse_print [OF ok(1) this] obtain p1 where
    p1: "read_bytes 6 p = (arp_sender_ethernet_address m, p1)"
    "np_at p1 (u32_bytes (arp_sender_ip_address m) @ arp_target_ethernet_address m @
      u32_bytes (arp_target_ip_address m) @ r)" by blast
  from wire_u32.parse_print [OF TrueI p1(2)] obtain p2 where
    p2: "NetParser_u32 p1 = (arp_sender_ip_address m, p2)"
    "np_at p2 (arp_target_ethernet_address m @ u32_bytes (arp_target_ip_address m) @ r)" by blast
  from wire_address.parse_print [OF ok(2) p2(2)] obtain p3 where
    p3: "read_bytes 6 p2 = (arp_target_ethernet_address m, p3)"
    "np_at p3 (u32_bytes (arp_target_ip_address m) @ r)" by blast
  from wire_u32.parse_print [OF TrueI p3(2)] obtain p4 where
    p4: "NetParser_u32 p3 = (arp_target_ip_address m, p4)" "np_at p4 r" by blast
  show ?thesis using p4(2) by (simp add: arp_parse_addresses_def p1 p2 p3 p4 np_at_def)
qed

section \<open>Properties\<close>

lemma EthernetFrame_parse_wire:
  assumes h: "eth_header_ok (ef_header f)" and b: "buffer_inv b"
    and s: "Buffer_str b = BufferList_concatenate (EthernetFrame_serialize f)"
  shows "\<exists>b'. EthernetFrame_parse this b = (NoError, this\<lparr>ef_header := ef_header f, ef_payload := [b']\<rparr>) \<and>
    buffer_inv b' \<and> Buffer_str b' = BufferList_concatenate (ef_payload f)"
proof -
  let ?pay = "BufferList_concatenate (ef_payload f)"
  have "Buffer_str b = EthernetHeader_serialize (ef_header f) @ ?pay"
    using s by (simp add: EthernetFrame_serialize_def BufferList_of_string_def)
  with np_at_buffer [OF b] have at: "np_at (NetParser_new b) (EthernetHeader_serialize (ef_header f) @ ?pay)" by simp
  from EthernetHeader_parse_ok [OF h at] obtain p' where
    "EthernetHeader_parse (ef_header this) (NetParser_new b) = (NoError, ef_header f, p')" "np_at p' ?pay" by blast
  then show ?thesis
    by (intro exI [of _ "np_buffer p'"]) (simp add: EthernetFrame_parse_def np_at_def np_inv_def)
qed

text \<open>A frame survives the wire: parsing the bytes of a serialized frame reports no error and
  yields the same addresses, type and payload.\<close>

lemma ethernet_frame_roundtrip:
  assumes "eth_header_ok (ef_header f)" and "length (BufferList_concatenate (ef_payload f)) < 2 ^ 63"
  shows "\<exists>f'. EthernetFrame_parse this
             (Buffer_new (BufferList_concatenate (EthernetFrame_serialize f))) = (NoError, f') \<and>
           ef_header f' = ef_header f \<and>
           BufferList_concatenate (ef_payload f') = BufferList_concatenate (ef_payload f)"
proof -
  have "length (BufferList_concatenate (EthernetFrame_serialize f)) < 2 ^ 64"
    using assms by (simp add: EthernetFrame_serialize_def BufferList_of_string_def EthernetHeader_serialize_eq eth_header_ok_def)
  from EthernetFrame_parse_wire [OF assms(1) buffer_inv_new [OF this], of this] show ?thesis by auto
qed

text \<open>\<open>EthernetFrame::parse\<close> drops the verdict of \<open>EthernetHeader::parse\<close>: a frame shorter than
  the fourteen bytes of the header, for which the header parser answers \<open>PacketTooShort\<close>, is
  accepted with \<open>NoError\<close>; it keeps the old header and has the whole input as payload.\<close>

lemma ethernet_frame_accepts_short:
  assumes "buffer_inv b" and "length (Buffer_str b) < 14"
  shows "fst (EthernetHeader_parse (ef_header this) (NetParser_new b)) = PacketTooShort \<and>
         EthernetFrame_parse this b = (NoError, this\<lparr>ef_payload := [b]\<rparr>)"
proof -
  have "np_inv (NetParser_new b)" using assms(1) by (simp add: np_inv_def NetParser_new_def)
  from check_size_short [OF this, of EthernetHeader_LENGTH]
  have "Buffer_size b < EthernetHeader_LENGTH"
    using assms(2) by (simp add: NetParser_new_def EthernetHeader_LENGTH_def)
  then show ?thesis by (simp add: EthernetFrame_parse_def EthernetHeader_parse_def NetParser_new_def)
qed

text \<open>C36. ARP messages survive the wire, and only supported ones do: a request or reply for IPv4
  over Ethernet is serialized without an exception and parsed back to the same message,
  whatever bytes follow; a message of any other kind makes \<open>serialize\<close> throw and, arriving
  on the wire, makes \<open>parse\<close> answer \<open>Unsupported\<close>.\<close>

theorem arp_roundtrip:
  assumes "address_ok (arp_sender_ethernet_address m)" and "address_ok (arp_target_ethernet_address m)"
    and "buffer_inv b" and "Buffer_str b = arp_kind_bytes m @ arp_address_bytes m @ r"
  shows "if ARPMessage_supported m
         then ARPMessage_serialize m = Inr (arp_kind_bytes m @ arp_address_bytes m) \<and>
              ARPMessage_parse this b = (NoError, m)
         else (\<exists>w. ARPMessage_serialize m = Inl (RuntimeError w)) \<and>
              fst (ARPMessage_parse this b) = Unsupported"
proof -
  have "20 \<le> length (arp_address_bytes m @ r)" using assms(1,2) by (simp add: arp_address_bytes_def)
  from ARPMessage_parse_kind [OF assms(3,4) this, of this] obtain p' where
    p': "np_at p' (arp_address_bytes m @ r)" "ARPMessage_parse this b =
      (if ARPMessage_supported m then arp_parse_addresses (arp_set_kind this m) p'
       else (Unsupported, arp_set_kind this m))" by blast
  show ?thesis
  proof (cases "ARPMessage_supported m")
    case True
    with assms(1,2) have "arp_ok m" by (simp add: arp_ok_def)
    from arp_parse_addresses_ok [OF this p'(1)] True p'(2) show ?thesis
      by (simp add: ARPMessage_serialize_eq arp_set_kind_def)
  next
    case False
    with p'(2) show ?thesis by (simp add: ARPMessage_serialize_def)
  qed
qed

theorem arp_roundtrip_witness:
  "ARPMessage_parse ARPMessage_default
     (Buffer_new [0, 1, 8, 0, 6, 4, 0, 1, 1, 2, 3, 4, 5, 6, 10, 0, 0, 1, 0, 0, 0, 0, 0, 0, 10, 0, 0, 2, 99]) =
   (NoError, ARPMessage_default\<lparr>arp_opcode := 1, arp_sender_ethernet_address := [1, 2, 3, 4, 5, 6],
      arp_sender_ip_address := 0x0a000001, arp_target_ip_address := 0x0a000002\<rparr>)"
proof -
  let ?m = "ARPMessage_default\<lparr>arp_opcode := 1, arp_sender_ethernet_address := [1, 2, 3, 4, 5, 6],
      arp_sender_ip_address := 0x0a000001, arp_target_ip_address := 0x0a000002\<rparr>"
  let ?s = "[0, 1, 8, 0, 6, 4, 0, 1, 1, 2, 3, 4, 5, 6, 10, 0, 0, 1, 0, 0, 0, 0, 0, 0, 10, 0, 0, 2, 99] :: bytes"
  have "?s = arp_kind_bytes ?m @ arp_address_bytes ?m @ [99]" "ARPMessage_supported ?m"
    "address_ok (arp_sender_ethernet_address ?m)" "address_ok (arp_target_ethernet_address ?m)"
    by (simp_all add: arp_kind_bytes_def arp_address_bytes_def ARPMessage_default_def
        ARPMessage_supported_def ARPMessage_TYPE_ETHERNET_def EthernetHeader_TYPE_IPv4_def
        ARPMessage_OPCODE_REQUEST_def u8_bytes_def u16_bytes_def u32_bytes_def zero_address)
  moreover have "buffer_inv (Buffer_new ?s)" by (rule buffer_inv_new) simp
  ultimately show ?thesis
    using arp_roundtrip [of ?m "Buffer_new ?s" "[99]" ARPMessage_default]
    by (simp only: Buffer_str_simps if_True simp_thms)
qed

end
