(* ===== verification/Byte_Stream.thy ===== *)
theory Byte_Stream
  imports Sponge_Prelude
begin

text \<open>
  The flow-controlled byte stream of \<open>libsponge/byte_stream.hh\<close> and
  \<open>libsponge/byte_stream.cc\<close>: the state of the class \<open>ByteStream\<close>, one definition per
  method, the class invariant, the abstract bounded queue it implements, and the
  first-in-first-out property of arbitrary sequences of calls.
\<close>

section \<open>The class\<close>

record ByteStream =
  bs_str :: bytes
  bs_capacity :: u64
  bs_cur_cap :: u64
  bs_bytes_read :: u64
  bs_bytes_written :: u64
  bs_input_is_end :: bool
  bs_error :: bool

definition ByteStream_new :: "u64 \<Rightarrow> ByteStream" where
  "ByteStream_new capacity =
     \<lparr>bs_str = [], bs_capacity = capacity, bs_cur_cap = 0, bs_bytes_read = 0,
      bs_bytes_written = 0, bs_input_is_end = False, bs_error = False\<rparr>"

definition ByteStream_remaining_capacity :: "ByteStream \<Rightarrow> u64" where
  "ByteStream_remaining_capacity s = bs_capacity s - bs_cur_cap s"

definition ByteStream_write :: "ByteStream \<Rightarrow> bytes \<Rightarrow> ByteStream \<times> u64" where
  "ByteStream_write s data =
     (let real_len = min (length data) (unat (ByteStream_remaining_capacity s))
      in (s\<lparr>bs_str := bs_str s @ take real_len data,
            bs_bytes_written := bs_bytes_written s + of_nat real_len,
            bs_cur_cap := bs_cur_cap s + of_nat real_len\<rparr>,
          of_nat real_len))"

definition ByteStream_buffer_size :: "ByteStream \<Rightarrow> u64" where
  "ByteStream_buffer_size s = bs_cur_cap s"

definition ByteStream_peek_output :: "ByteStream \<Rightarrow> u64 \<Rightarrow> bytes" where
  "ByteStream_peek_output s len =
     (let real_len = min len (ByteStream_buffer_size s)
      in take (unat real_len) (bs_str s))"

text \<open>
  \<open>substr\<close> throws when its position lies past the end of the string; the class invariant
  \<open>bs_inv\<close> below keeps \<open>real_len\<close> within the string (\<open>pop_output_in_range\<close>).
\<close>

definition ByteStream_pop_output :: "ByteStream \<Rightarrow> u64 \<Rightarrow> ByteStream" where
  "ByteStream_pop_output s len =
     (let real_len = min len (ByteStream_buffer_size s);
          str = (if real_len = ByteStream_buffer_size s then []
                 else take (unat (ByteStream_buffer_size s - real_len))
                        (drop (unat real_len) (bs_str s)))
      in s\<lparr>bs_str := str,
           bs_cur_cap := bs_cur_cap s - real_len,
           bs_bytes_read := bs_bytes_read s + real_len\<rparr>)"

definition ByteStream_read :: "ByteStream \<Rightarrow> u64 \<Rightarrow> ByteStream \<times> bytes" where
  "ByteStream_read s len =
     (let real_len = min len (ByteStream_buffer_size s);
          ret = ByteStream_peek_output s real_len
      in (ByteStream_pop_output s real_len, ret))"

definition ByteStream_end_input :: "ByteStream \<Rightarrow> ByteStream" where
  "ByteStream_end_input s = s\<lparr>bs_input_is_end := True\<rparr>"

definition ByteStream_set_error :: "ByteStream \<Rightarrow> ByteStream" where
  "ByteStream_set_error s = s\<lparr>bs_error := True\<rparr>"

definition ByteStream_input_ended :: "ByteStream \<Rightarrow> bool" where
  "ByteStream_input_ended s = bs_input_is_end s"

definition ByteStream_error :: "ByteStream \<Rightarrow> bool" where
  "ByteStream_error s = bs_error s"

definition ByteStream_buffer_empty :: "ByteStream \<Rightarrow> bool" where
  "ByteStream_buffer_empty s = (ByteStream_buffer_size s = 0)"

definition ByteStream_eof :: "ByteStream \<Rightarrow> bool" where
  "ByteStream_eof s = (ByteStream_input_ended s \<and> ByteStream_buffer_empty s)"

definition ByteStream_bytes_written :: "ByteStream \<Rightarrow> u64" where
  "ByteStream_bytes_written s = bs_bytes_written s"

definition ByteStream_bytes_read :: "ByteStream \<Rightarrow> u64" where
  "ByteStream_bytes_read s = bs_bytes_read s"

lemmas ByteStream_accessors [sponge_defs] =
  ByteStream_remaining_capacity_def ByteStream_buffer_size_def ByteStream_input_ended_def
  ByteStream_error_def ByteStream_buffer_empty_def ByteStream_eof_def
  ByteStream_bytes_written_def ByteStream_bytes_read_def

section \<open>The class invariant\<close>

text \<open>
  The counter \<open>_cur_cap\<close> is the length of the buffered string, it never passes the
  capacity, and the two totals differ by what is buffered (modulo the width of the
  counters).
\<close>

definition bs_inv :: "ByteStream \<Rightarrow> bool" where
  "bs_inv s \<longleftrightarrow> length (bs_str s) = unat (bs_cur_cap s) \<and> bs_cur_cap s \<le> bs_capacity s \<and>
     bs_bytes_written s = bs_bytes_read s + bs_cur_cap s"

lemma bs_inv_length: "bs_inv s \<Longrightarrow> length (bs_str s) \<le> unat (bs_capacity s)"
  by (simp add: bs_inv_def word_le_nat_alt)

lemma remaining_capacity_unat:
  "bs_inv s \<Longrightarrow>
     unat (ByteStream_remaining_capacity s) = unat (bs_capacity s) - length (bs_str s)"
  by (simp add: bs_inv_def sponge_defs unat_sub64)

lemma write_len_unat:
  "unat (of_nat (min (length data) (unat (w :: u64))) :: u64) = min (length data) (unat w)"
  by (rule of_nat_le_word [of _ w]) simp

lemma bs_inv_new [inv_intros]: "bs_inv (ByteStream_new c)"
  by (simp add: bs_inv_def ByteStream_new_def)

lemma bs_inv_write [inv_intros]:
  assumes "bs_inv s"
  shows "bs_inv (fst (ByteStream_write s data))"
proof -
  let ?r = "ByteStream_remaining_capacity s"
  let ?n = "min (length data) (unat ?r)"
  have room: "unat (bs_cur_cap s) + unat ?r = unat (bs_capacity s)"
    using assms by (simp add: remaining_capacity_unat) (simp add: bs_inv_def word_le_nat_alt)
  then have "unat (bs_cur_cap s) + ?n \<le> unat (bs_capacity s)" by simp
  then have "unat (bs_cur_cap s + of_nat ?n) = unat (bs_cur_cap s) + ?n"
    by (subst unat_add64) (auto simp: write_len_unat intro: le_less_trans [OF _ unat_lt64])
  with assms room show ?thesis
    by (simp add: bs_inv_def ByteStream_write_def Let_def word_le_nat_alt)
qed

lemma bs_inv_pop [inv_intros]:
  assumes "bs_inv s"
  shows "bs_inv (ByteStream_pop_output s len)"
proof -
  have "min len (bs_cur_cap s) \<le> bs_cur_cap s" by simp
  then have sub: "unat (bs_cur_cap s - min len (bs_cur_cap s)) =
      unat (bs_cur_cap s) - unat (min len (bs_cur_cap s))"
    by (rule unat_sub64)
  moreover from this assms have "bs_cur_cap s - min len (bs_cur_cap s) \<le> bs_capacity s"
    by (auto simp: bs_inv_def word_le_nat_alt intro: order_trans [OF diff_le_self])
  ultimately show ?thesis using assms
    by (auto simp: bs_inv_def ByteStream_pop_output_def Let_def sponge_defs)
qed

lemma bs_inv_read [inv_intros]: "bs_inv s \<Longrightarrow> bs_inv (fst (ByteStream_read s len))"
  by (simp add: ByteStream_read_def Let_def bs_inv_pop)

lemma bs_inv_end_input [inv_intros]: "bs_inv s \<Longrightarrow> bs_inv (ByteStream_end_input s)"
  by (simp add: ByteStream_end_input_def bs_inv_def)

lemma bs_inv_set_error [inv_intros]: "bs_inv s \<Longrightarrow> bs_inv (ByteStream_set_error s)"
  by (simp add: ByteStream_set_error_def bs_inv_def)

text \<open>The position handed to \<open>substr\<close> in \<open>pop_output\<close> is inside the string.\<close>

lemma pop_output_in_range:
  "bs_inv s \<Longrightarrow> unat (min len (ByteStream_buffer_size s)) \<le> length (bs_str s)"
  by (simp add: bs_inv_def sponge_defs min_def word_le_nat_alt)

section \<open>What each operation does to the buffered bytes\<close>

lemma bs_buffer_empty_iff: "bs_inv s \<Longrightarrow> ByteStream_buffer_empty s \<longleftrightarrow> bs_str s = []"
  by (auto simp: bs_inv_def sponge_defs unat_eq_0)

lemma bs_eof_iff: "bs_inv s \<Longrightarrow> ByteStream_eof s \<longleftrightarrow> bs_input_is_end s \<and> bs_str s = []"
  by (simp add: ByteStream_eof_def bs_buffer_empty_iff ByteStream_input_ended_def)

lemma write_str:
  "bs_inv s \<Longrightarrow> bs_str (fst (ByteStream_write s data)) =
     bs_str s @ take (unat (bs_capacity s) - length (bs_str s)) data"
  by (simp add: ByteStream_write_def Let_def remaining_capacity_unat min_def)

lemma write_count:
  "bs_inv s \<Longrightarrow> unat (snd (ByteStream_write s data)) =
     min (length data) (unat (bs_capacity s) - length (bs_str s))"
  using write_len_unat [of data "ByteStream_remaining_capacity s"]
  by (simp add: ByteStream_write_def Let_def remaining_capacity_unat)

lemma pop_str:
  assumes "bs_inv s"
  shows "bs_str (ByteStream_pop_output s len) = drop (unat len) (bs_str s)"
proof (cases "len < bs_cur_cap s")
  case True
  with assms have "min len (bs_cur_cap s) = len" "len \<noteq> bs_cur_cap s"
    "unat (bs_cur_cap s - len) = length (bs_str s) - unat len"
    by (auto simp: bs_inv_def unat_sub64)
  then show ?thesis by (simp add: ByteStream_pop_output_def Let_def sponge_defs)
next
  case False
  with assms have "min len (bs_cur_cap s) = bs_cur_cap s" "length (bs_str s) \<le> unat len"
    by (auto simp: bs_inv_def word_le_nat_alt not_less)
  then show ?thesis by (simp add: ByteStream_pop_output_def Let_def sponge_defs)
qed

lemma peek_str:
  "bs_inv s \<Longrightarrow> ByteStream_peek_output s len = take (unat len) (bs_str s)"
  by (auto simp: ByteStream_peek_output_def Let_def sponge_defs bs_inv_def min_def word_le_nat_alt)

lemma read_str:
  assumes "bs_inv s"
  shows "bs_str (fst (ByteStream_read s len)) = drop (unat len) (bs_str s)"
    and "snd (ByteStream_read s len) = take (unat len) (bs_str s)"
proof -
  from assms have "unat (min len (bs_cur_cap s)) = min (unat len) (length (bs_str s))"
    by (auto simp: bs_inv_def min_def word_le_nat_alt)
  with assms show "bs_str (fst (ByteStream_read s len)) = drop (unat len) (bs_str s)"
    and "snd (ByteStream_read s len) = take (unat len) (bs_str s)"
    by (auto simp: ByteStream_read_def Let_def pop_str peek_str sponge_defs min_def)
qed

lemma write_fields [simp]:
  "bs_bytes_read (fst (ByteStream_write s d)) = bs_bytes_read s"
  "bs_input_is_end (fst (ByteStream_write s d)) = bs_input_is_end s"
  "bs_error (fst (ByteStream_write s d)) = bs_error s"
  by (simp_all add: ByteStream_write_def Let_def)

lemma read_cur_cap:
  "bs_cur_cap (fst (ByteStream_read s n)) = bs_cur_cap s - min n (bs_cur_cap s)"
  by (simp add: ByteStream_read_def ByteStream_pop_output_def Let_def sponge_defs)

lemma read_fields [simp]:
  "bs_input_is_end (fst (ByteStream_read s n)) = bs_input_is_end s"
  "bs_bytes_written (fst (ByteStream_read s n)) = bs_bytes_written s"
  "bs_error (fst (ByteStream_read s n)) = bs_error s"
  by (simp_all add: ByteStream_read_def ByteStream_pop_output_def Let_def)

lemma read_zero: "snd (ByteStream_read s 0) = []"
  by (simp add: ByteStream_read_def ByteStream_peek_output_def Let_def)

lemma read_bytes_read:
  assumes "bs_inv s" and "unat (bs_bytes_read s) + length (bs_str s) < 2 ^ 64"
  shows "unat (bs_bytes_read (fst (ByteStream_read s n))) =
     unat (bs_bytes_read s) + min (unat n) (length (bs_str s))"
proof -
  have m: "unat (min n (bs_cur_cap s)) = min (unat n) (length (bs_str s))"
    using assms(1) by (auto simp: bs_inv_def min_def word_le_nat_alt)
  have "bs_bytes_read (fst (ByteStream_read s n)) = bs_bytes_read s + min n (bs_cur_cap s)"
    by (simp add: ByteStream_read_def ByteStream_pop_output_def Let_def sponge_defs)
  then show ?thesis using assms(2) by (simp add: unat_add64 m)
qed

section \<open>The contract its clients rely on\<close>

text \<open>
  The reassembler and the TCP sender use a byte stream as a bounded first-in-first-out
  buffer: \<open>put\<close> appends as much as there is room for and reports how much that was,
  \<open>get\<close> takes bytes from the front.
\<close>

locale fifo_stream =
  fixes inv :: "'s \<Rightarrow> bool"
    and buf :: "'s \<Rightarrow> bytes"
    and cap :: "'s \<Rightarrow> nat"
    and put :: "'s \<Rightarrow> bytes \<Rightarrow> 's \<times> u64"
    and get :: "'s \<Rightarrow> u64 \<Rightarrow> 's \<times> bytes"
  assumes bounded: "inv s \<Longrightarrow> length (buf s) \<le> cap s"
    and put_inv: "inv s \<Longrightarrow> inv (fst (put s d))"
    and put_cap: "inv s \<Longrightarrow> cap (fst (put s d)) = cap s"
    and put_buf: "inv s \<Longrightarrow> buf (fst (put s d)) = buf s @ take (cap s - length (buf s)) d"
    and put_count: "inv s \<Longrightarrow> unat (snd (put s d)) = min (length d) (cap s - length (buf s))"
    and get_inv: "inv s \<Longrightarrow> inv (fst (get s n))"
    and get_cap: "inv s \<Longrightarrow> cap (fst (get s n)) = cap s"
    and get_buf: "inv s \<Longrightarrow> buf (fst (get s n)) = drop (unat n) (buf s)"
    and get_out: "inv s \<Longrightarrow> snd (get s n) = take (unat n) (buf s)"
begin

lemma put_all:
  assumes "inv s" and "length d + length (buf s) \<le> cap s"
  shows "buf (fst (put s d)) = buf s @ d" and "unat (snd (put s d)) = length d"
  using assms by (auto simp: put_buf put_count)

lemma get_conserves: "inv s \<Longrightarrow> snd (get s n) @ buf (fst (get s n)) = buf s"
  by (simp add: get_out get_buf)

lemma get_get:
  "inv s \<Longrightarrow> snd (get s n) @ snd (get (fst (get s n)) m) = take (unat n + unat m) (buf s)"
  by (simp add: get_out get_buf get_inv take_add)

lemma put_get_roundtrip:
  assumes "inv s" and "buf s = []" and "length d \<le> cap s" and "length d \<le> unat n"
  shows "snd (get (fst (put s d)) n) = d"
  using assms by (simp add: get_out put_inv put_buf)

lemma put_conserves:
  "inv s \<Longrightarrow> buf (fst (put s d)) = buf s @ take (unat (snd (put s d))) d"
  by (simp add: put_buf put_count min_def)

end

lemma write_capacity [simp]: "bs_capacity (fst (ByteStream_write s d)) = bs_capacity s"
  by (simp add: ByteStream_write_def Let_def)

lemma pop_capacity [simp]: "bs_capacity (ByteStream_pop_output s n) = bs_capacity s"
  by (simp add: ByteStream_pop_output_def Let_def)

lemma read_capacity [simp]: "bs_capacity (fst (ByteStream_read s n)) = bs_capacity s"
  by (simp add: ByteStream_read_def Let_def)

interpretation bsf: fifo_stream bs_inv bs_str "\<lambda>s. unat (bs_capacity s)"
  ByteStream_write ByteStream_read
  by unfold_locales (auto simp: bs_inv_length write_str write_count read_str intro: inv_intros)

section \<open>Runs\<close>

datatype bs_op = Write bytes | Pop u64 | Read u64 | End_input | Set_error

fun bs_step :: "ByteStream \<Rightarrow> bs_op \<Rightarrow> ByteStream" where
  "bs_step s (Write d) = fst (ByteStream_write s d)"
| "bs_step s (Pop n) = ByteStream_pop_output s n"
| "bs_step s (Read n) = fst (ByteStream_read s n)"
| "bs_step s End_input = ByteStream_end_input s"
| "bs_step s Set_error = ByteStream_set_error s"

text \<open>
  The bytes a call accepts from the writer (the prefix whose length \<open>write\<close> returns) and
  the bytes it takes off the output side.
\<close>

fun bs_accepted :: "ByteStream \<Rightarrow> bs_op \<Rightarrow> bytes" where
  "bs_accepted s (Write d) = take (unat (snd (ByteStream_write s d))) d"
| "bs_accepted s _ = []"

fun bs_emitted :: "ByteStream \<Rightarrow> bs_op \<Rightarrow> bytes" where
  "bs_emitted s (Read n) = snd (ByteStream_read s n)"
| "bs_emitted s (Pop n) = ByteStream_peek_output s n"
| "bs_emitted s _ = []"

fun bs_run_in :: "ByteStream \<Rightarrow> bs_op list \<Rightarrow> bytes" where
  "bs_run_in s [] = []"
| "bs_run_in s (a # ops) = bs_accepted s a @ bs_run_in (bs_step s a) ops"

fun bs_run_out :: "ByteStream \<Rightarrow> bs_op list \<Rightarrow> bytes" where
  "bs_run_out s [] = []"
| "bs_run_out s (a # ops) = bs_emitted s a @ bs_run_out (bs_step s a) ops"

lemma bs_step_inv: "bs_inv s \<Longrightarrow> bs_inv (bs_step s a)"
  by (cases a) (auto intro: inv_intros)

interpretation bsr: step_invariant bs_step bs_inv
  by unfold_locales (rule bs_step_inv)

lemma end_input_fields [simp]:
  "bs_str (ByteStream_end_input s) = bs_str s"
  "bs_capacity (ByteStream_end_input s) = bs_capacity s"
  "bs_cur_cap (ByteStream_end_input s) = bs_cur_cap s"
  "bs_bytes_read (ByteStream_end_input s) = bs_bytes_read s"
  "bs_bytes_written (ByteStream_end_input s) = bs_bytes_written s"
  "bs_error (ByteStream_end_input s) = bs_error s"
  "bs_input_is_end (ByteStream_end_input s)"
  by (simp_all add: ByteStream_end_input_def)

lemma set_error_fields [simp]:
  "bs_str (ByteStream_set_error s) = bs_str s"
  "bs_capacity (ByteStream_set_error s) = bs_capacity s"
  "bs_cur_cap (ByteStream_set_error s) = bs_cur_cap s"
  "bs_bytes_read (ByteStream_set_error s) = bs_bytes_read s"
  "bs_bytes_written (ByteStream_set_error s) = bs_bytes_written s"
  "bs_input_is_end (ByteStream_set_error s) = bs_input_is_end s"
  "bs_error (ByteStream_set_error s)"
  by (simp_all add: ByteStream_set_error_def)

lemma bs_step_capacity: "bs_capacity (bs_step s a) = bs_capacity s"
  by (cases a) auto

lemma bs_step_conserves:
  assumes "bs_inv s"
  shows "bs_emitted s a @ bs_str (bs_step s a) = bs_str s @ bs_accepted s a"
  using assms bsf.put_conserves [OF assms] bsf.get_conserves [OF assms]
  by (cases a) (auto simp: peek_str pop_str)

lemma bs_run_conserves:
  "bs_inv s \<Longrightarrow> bs_run_out s ops @ bs_str (foldl bs_step s ops) = bs_str s @ bs_run_in s ops"
proof (induction ops arbitrary: s)
  case Nil
  then show ?case by simp
next
  case (Cons a ops)
  from Cons.IH [OF bs_step_inv [OF Cons.prems]] bs_step_conserves [OF Cons.prems]
  show ?case by simp
qed

lemma bs_step_written:
  "bs_bytes_written (bs_step s a) = bs_bytes_written s + of_nat (length (bs_accepted s a))"
  by (cases a) (auto simp: ByteStream_write_def ByteStream_pop_output_def ByteStream_read_def
      Let_def write_len_unat)

lemma bs_run_written:
  "bs_bytes_written (foldl bs_step s ops) = bs_bytes_written s + of_nat (length (bs_run_in s ops))"
  by (induction ops arbitrary: s) (simp_all add: bs_step_written)

text \<open>
  C31. A byte stream is first-in-first-out and lossless over every sequence of calls: the
  bytes taken off the output side, followed by the bytes still buffered, are exactly the
  bytes the writer was told had been accepted, in order; the buffer never holds more than
  the capacity; and \<open>bytes_written\<close> is the number of accepted bytes (modulo \<open>2 ^ 64\<close>).
\<close>

theorem bs_run_fifo:
  "let s = foldl bs_step (ByteStream_new c) ops;
       accepted = bs_run_in (ByteStream_new c) ops;
       emitted = bs_run_out (ByteStream_new c) ops
   in emitted @ bs_str s = accepted \<and>
      length (bs_str s) \<le> unat c \<and>
      ByteStream_bytes_written s = of_nat (length accepted)"
proof -
  let ?s = "foldl bs_step (ByteStream_new c) ops"
  have inv: "bs_inv ?s" by (rule bsr.run_inv) (rule bs_inv_new)
  have "bs_run_out (ByteStream_new c) ops @ bs_str ?s = bs_run_in (ByteStream_new c) ops"
    using bs_run_conserves [OF bs_inv_new, of c ops] by (simp add: ByteStream_new_def)
  moreover have "bs_capacity ?s = bs_capacity (ByteStream_new c)"
    by (rule bsr.run_const) (auto simp: bs_step_capacity intro: bs_inv_new)
  with bs_inv_length [OF inv] have "length (bs_str ?s) \<le> unat c"
    by (simp add: ByteStream_new_def)
  moreover have "ByteStream_bytes_written ?s = of_nat (length (bs_run_in (ByteStream_new c) ops))"
    by (simp add: sponge_defs bs_run_written) (simp add: ByteStream_new_def)
  ultimately show ?thesis by (simp add: Let_def)
qed

section \<open>Refinement of an abstract bounded queue\<close>

text \<open>
  The abstract stream: its capacity, the queue of buffered bytes, and the two flags. The
  queue of the code, \<open>ss_step\<close>, takes bytes also after the input was ended, because
  \<open>ByteStream::write\<close> does not look at \<open>_input_is_end\<close>. The queue that \<open>byte_stream.hh\<close>
  describes, \<open>doc_step\<close>, takes none then. The two agree as long as the writer keeps its side
  of the contract and does not write after it has ended the input.
\<close>

record stream_spec =
  ss_cap :: nat
  ss_queue :: bytes
  ss_ended :: bool
  ss_failed :: bool

fun ss_step :: "stream_spec \<Rightarrow> bs_op \<Rightarrow> stream_spec" where
  "ss_step q (Write d) =
     q\<lparr>ss_queue := ss_queue q @ take (ss_cap q - length (ss_queue q)) d\<rparr>"
| "ss_step q (Pop n) = q\<lparr>ss_queue := drop (unat n) (ss_queue q)\<rparr>"
| "ss_step q (Read n) = q\<lparr>ss_queue := drop (unat n) (ss_queue q)\<rparr>"
| "ss_step q End_input = q\<lparr>ss_ended := True\<rparr>"
| "ss_step q Set_error = q\<lparr>ss_failed := True\<rparr>"

definition bs_abs :: "ByteStream \<Rightarrow> stream_spec" where
  "bs_abs s = \<lparr>ss_cap = unat (bs_capacity s), ss_queue = bs_str s,
     ss_ended = bs_input_is_end s, ss_failed = bs_error s\<rparr>"

lemma bs_flags [simp]:
  "bs_input_is_end (fst (ByteStream_write s d)) = bs_input_is_end s"
  "bs_error (fst (ByteStream_write s d)) = bs_error s"
  "bs_input_is_end (ByteStream_pop_output s n) = bs_input_is_end s"
  "bs_error (ByteStream_pop_output s n) = bs_error s"
  "bs_input_is_end (fst (ByteStream_read s n)) = bs_input_is_end s"
  "bs_error (fst (ByteStream_read s n)) = bs_error s"
  by (simp_all add: ByteStream_write_def ByteStream_pop_output_def ByteStream_read_def Let_def)

lemma bs_abs_step: "bs_inv s \<Longrightarrow> bs_abs (bs_step s a) = ss_step (bs_abs s) a"
  by (cases a) (auto simp: bs_abs_def write_str pop_str read_str)

definition doc_step :: "stream_spec \<Rightarrow> bs_op \<Rightarrow> stream_spec" where
  "doc_step q a = (case a of Write d \<Rightarrow> if ss_ended q then q else ss_step q a | _ \<Rightarrow> ss_step q a)"

fun no_late_write :: "bool \<Rightarrow> bs_op list \<Rightarrow> bool" where
  "no_late_write e [] = True"
| "no_late_write e (Write d # ops) = (\<not> e \<and> no_late_write e ops)"
| "no_late_write e (End_input # ops) = no_late_write True ops"
| "no_late_write e (a # ops) = no_late_write e ops"

lemma doc_step_agrees: "no_late_write (ss_ended q) ops \<Longrightarrow> foldl doc_step q ops = foldl ss_step q ops"
  by (induction "ss_ended q" ops arbitrary: q rule: no_late_write.induct) (auto simp: doc_step_def)

text \<open>
  C32. The class refines an abstract bounded queue: running any sequence of calls on a new
  stream and abstracting is running the same calls on the empty queue of that capacity, and
  the observers \<open>buffer_size\<close>, \<open>remaining_capacity\<close>, \<open>buffer_empty\<close> and \<open>eof\<close> read
  off the abstract state. This queue accepts bytes after the end of the input, as the code does. It is the queue
  that the class comment describes, which refuses them, for every sequence of calls that does not
  write after \<open>end_input\<close>; for the call after the end the comment is wrong about the code.
\<close>

theorem bs_refines_queue:
  "let q0 = \<lparr>ss_cap = unat c, ss_queue = [], ss_ended = False, ss_failed = False\<rparr>;
       s = foldl bs_step (ByteStream_new c) ops; q = foldl ss_step q0 ops
   in bs_abs s = q \<and>
      unat (ByteStream_buffer_size s) = length (ss_queue q) \<and>
      unat (ByteStream_remaining_capacity s) = ss_cap q - length (ss_queue q) \<and>
      (ByteStream_buffer_empty s \<longleftrightarrow> ss_queue q = []) \<and>
      (ByteStream_eof s \<longleftrightarrow> ss_ended q \<and> ss_queue q = []) \<and>
      (no_late_write False ops \<longrightarrow> bs_abs s = foldl doc_step q0 ops) \<and>
      bs_abs (bs_step s (Write d)) = q\<lparr>ss_queue := ss_queue q @ take (ss_cap q - length (ss_queue q)) d\<rparr>"
proof -
  let ?s = "foldl bs_step (ByteStream_new c) ops"
  let ?q0 = "\<lparr>ss_cap = unat c, ss_queue = [], ss_ended = False, ss_failed = False\<rparr>"
  have inv: "bs_inv ?s" by (rule bsr.run_inv) (rule bs_inv_new)
  have "bs_abs (foldl bs_step t ops) = foldl ss_step (bs_abs t) ops" if "bs_inv t" for t
    using that by (induction ops arbitrary: t) (simp_all add: bs_step_inv bs_abs_step)
  from this [OF bs_inv_new, of c] have abs: "foldl ss_step ?q0 ops = bs_abs ?s"
    by simp (simp add: bs_abs_def ByteStream_new_def)
  have "unat (ByteStream_buffer_size ?s) = length (bs_str ?s)"
    using inv by (simp add: bs_inv_def ByteStream_buffer_size_def)
  moreover have "no_late_write False ops \<longrightarrow> bs_abs ?s = foldl doc_step ?q0 ops"
    using doc_step_agrees [of ?q0 ops] by (simp add: abs)
  moreover have "bs_abs (bs_step ?s (Write d)) = ss_step (bs_abs ?s) (Write d)" by (rule bs_abs_step [OF inv])
  ultimately show ?thesis
    unfolding Let_def abs using inv
    by (simp add: bs_abs_def remaining_capacity_unat bs_buffer_empty_iff bs_eof_iff)
qed

theorem bs_refines_queue_witness:
  "bs_abs (foldl bs_step (ByteStream_new 4) [Write [1, 2], Read 1, End_input]) =
     \<lparr>ss_cap = 4, ss_queue = [2], ss_ended = True, ss_failed = False\<rparr> \<and>
   bs_abs (foldl bs_step (ByteStream_new 4) [Write [1, 2], Read 1, End_input]) =
     foldl doc_step \<lparr>ss_cap = 4, ss_queue = [], ss_ended = False, ss_failed = False\<rparr> [Write [1, 2], Read 1, End_input] \<and>
   bs_abs (bs_step (foldl bs_step (ByteStream_new 4) [Write [1, 2], Read 1, End_input]) (Write [3])) =
     \<lparr>ss_cap = 4, ss_queue = [2, 3], ss_ended = True, ss_failed = False\<rparr>"
  using bs_refines_queue [of 4 "[Write [1, 2], Read 1, End_input]" "[3]"] by (simp add: Let_def doc_step_def)

end
