(* ===== verification/Stream_Reassembler.thy ===== *)
theory Stream_Reassembler
  imports Byte_Stream
begin

text \<open>
  The reassembler of \<open>libsponge/stream_reassembler.hh\<close> and
  \<open>libsponge/stream_reassembler.cc\<close>: it accepts substrings of a byte stream in any order,
  keeps the ones that do not continue the assembled prefix in a list of intervals, and
  writes the assembled prefix to its output stream.

  All indices are 64-bit words, as in the code; a \<open>throw\<close> is a left result. The loops over
  \<open>_list\<close> are recursive functions over the list of nodes.
\<close>

section \<open>The class\<close>

record list_node =
  ln_s :: bytes
  ln_beg :: u64
  ln_end :: u64

record StreamReassembler =
  sr_output :: ByteStream
  sr_capacity :: u64
  sr_cur_index :: u64
  sr_eof :: bool
  sr_list :: "list_node list"

definition StreamReassembler_new :: "u64 \<Rightarrow> StreamReassembler" where
  "StreamReassembler_new capacity =
     \<lparr>sr_output = ByteStream_new capacity, sr_capacity = capacity, sr_cur_index = 0,
      sr_eof = False, sr_list = []\<rparr>"

text \<open>\<open>std::string::substr\<close>: it throws when the position lies past the end.\<close>

definition npos :: u64 where
  "npos = 0xFFFFFFFFFFFFFFFF"

definition substr :: "bytes \<Rightarrow> u64 \<Rightarrow> u64 \<Rightarrow> exn + bytes" where
  "substr s pos n =
     (if length s < unat pos then Inl (OutOfRange ''basic_string::substr'')
      else Inr (take (unat n) (drop (unat pos) s)))"

definition StreamReassembler_unassembled_bytes :: "StreamReassembler \<Rightarrow> u64" where
  "StreamReassembler_unassembled_bytes s =
     foldl (\<lambda>ret e. ret + of_nat (length (ln_s e))) 0 (sr_list s)"

definition StreamReassembler_empty :: "StreamReassembler \<Rightarrow> bool" where
  "StreamReassembler_empty s = (StreamReassembler_unassembled_bytes s = 0)"

text \<open>
  The merging loop of \<open>push_substring\<close>. It either leaves through \<open>goto out\<close> because an
  element already covers the new substring (\<open>Covered\<close>), or runs to the end of the list
  with the relevant elements erased and merged into the substring (\<open>Merged\<close>); both carry
  the list at that moment.
\<close>

datatype merge_result =
    Covered "list_node list"
  | Merged "list_node list" bytes u64 u64

fun keep_node :: "list_node \<Rightarrow> merge_result \<Rightarrow> merge_result" where
  "keep_node it (Covered l) = Covered (it # l)"
| "keep_node it (Merged l d left right) = Merged (it # l) d left right"

fun merge_loop :: "bytes \<Rightarrow> u64 \<Rightarrow> u64 \<Rightarrow> list_node list \<Rightarrow> exn + merge_result" where
  "merge_loop data left right [] = Inr (Merged [] data left right)"
| "merge_loop data left right (it # rest) =
     (if ln_end it + 1 < left \<or> right + 1 < ln_beg it then
        map_sum id (keep_node it) (merge_loop data left right rest)
      else if ln_beg it \<le> left \<and> right \<le> ln_end it then
        Inr (Covered (it # rest))
      else if ln_end it \<le> right \<and> left \<le> ln_beg it then
        merge_loop data left right rest
      else if left \<le> ln_end it + 1 \<and> ln_end it + 1 \<le> right then
        (case substr (ln_s it) 0 (left - ln_beg it) of
           Inl e \<Rightarrow> Inl e
         | Inr pre \<Rightarrow> merge_loop (pre @ data) (ln_beg it) right rest)
      else if left + 1 \<le> ln_beg it \<and> ln_beg it \<le> right + 1 then
        (case substr (ln_s it) (right + 1 - ln_beg it) npos of
           Inl e \<Rightarrow> Inl e
         | Inr suf \<Rightarrow> merge_loop (data @ suf) left (ln_end it) rest)
      else Inl (RuntimeError ''Control flow shouldn't reach here!''))"

fun insert_node :: "list_node \<Rightarrow> list_node list \<Rightarrow> list_node list" where
  "insert_node x [] = [x]"
| "insert_node x (it # rest) =
     (if ln_end x + 1 < ln_beg it then x # it # rest else it # insert_node x rest)"

text \<open>The code at the label \<open>out\<close>.\<close>

definition push_out :: "StreamReassembler \<Rightarrow> bool \<Rightarrow> StreamReassembler" where
  "push_out s should_set_eof =
     (let s = (if should_set_eof then s\<lparr>sr_eof := True\<rparr> else s)
      in if sr_eof s \<and> StreamReassembler_empty s
         then s\<lparr>sr_output := ByteStream_end_input (sr_output s)\<rparr> else s)"

text \<open>The code after the merging loop: hand the data to the output stream, or store it.\<close>

definition push_store ::
  "StreamReassembler \<Rightarrow> bytes \<Rightarrow> u64 \<Rightarrow> u64 \<Rightarrow> bool \<Rightarrow> exn + StreamReassembler" where
  "push_store s data left right should_set_eof =
     (if left = sr_cur_index s then
        (case ByteStream_write (sr_output s) data of
           (out, n) \<Rightarrow>
             if of_nat (length data) \<noteq> n
             then Inl (RuntimeError ''ByteStream::write() return value not expected.'')
             else Inr (push_out (s\<lparr>sr_output := out,
                        sr_cur_index := sr_cur_index s + of_nat (length data)\<rparr>) should_set_eof))
      else Inr (push_out (s\<lparr>sr_list := insert_node \<lparr>ln_s = data, ln_beg = left, ln_end = right\<rparr>
                              (sr_list s)\<rparr>) should_set_eof))"

definition push_merge ::
  "StreamReassembler \<Rightarrow> bytes \<Rightarrow> u64 \<Rightarrow> bool \<Rightarrow> exn + StreamReassembler" where
  "push_merge s data left should_set_eof =
     (let right = left + of_nat (length data) - 1
      in case merge_loop data left right (sr_list s) of
           Inl e \<Rightarrow> Inl e
         | Inr (Covered l) \<Rightarrow> Inr (push_out (s\<lparr>sr_list := l\<rparr>) should_set_eof)
         | Inr (Merged l data left right) \<Rightarrow>
             push_store (s\<lparr>sr_list := l\<rparr>) data left right should_set_eof)"

definition StreamReassembler_push_substring ::
  "StreamReassembler \<Rightarrow> bytes \<Rightarrow> u64 \<Rightarrow> bool \<Rightarrow> exn + StreamReassembler" where
  "StreamReassembler_push_substring s data index eof =
     (let first_unavailable = sr_cur_index s + ByteStream_remaining_capacity (sr_output s);
          offset = sr_cur_index s - index
      in if first_unavailable = sr_cur_index s then Inr s
         else if index < sr_cur_index s \<and> length data \<le> unat offset then
           Inr (push_out s eof)
         else
           (case (if index < sr_cur_index s then substr data offset npos else Inr data) of
              Inl e \<Rightarrow> Inl e
            | Inr actual_data \<Rightarrow>
                let left = (if index < sr_cur_index s then sr_cur_index s else index)
                in if first_unavailable < left + of_nat (length actual_data) then
                     (case substr actual_data 0 (first_unavailable - left) of
                        Inl e \<Rightarrow> Inl e
                      | Inr actual_data \<Rightarrow> push_merge s actual_data left False)
                   else push_merge s actual_data left eof))"


section \<open>Intervals\<close>

text \<open>
  The byte stream being transmitted is a function \<open>S\<close> from indices to bytes; \<open>sslice S i n\<close>
  is its substring of length \<open>n\<close> at index \<open>i\<close>.
\<close>

definition sslice :: "(nat \<Rightarrow> u8) \<Rightarrow> nat \<Rightarrow> nat \<Rightarrow> bytes" where
  "sslice S i n = map S [i..<i + n]"

lemma length_slice [simp]: "length (sslice S i n) = n"
  by (simp add: sslice_def)

lemma slice_append: "sslice S i m @ sslice S (i + m) n = sslice S i (m + n)"
  using upt_add_eq_append [of i "i + m" n] by (simp add: sslice_def add.assoc)

lemma take_slice: "k \<le> n \<Longrightarrow> take k (sslice S i n) = sslice S i k"
  by (simp add: sslice_def take_map)

lemma drop_slice: "drop k (sslice S i n) = sslice S (i + k) (n - k)"
  by (cases "k \<le> n") (simp_all add: sslice_def drop_map)

abbreviation nb :: "list_node \<Rightarrow> nat" where "nb it \<equiv> unat (ln_beg it)"
abbreviation ne :: "list_node \<Rightarrow> nat" where "ne it \<equiv> unat (ln_beg it) + length (ln_s it)"

text \<open>A node of the list: it lies strictly beyond \<open>c\<close> and ends by \<open>F\<close>.\<close>

definition node_ok :: "(nat \<Rightarrow> u8) \<Rightarrow> nat \<Rightarrow> nat \<Rightarrow> list_node \<Rightarrow> bool" where
  "node_ok S F c it \<longleftrightarrow> c < nb it \<and> ne it \<le> F \<and>
     ln_end it = ln_beg it + of_nat (length (ln_s it)) - 1 \<and>
     ln_s it = sslice S (nb it) (length (ln_s it))"

definition gap :: "list_node \<Rightarrow> list_node \<Rightarrow> bool" where
  "gap a b \<longleftrightarrow> ne a < nb b"

definition nodes_ok :: "(nat \<Rightarrow> u8) \<Rightarrow> nat \<Rightarrow> nat \<Rightarrow> list_node list \<Rightarrow> bool" where
  "nodes_ok S F c l \<longleftrightarrow> (\<forall>it \<in> set l. node_ok S F c it) \<and> sorted_wrt gap l"

definition cover :: "list_node list \<Rightarrow> nat set" where
  "cover l = (\<Union>it \<in> set l. {nb it..<ne it})"

text \<open>The substring being pushed.\<close>

definition sub_ok :: "(nat \<Rightarrow> u8) \<Rightarrow> nat \<Rightarrow> nat \<Rightarrow> bytes \<Rightarrow> u64 \<Rightarrow> u64 \<Rightarrow> bool" where
  "sub_ok S F c data left right \<longleftrightarrow> c \<le> unat left \<and> unat left + length data \<le> F \<and>
     right = left + of_nat (length data) - 1 \<and> data = sslice S (unat left) (length data)"

lemma unat_end_succ:
  assumes "unat (beg :: u64) + n \<le> F" and "F + 1 < 2 ^ 64" and "fin = beg + of_nat n - 1"
  shows "unat (fin + 1) = unat beg + n"
    and "0 < unat beg + n \<Longrightarrow> unat fin = unat beg + n - 1"
proof -
  have n: "unat (of_nat n :: u64) = n" using assms by (intro unat_of_nat64) linarith
  have fin: "fin + 1 = beg + of_nat n" using assms(3) by simp
  show a: "unat (fin + 1) = unat beg + n"
    unfolding fin using assms(1,2) n by (subst unat_add64) simp_all
  assume "0 < unat beg + n"
  with a have "1 \<le> fin + 1" by (simp add: word_le_nat_alt Suc_le_eq)
  then have "unat (fin + 1 - 1) = unat (fin + 1) - unat (1 :: u64)" by (rule unat_sub64)
  with a show "unat fin = unat beg + n - 1" by simp
qed


lemma merge_conditions:
  assumes F: "F + 1 < 2 ^ 64" and n: "node_ok S F c it" and s: "sub_ok S F c data left right"
  defines "l \<equiv> unat left" and "r \<equiv> unat left + length data"
  shows "ln_end it + 1 < left \<or> right + 1 < ln_beg it \<longleftrightarrow> ne it < l \<or> r < nb it"
    and "nb it \<le> r \<Longrightarrow> ln_beg it \<le> left \<and> right \<le> ln_end it \<longleftrightarrow> nb it \<le> l \<and> r \<le> ne it"
    and "nb it \<le> r \<Longrightarrow> ln_end it \<le> right \<and> left \<le> ln_beg it \<longleftrightarrow> ne it \<le> r \<and> l \<le> nb it"
    and "nb it \<le> r \<Longrightarrow> left \<le> ln_end it + 1 \<and> ln_end it + 1 \<le> right \<longleftrightarrow> l \<le> ne it \<and> ne it < r"
    and "left + 1 \<le> ln_beg it \<and> ln_beg it \<le> right + 1 \<longleftrightarrow> l < nb it \<and> nb it \<le> r"
    and "nb it \<le> r \<Longrightarrow> unat (right + 1 - ln_beg it) = r - nb it"
proof -
  have pos: "0 < nb it" using n by (simp add: node_ok_def)
  have e1: "unat (ln_end it + 1) = ne it" and e: "unat (ln_end it) = ne it - 1"
    using unat_end_succ [of "ln_beg it" "length (ln_s it)" F "ln_end it"] n F pos
    by (simp_all add: node_ok_def)
  have r1: "unat (right + 1) = r" and r: "0 < r \<Longrightarrow> unat right = r - 1"
    using unat_end_succ [of left "length data" F right] s F
    by (simp_all add: sub_ok_def r_def)
  have l1: "unat (left + 1) = l + 1"
    unfolding l_def using s F by (intro unat_succ64) (simp add: sub_ok_def)
  note defs = word_less_nat_alt word_le_nat_alt e1 e r1 l1
  show "ln_end it + 1 < left \<or> right + 1 < ln_beg it \<longleftrightarrow> ne it < l \<or> r < nb it"
    and "left + 1 \<le> ln_beg it \<and> ln_beg it \<le> right + 1 \<longleftrightarrow> l < nb it \<and> nb it \<le> r"
    by (auto simp: defs l_def)
  assume b: "nb it \<le> r"
  with pos r have r': "unat right = r - 1" "0 < r" by simp_all
  show "ln_beg it \<le> left \<and> right \<le> ln_end it \<longleftrightarrow> nb it \<le> l \<and> r \<le> ne it"
    and "ln_end it \<le> right \<and> left \<le> ln_beg it \<longleftrightarrow> ne it \<le> r \<and> l \<le> nb it"
    and "left \<le> ln_end it + 1 \<and> ln_end it + 1 \<le> right \<longleftrightarrow> l \<le> ne it \<and> ne it < r"
    using pos r' by (auto simp: defs l_def)
  from b show "unat (right + 1 - ln_beg it) = r - nb it"
    by (subst unat_sub64) (simp_all add: defs)
qed


lemma substr_prefix:
  assumes "node_ok S F c it" and "sub_ok S F c data left right" and "nb it \<le> unat left"
    and "unat left \<le> ne it"
  shows "substr (ln_s it) 0 (left - ln_beg it) = Inr (sslice S (nb it) (unat left - nb it))"
    and "sslice S (nb it) (unat left - nb it) @ data =
      sslice S (nb it) (unat left + length data - nb it)"
proof -
  have "unat (left - ln_beg it) = unat left - nb it"
    using assms(3) by (intro unat_sub64) (simp add: word_le_nat_alt)
  moreover have "take (unat left - nb it) (ln_s it) = sslice S (nb it) (unat left - nb it)"
    using assms(1,4) by (subst node_ok_def [THEN iffD1, THEN conjunct2, THEN conjunct2, THEN conjunct2])
      (auto simp: take_slice)
  ultimately show "substr (ln_s it) 0 (left - ln_beg it) = Inr (sslice S (nb it) (unat left - nb it))"
    by (simp add: substr_def)
  have "data = sslice S (nb it + (unat left - nb it)) (length data)"
    using assms(2,3) by (simp add: sub_ok_def)
  then show "sslice S (nb it) (unat left - nb it) @ data =
      sslice S (nb it) (unat left + length data - nb it)"
    using assms(3) by (metis slice_append Nat.add_diff_assoc2)
qed

lemma take_npos: "length d < 2 ^ 64 - 1 \<Longrightarrow> take (unat npos) d = d"
  by (simp add: npos_def)

lemma substr_suffix:
  assumes F: "F + 1 < 2 ^ 64" and n: "node_ok S F c it" and s: "sub_ok S F c data left right"
  defines "r \<equiv> unat left + length data"
  assumes "nb it \<le> r" and "r \<le> ne it"
  shows "substr (ln_s it) (right + 1 - ln_beg it) npos = Inr (sslice S r (ne it - r))"
    and "data @ sslice S r (ne it - r) = sslice S (unat left) (ne it - unat left)"
proof -
  have u: "unat (right + 1 - ln_beg it) = r - nb it"
    using merge_conditions(6) [OF F n s] assms(5) by (simp add: r_def)
  have "drop (r - nb it) (ln_s it) = sslice S r (ne it - r)"
    using n assms(5,6) drop_slice [of "r - nb it" S "nb it" "length (ln_s it)"]
    by (simp add: node_ok_def add.commute)
  moreover have "ne it - r < 2 ^ 64 - 1"
    using n F by (auto simp: node_ok_def)
  ultimately show "substr (ln_s it) (right + 1 - ln_beg it) npos = Inr (sslice S r (ne it - r))"
    using assms(5,6) by (simp add: substr_def u take_npos)
  have "data = sslice S (unat left) (length data)" using s by (simp add: sub_ok_def)
  then have "data @ sslice S r (ne it - r) = sslice S (unat left) (length data + (ne it - r))"
    unfolding r_def by (metis slice_append)
  then show "data @ sslice S r (ne it - r) = sslice S (unat left) (ne it - unat left)"
    using assms(6) by (simp add: r_def)
qed

lemma merge_loop_Cons:
  assumes F: "F + 1 < 2 ^ 64" and n: "node_ok S F c it" and s: "sub_ok S F c data left right"
  defines "l \<equiv> unat left" and "r \<equiv> unat left + length data"
  shows "merge_loop data left right (it # rest) =
    (if ne it < l \<or> r < nb it then map_sum id (keep_node it) (merge_loop data left right rest)
     else if nb it \<le> l \<and> r \<le> ne it then Inr (Covered (it # rest))
     else if ne it \<le> r \<and> l \<le> nb it then merge_loop data left right rest
     else if ne it < r then merge_loop (sslice S (nb it) (r - nb it)) (ln_beg it) right rest
     else merge_loop (sslice S l (ne it - l)) left (ln_end it) rest)"
proof (cases "ne it < l \<or> r < nb it")
  case True
  then show ?thesis
    using merge_conditions(1) [OF F n s] by (simp add: l_def r_def)
next
  case False
  then have rel: "l \<le> ne it" "nb it \<le> r" by simp_all
  note conds = merge_conditions(1,5) [OF F n s, folded l_def r_def]
    merge_conditions(2-4) [OF F n s, folded l_def r_def, OF rel(2)]
  have "nb it \<le> l" if "\<not> (ne it \<le> r \<and> l \<le> nb it)" "ne it < r"
    using that by simp
  then show ?thesis
    unfolding merge_loop.simps conds using False rel
      substr_prefix [OF n s, folded l_def r_def] substr_suffix [OF F n s, folded l_def r_def]
    by auto
qed

lemma of_nat_unat_add: "of_nat (unat (w :: u64) + n) = w + of_nat n"
  by simp

lemma sub_ok_extend_left:
  assumes "node_ok S F c it" and "sub_ok S F c data left right" and "nb it \<le> unat left"
  shows "sub_ok S F c (sslice S (nb it) (unat left + length data - nb it)) (ln_beg it) right"
proof -
  have "ln_beg it + of_nat (unat left + length data - nb it) = left + of_nat (length data)"
    using assms(3) of_nat_unat_add [of "ln_beg it" "unat left + length data - nb it"]
      of_nat_unat_add [of left "length data"] by simp
  with assms show ?thesis by (simp add: sub_ok_def node_ok_def)
qed

lemma sub_ok_extend_right:
  assumes "node_ok S F c it" and "sub_ok S F c data left right" and "unat left \<le> ne it"
  shows "sub_ok S F c (sslice S (unat left) (ne it - unat left)) left (ln_end it)"
proof -
  have "left + of_nat (ne it - unat left) = ln_beg it + of_nat (length (ln_s it))"
    using assms(3) of_nat_unat_add [of left "ne it - unat left"]
      of_nat_unat_add [of "ln_beg it" "length (ln_s it)"] by simp
  with assms show ?thesis by (simp add: sub_ok_def node_ok_def)
qed

lemma cover_simps [simp]: "cover [] = {}" "cover (it # l) = {nb it..<ne it} \<union> cover l"
  by (simp_all add: cover_def)

lemma nodes_ok_simps [simp]:
  "nodes_ok S F c []"
  "nodes_ok S F c (it # l) \<longleftrightarrow>
     node_ok S F c it \<and> (\<forall>x \<in> set l. ne it < nb x) \<and> nodes_ok S F c l"
  by (auto simp: nodes_ok_def gap_def)

text \<open>What the merging loop promises.\<close>

fun merge_ok :: "(nat \<Rightarrow> u8) \<Rightarrow> nat \<Rightarrow> nat \<Rightarrow> list_node list \<Rightarrow> bytes \<Rightarrow> u64 \<Rightarrow> merge_result \<Rightarrow> bool"
where
  "merge_ok S F c l data left (Covered l') \<longleftrightarrow>
     l' = l \<and> {unat left..<unat left + length data} \<subseteq> cover l \<and> (\<exists>it \<in> set l. nb it \<le> unat left)"
| "merge_ok S F c l data left (Merged l' data' left' right') \<longleftrightarrow>
     sub_ok S F c data' left' right' \<and> nodes_ok S F c l' \<and> set l' \<subseteq> set l \<and>
     (\<forall>it \<in> set l'. ne it < unat left' \<or> unat left' + length data' < nb it) \<and>
     cover l' \<union> {unat left'..<unat left' + length data'} =
       cover l \<union> {unat left..<unat left + length data} \<and>
     (left' = left \<or> (\<exists>it \<in> set l. left' = ln_beg it))"

lemma merge_loop_beyond:
  assumes "F + 1 < 2 ^ 64" and "nodes_ok S F c l" and "sub_ok S F c data left right"
    and "\<forall>it \<in> set l. unat left + length data < nb it"
  shows "merge_loop data left right l = Inr (Merged l data left right)"
  using assms(2,4) by (induction l) (auto simp: merge_loop_Cons [OF assms(1) _ assms(3)] simp del: merge_loop.simps(2))

lemma merge_loop_ok:
  assumes F: "F + 1 < 2 ^ 64" and "nodes_ok S F c l" and "sub_ok S F c data left right"
  shows "\<exists>res. merge_loop data left right l = Inr res \<and> merge_ok S F c l data left res"
  using assms(2,3)
proof (induction l arbitrary: data left right)
  case Nil
  then show ?case by simp
next
  case (Cons it rest)
  let ?l = "unat left" and ?r = "unat left + length data"
  from Cons.prems have n: "node_ok S F c it" and rest: "nodes_ok S F c rest"
    and g: "\<forall>x \<in> set rest. ne it < nb x" and s: "sub_ok S F c data left right"
    by simp_all
  note step = merge_loop_Cons [OF F n s, of rest]
  have next_ok: "\<exists>l' d' left' right'. merge_loop d a b rest = Inr (Merged l' d' left' right') \<and>
      merge_ok S F c rest d a (Merged l' d' left' right')"
    if ok: "sub_ok S F c d a b" and le: "unat a \<le> nb it" for d a b
  proof -
    obtain res where res: "merge_loop d a b rest = Inr res" "merge_ok S F c rest d a res"
      using Cons.IH [OF rest ok] by blast
    moreover have "\<forall>x \<in> set rest. unat a < nb x"
      using g le by fastforce
    ultimately show ?thesis by (cases res) fastforce+
  qed
  consider (before) "ne it < ?l" | (after) "?r < nb it" "\<not> ne it < ?l"
    | (covered) "nb it \<le> ?l" "?r \<le> ne it" "\<not> (ne it < ?l \<or> ?r < nb it)"
    | (contained) "ne it \<le> ?r" "?l \<le> nb it" "\<not> (ne it < ?l \<or> ?r < nb it)" "\<not> (nb it \<le> ?l \<and> ?r \<le> ne it)"
    | (left) "nb it < ?l" "?l \<le> ne it" "ne it < ?r"
    | (right) "?l < nb it" "nb it \<le> ?r" "?r < ne it"
    by linarith
  then show ?case
  proof cases
    case before
    obtain res where res: "merge_loop data left right rest = Inr res" "merge_ok S F c rest data left res"
      using Cons.IH [OF rest s] by blast
    show ?thesis
      using before res n g step by (cases res) (auto simp del: merge_loop.simps)
  next
    case after
    with g have "\<forall>x \<in> set rest. ?r < nb x" by fastforce
    with merge_loop_beyond [OF F rest s] after step s rest n g show ?thesis
      by (auto simp del: merge_loop.simps)
  next
    case covered
    then show ?thesis using step by (auto simp del: merge_loop.simps)
  next
    case contained
    with next_ok [OF s] obtain l' d' a' b' where
      m: "merge_loop data left right rest = Inr (Merged l' d' a' b')"
         "merge_ok S F c rest data left (Merged l' d' a' b')" by blast
    have "{nb it..<ne it} \<subseteq> {?l..<?r}" using contained by auto
    with m contained step show ?thesis by (auto simp del: merge_loop.simps)
  next
    case left
    let ?d = "sslice S (nb it) (?r - nb it)"
    from left have "sub_ok S F c ?d (ln_beg it) right" by (intro sub_ok_extend_left n s) simp
    with next_ok [OF this] obtain l' d' a' b' where
      m: "merge_loop ?d (ln_beg it) right rest = Inr (Merged l' d' a' b')"
         "merge_ok S F c rest ?d (ln_beg it) (Merged l' d' a' b')" by blast
    have "{nb it..<ne it} \<union> {?l..<?r} = {nb it..<nb it + (?r - nb it)}" using left by auto
    with m left step show ?thesis by (auto simp del: merge_loop.simps)
  next
    case right
    let ?d = "sslice S ?l (ne it - ?l)"
    have "sub_ok S F c ?d left (ln_end it)" using right sub_ok_extend_right [OF n s] by simp
    with next_ok [OF this] right obtain l' d' a' b' where
      m: "merge_loop ?d left (ln_end it) rest = Inr (Merged l' d' a' b')"
         "merge_ok S F c rest ?d left (Merged l' d' a' b')" using less_imp_le by blast
    have "{nb it..<ne it} \<union> {?l..<?r} = {?l..<?l + (ne it - ?l)}" using right by auto
    with m right step show ?thesis by (auto simp del: merge_loop.simps)
  qed
qed


lemma insert_node_Cons:
  assumes "F + 1 < 2 ^ 64" and "node_ok S F c x"
  shows "insert_node x (it # rest) =
    (if ne x < nb it then x # it # rest else it # insert_node x rest)"
  using unat_end_succ(1) [of "ln_beg x" "length (ln_s x)" F "ln_end x"] assms
  by (simp add: node_ok_def word_less_nat_alt)

lemma set_insert_node [simp]: "set (insert_node x l) = insert x (set l)"
  by (induction l) auto

lemma cover_insert_node [simp]: "cover (insert_node x l) = {nb x..<ne x} \<union> cover l"
  by (simp add: cover_def)

lemma nodes_ok_insert_node:
  assumes F: "F + 1 < 2 ^ 64" and x: "node_ok S F c x" and "nodes_ok S F c l"
    and "\<forall>it \<in> set l. ne it < nb x \<or> ne x < nb it"
  shows "nodes_ok S F c (insert_node x l)"
  using assms(3,4)
proof (induction l)
  case Nil
  then show ?case using x by simp
next
  case (Cons it l)
  show ?case
  proof (cases "ne x < nb it")
    case True
    then have "\<forall>y \<in> set (it # l). ne x < nb y" using Cons.prems(1) by fastforce
    with True Cons.prems(1) x show ?thesis
      unfolding insert_node_Cons [OF F x] by (simp del: insert_node.simps)
  next
    case False
    with Cons show ?thesis
      unfolding insert_node_Cons [OF F x] by (auto simp del: insert_node.simps)
  qed
qed

section \<open>The class invariant\<close>

definition sr_limit :: "StreamReassembler \<Rightarrow> nat" where
  "sr_limit s = unat (bs_bytes_read (sr_output s)) + unat (sr_capacity s)"

definition sr_inv :: "(nat \<Rightarrow> u8) \<Rightarrow> StreamReassembler \<Rightarrow> bool" where
  "sr_inv S s \<longleftrightarrow> bs_inv (sr_output s) \<and> bs_capacity (sr_output s) = sr_capacity s \<and>
     unat (bs_bytes_read (sr_output s)) + length (bs_str (sr_output s)) = unat (sr_cur_index s) \<and>
     bs_str (sr_output s) =
       sslice S (unat (bs_bytes_read (sr_output s))) (length (bs_str (sr_output s))) \<and>
     nodes_ok S (sr_limit s) (unat (sr_cur_index s)) (sr_list s)"

definition received :: "StreamReassembler \<Rightarrow> nat set" where
  "received s = {..<unat (sr_cur_index s)} \<union> cover (sr_list s)"

definition sr_ended :: "StreamReassembler \<Rightarrow> bool" where
  "sr_ended s = ByteStream_input_ended (sr_output s)"

lemma push_out_fields [simp]:
  "sr_list (push_out s b) = sr_list s"
  "sr_cur_index (push_out s b) = sr_cur_index s"
  "sr_capacity (push_out s b) = sr_capacity s"
  "sr_eof (push_out s b) = (sr_eof s \<or> b)"
  "bs_str (sr_output (push_out s b)) = bs_str (sr_output s)"
  "bs_bytes_read (sr_output (push_out s b)) = bs_bytes_read (sr_output s)"
  "bs_bytes_written (sr_output (push_out s b)) = bs_bytes_written (sr_output s)"
  "bs_capacity (sr_output (push_out s b)) = bs_capacity (sr_output s)"
  "bs_inv (sr_output (push_out s b)) = bs_inv (sr_output s)"
  by (auto simp: push_out_def Let_def ByteStream_end_input_def bs_inv_def)

lemma push_out_inv [simp]: "sr_inv S (push_out s b) = sr_inv S s"
  and push_out_limit [simp]: "sr_limit (push_out s b) = sr_limit s"
  and push_out_received [simp]: "received (push_out s b) = received s"
  by (simp_all add: sr_inv_def sr_limit_def received_def)

lemma push_out_ended:
  "sr_ended (push_out s b) \<longleftrightarrow> sr_ended s \<or> ((sr_eof s \<or> b) \<and> StreamReassembler_empty s)"
  by (auto simp: push_out_def Let_def ByteStream_end_input_def sr_ended_def sponge_defs
      StreamReassembler_empty_def StreamReassembler_unassembled_bytes_def)

text \<open>What a step of the reassembler leaves alone, and what it adds.\<close>

definition sr_adds :: "(nat \<Rightarrow> u8) \<Rightarrow> StreamReassembler \<Rightarrow> nat set \<Rightarrow> StreamReassembler \<Rightarrow> bool" where
  "sr_adds S s X s' \<longleftrightarrow> sr_inv S s' \<and> sr_limit s' = sr_limit s \<and> sr_capacity s' = sr_capacity s \<and>
     sr_eof s' = sr_eof s \<and> sr_ended s' = sr_ended s \<and> received s' = received s \<union> X"

lemma write_all:
  assumes "sr_inv S s" and "unat (sr_cur_index s) + length data \<le> sr_limit s"
    and "sr_limit s + 1 < 2 ^ 64"
  shows "snd (ByteStream_write (sr_output s) data) = of_nat (length data)"
    and "bs_str (fst (ByteStream_write (sr_output s) data)) = bs_str (sr_output s) @ data"
proof -
  have room: "length data + length (bs_str (sr_output s)) \<le> unat (bs_capacity (sr_output s))"
    using assms by (simp add: sr_inv_def sr_limit_def)
  have inv: "bs_inv (sr_output s)" using assms(1) by (simp add: sr_inv_def)
  show "snd (ByteStream_write (sr_output s) data) = of_nat (length data)"
    unfolding bsf.put_all(2) [OF inv room, symmetric] by simp
  show "bs_str (fst (ByteStream_write (sr_output s) data)) = bs_str (sr_output s) @ data"
    by (rule bsf.put_all(1) [OF inv room])
qed

lemma push_store_ok:
  assumes inv: "sr_inv S s" and F: "sr_limit s + 1 < 2 ^ 64"
    and sub: "sub_ok S (sr_limit s) (unat (sr_cur_index s)) data left right"
    and apart: "\<forall>it \<in> set (sr_list s). ne it < unat left \<or> unat left + length data < nb it"
  shows "\<exists>s'. push_store s data left right b = Inr (push_out s' b) \<and>
           sr_adds S s {unat left..<unat left + length data} s'"
proof (cases "left = sr_cur_index s")
  case True
  let ?out = "fst (ByteStream_write (sr_output s) data)"
  let ?s = "s\<lparr>sr_output := ?out, sr_cur_index := sr_cur_index s + of_nat (length data)\<rparr>"
  have len: "unat (sr_cur_index s) + length data \<le> sr_limit s"
    using sub True by (simp add: sub_ok_def)
  have cur: "unat (sr_cur_index s + of_nat (length data)) = unat (sr_cur_index s) + length data"
    using len F by (subst unat_add64) (simp_all add: unat_of_nat64)
  note w = write_all [OF inv len F]
  have "push_store s data left right b = Inr (push_out ?s b)"
    using True w(1) by (simp add: push_store_def split_def)
  moreover have "nodes_ok S (sr_limit s) (unat (sr_cur_index s) + length data) (sr_list s)"
    using inv apart True unfolding sr_inv_def nodes_ok_def by (fastforce simp: node_ok_def)
  moreover have "bs_str (sr_output s) @ data = sslice S (unat (bs_bytes_read (sr_output s)))
      (length (bs_str (sr_output s)) + length data)"
    using inv sub True by (metis sr_inv_def sub_ok_def slice_append)
  ultimately show ?thesis using inv w(2) cur True
    by (intro exI [of _ ?s]) (auto simp: sr_adds_def sr_inv_def sr_limit_def sr_ended_def received_def
        sponge_defs bs_inv_write)
next
  case False
  let ?x = "\<lparr>ln_s = data, ln_beg = left, ln_end = right\<rparr>"
  let ?s = "s\<lparr>sr_list := insert_node ?x (sr_list s)\<rparr>"
  have "unat left \<noteq> unat (sr_cur_index s)" using False by (metis word_unat_eq_iff)
  with sub have "node_ok S (sr_limit s) (unat (sr_cur_index s)) ?x"
    by (simp add: sub_ok_def node_ok_def)
  then have "nodes_ok S (sr_limit s) (unat (sr_cur_index s)) (insert_node ?x (sr_list s))"
    using inv apart by (intro nodes_ok_insert_node F) (auto simp: sr_inv_def)
  then show ?thesis using inv False
    by (intro exI [of _ ?s]) (auto simp: push_store_def sr_adds_def sr_inv_def sr_limit_def
        sr_ended_def received_def)
qed

lemma push_merge_ok:
  assumes inv: "sr_inv S s" and F: "sr_limit s + 1 < 2 ^ 64"
    and sub: "sub_ok S (sr_limit s) (unat (sr_cur_index s)) data left
                (left + of_nat (length data) - 1)"
  shows "\<exists>s'. push_merge s data left b = Inr (push_out s' b) \<and>
           sr_adds S s {unat left..<unat left + length data} s'"
proof -
  from inv have nodes: "nodes_ok S (sr_limit s) (unat (sr_cur_index s)) (sr_list s)"
    by (simp add: sr_inv_def)
  obtain res where res: "merge_loop data left (left + of_nat (length data) - 1) (sr_list s) = Inr res"
    "merge_ok S (sr_limit s) (unat (sr_cur_index s)) (sr_list s) data left res"
    using merge_loop_ok [OF F nodes sub] by blast
  show ?thesis
  proof (cases res)
    case (Covered l)
    with res inv show ?thesis
      by (auto simp: push_merge_def sr_adds_def received_def intro!: exI [of _ s])
  next
    case (Merged l d a r)
    let ?s = "s\<lparr>sr_list := l\<rparr>"
    from res Merged have m: "sub_ok S (sr_limit s) (unat (sr_cur_index s)) d a r"
      "nodes_ok S (sr_limit s) (unat (sr_cur_index s)) l"
      "\<forall>it \<in> set l. ne it < unat a \<or> unat a + length d < nb it"
      "cover l \<union> {unat a..<unat a + length d} =
        cover (sr_list s) \<union> {unat left..<unat left + length data}"
      by simp_all
    have lim: "sr_limit ?s = sr_limit s" by (simp add: sr_limit_def)
    have "\<exists>s'. push_store ?s d a r b = Inr (push_out s' b) \<and> sr_adds S ?s {unat a..<unat a + length d} s'"
      using inv m F lim by (intro push_store_ok) (simp_all add: sr_inv_def)
    moreover have "received ?s \<union> {unat a..<unat a + length d} =
        received s \<union> {unat left..<unat left + length data}"
      using m(4) by (auto simp: received_def)
    ultimately show ?thesis using res Merged lim
      by (auto simp: push_merge_def sr_adds_def sr_ended_def)
  qed
qed

text \<open>The substring as the code cuts it to the assembled prefix and to the capacity.\<close>

lemma first_unavailable_unat:
  assumes "sr_inv S s" and "sr_limit s + 1 < 2 ^ 64"
  shows "unat (sr_cur_index s + ByteStream_remaining_capacity (sr_output s)) = sr_limit s"
    and "unat (sr_cur_index s) \<le> sr_limit s"
proof -
  have len: "length (bs_str (sr_output s)) \<le> unat (sr_capacity s)"
    using assms(1) bs_inv_length by (fastforce simp: sr_inv_def)
  then show "unat (sr_cur_index s + ByteStream_remaining_capacity (sr_output s)) = sr_limit s"
    using assms by (subst unat_add64) (auto simp: sr_inv_def sr_limit_def remaining_capacity_unat)
  show "unat (sr_cur_index s) \<le> sr_limit s"
    using assms(1) len by (simp add: sr_inv_def sr_limit_def)
qed

lemma push_cut_right:
  assumes inv: "sr_inv S s" and F: "sr_limit s + 1 < 2 ^ 64"
    and d: "d = sslice S (unat left) (length d)" and len: "unat left + length d < 2 ^ 64"
    and left: "unat (sr_cur_index s) \<le> unat left" "unat left \<le> sr_limit s"
  defines "fu \<equiv> sr_cur_index s + ByteStream_remaining_capacity (sr_output s)"
  shows "\<exists>s'. (if fu < left + of_nat (length d) then
             (case substr d 0 (fu - left) of
                Inl e \<Rightarrow> Inl e
              | Inr actual_data \<Rightarrow> push_merge s actual_data left False)
           else push_merge s d left eof) =
         Inr (push_out s' (eof \<and> unat left + length d \<le> sr_limit s)) \<and>
         sr_adds S s ({unat left..<unat left + length d} \<inter> {..<sr_limit s}) s'"
proof -
  have fu: "unat fu = sr_limit s" unfolding fu_def by (rule first_unavailable_unat [OF inv F])
  have r: "unat (left + of_nat (length d)) = unat left + length d"
    using len by (subst unat_add64) (simp_all add: unat_of_nat64)
  show ?thesis
  proof (cases "sr_limit s < unat left + length d")
    case True
    let ?n = "sr_limit s - unat left"
    have "unat (fu - left) = ?n" using fu left(2) by (subst unat_sub64) (simp_all add: word_le_nat_alt)
    then have "substr d 0 (fu - left) = Inr (take ?n d)" by (simp add: substr_def)
    moreover have n: "take ?n d = sslice S (unat left) ?n"
      using True by (subst d) (simp add: take_slice)
    moreover have "sub_ok S (sr_limit s) (unat (sr_cur_index s)) (sslice S (unat left) ?n) left
        (left + of_nat (length (sslice S (unat left) ?n)) - 1)"
      using left by (simp add: sub_ok_def)
    moreover have "{unat left..<unat left + length d} \<inter> {..<sr_limit s} =
        {unat left..<unat left + length (sslice S (unat left) ?n)}" using True left by auto
    ultimately show ?thesis
      using push_merge_ok [OF inv F, of "sslice S (unat left) ?n" left False] True
      by (simp add: word_less_nat_alt fu r)
  next
    case False
    then have "sub_ok S (sr_limit s) (unat (sr_cur_index s)) d left (left + of_nat (length d) - 1)"
      using d left by (simp add: sub_ok_def)
    moreover have "{unat left..<unat left + length d} \<inter> {..<sr_limit s} =
        {unat left..<unat left + length d}" using False by auto
    ultimately show ?thesis
      using push_merge_ok [OF inv F, of d left eof] False by (simp add: word_less_nat_alt fu r)
  qed
qed

definition push_pre :: "(nat \<Rightarrow> u8) \<Rightarrow> StreamReassembler \<Rightarrow> bytes \<Rightarrow> u64 \<Rightarrow> bool" where
  "push_pre S s data index \<longleftrightarrow> data = sslice S (unat index) (length data) \<and>
     unat index + length data < 2 ^ 64 \<and> unat index \<le> sr_limit s \<and> sr_limit s + 1 < 2 ^ 64"

lemma push_overlap_ok:
  assumes inv: "sr_inv S s" and pre: "push_pre S s data index"
    and room: "unat (sr_cur_index s) \<noteq> sr_limit s"
    and old: "unat index < unat (sr_cur_index s)"
    and new: "unat (sr_cur_index s) < unat index + length data"
  shows "\<exists>s'. StreamReassembler_push_substring s data index eof =
             Inr (push_out s' (eof \<and> unat index + length data \<le> sr_limit s)) \<and>
           sr_adds S s ({unat index..<unat index + length data} \<inter> {..<sr_limit s}) s'"
proof -
  let ?cur = "sr_cur_index s" and ?n = "unat (sr_cur_index s) - unat index"
  let ?fu = "?cur + ByteStream_remaining_capacity (sr_output s)"
  define d where "d = drop ?n data"
  from pre have F: "sr_limit s + 1 < 2 ^ 64" and S: "data = sslice S (unat index) (length data)"
    and len: "unat index + length data < 2 ^ 64"
    by (simp_all add: push_pre_def)
  note fu = first_unavailable_unat [OF inv F]
  have full: "?fu \<noteq> ?cur" using fu room by metis
  have off: "unat (?cur - index) = ?n"
    using old by (subst unat_sub64) (simp_all add: word_le_nat_alt)
  have "length d < 2 ^ 64 - 1" using len old by (simp add: d_def)
  with off old new have sub: "substr data (?cur - index) npos = Inr d"
    by (simp add: substr_def take_npos d_def)
  have len': "unat ?cur + length d = unat index + length data" using old new by (simp add: d_def)
  have "d = sslice S (unat ?cur) (length d)"
    unfolding d_def using old by (subst S) (simp add: drop_slice)
  moreover have "index < ?cur" "\<not> length data \<le> unat (?cur - index)"
    using old new off by (simp_all add: word_less_nat_alt)
  ultimately obtain s' where "StreamReassembler_push_substring s data index eof =
      Inr (push_out s' (eof \<and> unat ?cur + length d \<le> sr_limit s))"
    "sr_adds S s ({unat ?cur..<unat ?cur + length d} \<inter> {..<sr_limit s}) s'"
    using push_cut_right [OF inv F _ _ _ fu(2), of d eof] len full sub unfolding len'
    by (auto simp: StreamReassembler_push_substring_def Let_def)
  moreover have "received s \<union> ({unat ?cur..<unat index + length data} \<inter> {..<sr_limit s}) =
      received s \<union> ({unat index..<unat index + length data} \<inter> {..<sr_limit s})"
    using old by (auto simp: received_def)
  ultimately show ?thesis unfolding sr_adds_def len' by auto
qed

lemma push_substring_ok:
  assumes inv: "sr_inv S s" and pre: "push_pre S s data index"
  shows "if unat (sr_cur_index s) = sr_limit s
         then StreamReassembler_push_substring s data index eof = Inr s
         else \<exists>s'. StreamReassembler_push_substring s data index eof =
                     Inr (push_out s' (eof \<and> unat index + length data \<le> sr_limit s)) \<and>
                   sr_adds S s ({unat index..<unat index + length data} \<inter> {..<sr_limit s}) s'"
proof -
  let ?cur = "sr_cur_index s" and ?fu = "sr_cur_index s + ByteStream_remaining_capacity (sr_output s)"
  from pre have F: "sr_limit s + 1 < 2 ^ 64" and d: "data = sslice S (unat index) (length data)"
    and len: "unat index + length data < 2 ^ 64" and ix: "unat index \<le> sr_limit s"
    by (simp_all add: push_pre_def)
  note fu = first_unavailable_unat [OF inv F]
  have full: "?fu = ?cur \<longleftrightarrow> unat ?cur = sr_limit s" using fu by (metis word_unat_eq_iff)
  consider (full) "unat ?cur = sr_limit s"
    | (old) "unat ?cur \<noteq> sr_limit s" "unat index < unat ?cur" "unat index + length data \<le> unat ?cur"
    | (overlap) "unat ?cur \<noteq> sr_limit s" "unat index < unat ?cur" "unat ?cur < unat index + length data"
    | (fresh) "unat ?cur \<noteq> sr_limit s" "unat ?cur \<le> unat index"
    by linarith
  then show ?thesis
  proof cases
    case full
    with \<open>(?fu = ?cur) = _\<close> show ?thesis by (simp add: StreamReassembler_push_substring_def)
  next
    case old
    then have "unat (?cur - index) = unat ?cur - unat index"
      by (subst unat_sub64) (simp_all add: word_le_nat_alt)
    then show ?thesis using inv full old fu(2)
      by (auto simp: StreamReassembler_push_substring_def Let_def sr_adds_def received_def
          word_less_nat_alt intro!: exI [of _ s])
  next
    case overlap
    with push_overlap_ok [OF inv pre] show ?thesis by simp
  next
    case fresh
    with push_cut_right [OF inv F d len _ ix, of eof] full show ?thesis
      by (simp add: StreamReassembler_push_substring_def Let_def word_less_nat_alt)
  qed
qed


lemma sslice_0 [simp]: "sslice S i 0 = []"
  by (simp add: sslice_def)

lemma nodes_ok_later: "nodes_ok S F c (it # l) \<Longrightarrow> nodes_ok S F (ne it) l"
  by (auto simp: nodes_ok_def node_ok_def gap_def)

lemma nodes_ok_total:
  "nodes_ok S F c l \<Longrightarrow> c \<le> F \<Longrightarrow> c + sum_list (map (length \<circ> ln_s) l) \<le> F"
proof (induction l arbitrary: c)
  case Nil
  then show ?case by simp
next
  case (Cons it l)
  from Cons.prems have "node_ok S F c it" by simp
  then have "c < nb it" "ne it \<le> F" by (simp_all add: node_ok_def)
  with Cons.IH [OF nodes_ok_later [OF Cons.prems(1)]] show ?case by simp
qed

lemma unassembled_bytes_sum:
  "StreamReassembler_unassembled_bytes s = of_nat (sum_list (map (length \<circ> ln_s) (sr_list s)))"
proof -
  have "foldl (\<lambda>ret e. ret + of_nat (length (ln_s e))) r l =
      (r :: u64) + of_nat (sum_list (map (length \<circ> ln_s) l))" for r l
    by (induction l arbitrary: r) (simp_all add: add.assoc)
  from this [of 0 "sr_list s"] show ?thesis by (simp add: StreamReassembler_unassembled_bytes_def)
qed

lemma sr_inv_bounds:
  assumes "sr_inv S s" and "sr_limit s + 1 < 2 ^ 64"
  shows "unat (StreamReassembler_unassembled_bytes s) = sum_list (map (length \<circ> ln_s) (sr_list s))"
    and "unat (StreamReassembler_unassembled_bytes s) + length (bs_str (sr_output s))
           \<le> unat (sr_capacity s)"
proof -
  note le = nodes_ok_total [of S "sr_limit s" "unat (sr_cur_index s)" "sr_list s"]
    first_unavailable_unat(2) [OF assms]
  show eq: "unat (StreamReassembler_unassembled_bytes s) = sum_list (map (length \<circ> ln_s) (sr_list s))"
    unfolding unassembled_bytes_sum using assms le by (intro unat_of_nat64) (simp add: sr_inv_def)
  show "unat (StreamReassembler_unassembled_bytes s) + length (bs_str (sr_output s)) \<le> unat (sr_capacity s)"
    unfolding eq using assms(1) le by (simp add: sr_inv_def sr_limit_def)
qed

lemma empty_iff_cover:
  assumes "sr_inv S s" and "sr_limit s + 1 < 2 ^ 64"
  shows "StreamReassembler_empty s \<longleftrightarrow> cover (sr_list s) = {}"
proof -
  have "StreamReassembler_empty s \<longleftrightarrow> sum_list (map (length \<circ> ln_s) (sr_list s)) = 0"
    unfolding StreamReassembler_empty_def sr_inv_bounds(1) [OF assms, symmetric]
    by (simp add: unat_eq_0)
  also have "\<dots> \<longleftrightarrow> cover (sr_list s) = {}"
    by (auto simp: cover_def sum_list_eq_0_iff)
  finally show ?thesis .
qed

lemma cur_index_least_missing:
  assumes "sr_inv S s"
  shows "unat (sr_cur_index s) \<notin> received s"
  using assms by (auto simp: sr_inv_def received_def cover_def nodes_ok_def node_ok_def)

lemma card_cover:
  "nodes_ok S F c l \<Longrightarrow> finite (cover l) \<and> card (cover l) = sum_list (map (length \<circ> ln_s) l)"
proof (induction l)
  case (Cons it l)
  then have IH: "finite (cover l)" "card (cover l) = sum_list (map (length \<circ> ln_s) l)"
    by (simp_all add: nodes_ok_def comp_def)
  have "{nb it..<ne it} \<inter> cover l = {}" using Cons.prems by (auto simp: nodes_ok_def gap_def cover_def)
  moreover have "cover (it # l) = {nb it..<ne it} \<union> cover l" by (simp add: cover_def)
  ultimately show ?case using IH by (simp add: card_Un_disjoint comp_def)
qed (simp add: cover_def)

lemma stored_card:
  assumes "sr_inv S s" and "sr_limit s + 1 < 2 ^ 64"
  shows "unat (StreamReassembler_unassembled_bytes s) = card (received s - {..<unat (sr_cur_index s)})"
proof -
  have n: "nodes_ok S (sr_limit s) (unat (sr_cur_index s)) (sr_list s)" using assms(1) by (simp add: sr_inv_def)
  then have "received s - {..<unat (sr_cur_index s)} = cover (sr_list s)"
    by (auto simp: received_def cover_def nodes_ok_def node_ok_def)
  with card_cover [OF n] sr_inv_bounds(1) [OF assms] show ?thesis by simp
qed

lemma sr_inv_new: "sr_inv S (StreamReassembler_new c)"
  by (simp add: sr_inv_def StreamReassembler_new_def bs_inv_new)
    (simp add: ByteStream_new_def sslice_def)

section \<open>Sequences of calls\<close>

text \<open>Reading from the output stream moves the window forward.\<close>

definition StreamReassembler_read :: "StreamReassembler \<Rightarrow> u64 \<Rightarrow> StreamReassembler \<times> bytes" where
  "StreamReassembler_read s n =
     (case ByteStream_read (sr_output s) n of (out, d) \<Rightarrow> (s\<lparr>sr_output := out\<rparr>, d))"

lemma nodes_ok_mono: "nodes_ok S F c l \<Longrightarrow> F \<le> F' \<Longrightarrow> nodes_ok S F' c l"
  by (auto simp: nodes_ok_def node_ok_def)

lemma read_ok:
  fixes n :: u64
  assumes "sr_inv S s"
  defines "s' \<equiv> fst (StreamReassembler_read s n)"
  shows "sr_inv S s'" and "received s' = received s" and "sr_limit s \<le> sr_limit s'"
    and "snd (StreamReassembler_read s n) @ bs_str (sr_output s') = bs_str (sr_output s)"
    and "sr_ended s' = sr_ended s" and "sr_eof s' = sr_eof s"
    and "sr_capacity s' = sr_capacity s" and "sr_cur_index s' = sr_cur_index s"
    and "unat (bs_bytes_read (sr_output s')) =
           unat (bs_bytes_read (sr_output s)) + length (snd (StreamReassembler_read s n))"
proof -
  let ?o = "sr_output s" and ?o' = "fst (ByteStream_read (sr_output s) n)"
  from assms(1) have bs: "bs_inv ?o" by (simp add: sr_inv_def)
  have "unat (bs_bytes_read ?o) + length (bs_str ?o) < 2 ^ 64"
    using assms(1) unat_lt64 [of "sr_cur_index s"] by (simp add: sr_inv_def del: unat_lt64)
  then have r: "unat (bs_bytes_read ?o') = unat (bs_bytes_read ?o) + min (unat n) (length (bs_str ?o))"
    by (rule read_bytes_read [OF bs])
  have s': "s' = s\<lparr>sr_output := ?o'\<rparr>" by (simp add: s'_def StreamReassembler_read_def split_def)
  show lim: "sr_limit s \<le> sr_limit s'" by (simp add: s' sr_limit_def r)
  have "drop (unat n) (sslice S (unat (bs_bytes_read ?o)) (length (bs_str ?o))) =
      sslice S (unat (bs_bytes_read ?o) + min (unat n) (length (bs_str ?o))) (length (bs_str ?o) - unat n)"
    by (auto simp: drop_slice min_def)
  then have "bs_str ?o' = sslice S (unat (bs_bytes_read ?o')) (length (bs_str ?o'))"
    using assms(1) unfolding r read_str(1) [OF bs] by (simp add: sr_inv_def)
  moreover have "nodes_ok S (sr_limit s') (unat (sr_cur_index s)) (sr_list s)"
    using assms(1) by (intro nodes_ok_mono [OF _ lim]) (simp add: sr_inv_def)
  ultimately show "sr_inv S s'"
    using assms(1) bs r by (auto simp: s' sr_inv_def bs_inv_read read_str)
  show "received s' = received s" "sr_eof s' = sr_eof s"
    "sr_capacity s' = sr_capacity s" "sr_cur_index s' = sr_cur_index s"
    by (simp_all add: s' received_def)
  show "snd (StreamReassembler_read s n) @ bs_str (sr_output s') = bs_str ?o"
    using bsf.get_conserves [OF bs] by (simp add: s' StreamReassembler_read_def split_def)
  show "unat (bs_bytes_read (sr_output s')) =
      unat (bs_bytes_read ?o) + length (snd (StreamReassembler_read s n))"
    by (simp add: s' r StreamReassembler_read_def split_def read_str [OF bs])
  show "sr_ended s' = sr_ended s"
    by (simp add: s' sr_ended_def sponge_defs ByteStream_read_def ByteStream_pop_output_def Let_def)
qed

lemma sslice_prefix: "d @ e = sslice S i n \<Longrightarrow> d = sslice S i (length d)"
  by (metis append_eq_conv_conj length_append length_slice le_add1 take_slice)

datatype sr_op = SrPush bytes u64 bool | SrRead u64

fun sr_run :: "StreamReassembler \<Rightarrow> sr_op list \<Rightarrow> exn + StreamReassembler \<times> bytes" where
  "sr_run s [] = Inr (s, [])"
| "sr_run s (SrPush d i e # ops) =
     (case StreamReassembler_push_substring s d i e of Inl x \<Rightarrow> Inl x | Inr s' \<Rightarrow> sr_run s' ops)"
| "sr_run s (SrRead n # ops) =
     (let (s', d) = StreamReassembler_read s n
      in map_sum id (map_prod id (\<lambda>out. d @ out)) (sr_run s' ops))"

text \<open>
  The calls come from one stream \<open>S\<close> of \<open>N\<close> bytes: every substring agrees with \<open>S\<close> and
  starts no later than the end of the window, and \<open>eof\<close> marks the substring that ends at
  \<open>N\<close>; an empty last substring arrives only when it continues the assembled prefix.
  \<open>sr_offered\<close> is what the calls offer within the window of the moment.
\<close>

definition fin_pre :: "nat \<Rightarrow> StreamReassembler \<Rightarrow> bytes \<Rightarrow> u64 \<Rightarrow> bool \<Rightarrow> bool" where
  "fin_pre N s d i e \<longleftrightarrow> unat i + length d \<le> N \<and>
     (e \<longrightarrow> unat i + length d = N \<and> (d \<noteq> [] \<or> i \<le> sr_cur_index s))"

fun sr_run_pre :: "(nat \<Rightarrow> u8) \<Rightarrow> nat \<Rightarrow> StreamReassembler \<Rightarrow> sr_op list \<Rightarrow> bool" where
  "sr_run_pre S N s [] = True"
| "sr_run_pre S N s (SrPush d i e # ops) \<longleftrightarrow> push_pre S s d i \<and> fin_pre N s d i e \<and>
     (case StreamReassembler_push_substring s d i e of
        Inl x \<Rightarrow> True | Inr s' \<Rightarrow> sr_run_pre S N s' ops)"
| "sr_run_pre S N s (SrRead n # ops) = sr_run_pre S N (fst (StreamReassembler_read s n)) ops"

fun sr_offered :: "StreamReassembler \<Rightarrow> sr_op list \<Rightarrow> nat set" where
  "sr_offered s [] = {}"
| "sr_offered s (SrPush d i e # ops) = {unat i..<unat i + length d} \<inter> {..<sr_limit s} \<union>
     (case StreamReassembler_push_substring s d i e of Inl x \<Rightarrow> {} | Inr s' \<Rightarrow> sr_offered s' ops)"
| "sr_offered s (SrRead n # ops) = sr_offered (fst (StreamReassembler_read s n)) ops"

text \<open>Whether the end of the stream was announced by a substring that fits the window of the moment.\<close>

fun sr_marked :: "StreamReassembler \<Rightarrow> sr_op list \<Rightarrow> bool" where
  "sr_marked s [] = False"
| "sr_marked s (SrPush d i e # ops) \<longleftrightarrow>
     e \<and> unat i + length d \<le> sr_limit s \<and> unat (sr_cur_index s) < sr_limit s \<or>
     (case StreamReassembler_push_substring s d i e of Inl x \<Rightarrow> False | Inr s' \<Rightarrow> sr_marked s' ops)"
| "sr_marked s (SrRead n # ops) = sr_marked (fst (StreamReassembler_read s n)) ops"

lemma push_substring_result:
  assumes inv: "sr_inv S s" and pre: "push_pre S s d i"
  obtains s' where "StreamReassembler_push_substring s d i e = Inr s'" and "sr_inv S s'"
    and "sr_limit s' = sr_limit s" and "sr_capacity s' = sr_capacity s"
    and "received s' = received s \<union> ({unat i..<unat i + length d} \<inter> {..<sr_limit s})"
    and "sr_eof s' \<longleftrightarrow> sr_eof s \<or> (e \<and> unat i + length d \<le> sr_limit s \<and> unat (sr_cur_index s) \<noteq> sr_limit s)"
    and "sr_ended s' \<longleftrightarrow> sr_ended s \<or>
           (unat (sr_cur_index s) \<noteq> sr_limit s \<and> sr_eof s' \<and> cover (sr_list s') = {})"
proof (cases "unat (sr_cur_index s) = sr_limit s")
  case True
  with push_substring_ok [OF inv pre, of e] have "StreamReassembler_push_substring s d i e = Inr s"
    by simp
  moreover have "received s = received s \<union> ({unat i..<unat i + length d} \<inter> {..<sr_limit s})"
    using True by (auto simp: received_def)
  ultimately show thesis using inv True that by simp
next
  case False
  with push_substring_ok [OF inv pre, of e] obtain s' where
    s': "StreamReassembler_push_substring s d i e = Inr (push_out s' (e \<and> unat i + length d \<le> sr_limit s))"
    "sr_adds S s ({unat i..<unat i + length d} \<inter> {..<sr_limit s}) s'" by auto
  have "sr_limit s' + 1 < 2 ^ 64" using s'(2) pre by (simp add: sr_adds_def push_pre_def)
  then have "StreamReassembler_empty s' \<longleftrightarrow> cover (sr_list s') = {}"
    using s'(2) by (intro empty_iff_cover) (auto simp: sr_adds_def)
  with s' False that show thesis by (auto simp: sr_adds_def push_out_ended)
qed

lemma received_cur_le:
  assumes "sr_inv S s" and "sr_inv S s'" and "received s \<subseteq> received s'"
  shows "unat (sr_cur_index s) \<le> unat (sr_cur_index s')"
proof (rule ccontr)
  assume "\<not> ?thesis"
  then have "unat (sr_cur_index s') \<in> received s" by (simp add: received_def)
  with assms(3) cur_index_least_missing [OF assms(2)] show False by blast
qed

lemma sr_run_ok:
  assumes "sr_inv S s" and "sr_run_pre S N s ops"
  shows "\<exists>s' out. sr_run s ops = Inr (s', out) \<and> sr_inv S s' \<and>
           received s' = received s \<union> sr_offered s ops \<and>
           out @ bs_str (sr_output s') = sslice S (unat (bs_bytes_read (sr_output s)))
             (unat (sr_cur_index s') - unat (bs_bytes_read (sr_output s)))"
  using assms
proof (induction s ops rule: sr_run.induct)
  case (1 s)
  then show ?case by (auto simp: sr_inv_def dest: sym)
next
  case (2 s d i e ops)
  from 2(3) have pre: "push_pre S s d i" by simp
  obtain s' where s': "StreamReassembler_push_substring s d i e = Inr s'" "sr_inv S s'"
    "sr_limit s' = sr_limit s" "sr_capacity s' = sr_capacity s"
    "received s' = received s \<union> ({unat i..<unat i + length d} \<inter> {..<sr_limit s})"
    by (blast intro: push_substring_result [OF 2(2) pre, of e])
  from s' have "unat (bs_bytes_read (sr_output s')) = unat (bs_bytes_read (sr_output s))"
    by (simp add: sr_limit_def)
  with 2 s' show ?case by (auto simp: Un_assoc)
next
  case (3 s n ops)
  obtain s' d where rd: "StreamReassembler_read s n = (s', d)" by fastforce
  with read_ok [OF 3(2), of n] have s': "sr_inv S s'" "received s' = received s"
    "d @ bs_str (sr_output s') = bs_str (sr_output s)" "sr_cur_index s' = sr_cur_index s"
    "unat (bs_bytes_read (sr_output s')) = unat (bs_bytes_read (sr_output s)) + length d"
    by simp_all
  have d: "d = sslice S (unat (bs_bytes_read (sr_output s))) (length d)"
    using 3(2) s'(3) sslice_prefix [of d "bs_str (sr_output s')" S] by (metis sr_inv_def)
  from 3 rd s'(1) obtain s'' out where r: "sr_run s' ops = Inr (s'', out)" "sr_inv S s''"
    "received s'' = received s' \<union> sr_offered s' ops"
    "out @ bs_str (sr_output s'') = sslice S (unat (bs_bytes_read (sr_output s')))
       (unat (sr_cur_index s'') - unat (bs_bytes_read (sr_output s')))"
    by simp blast
  have "unat (sr_cur_index s') \<le> unat (sr_cur_index s'')"
    using s'(1) r(2,3) by (intro received_cur_le) auto
  then have "d @ out @ bs_str (sr_output s'') = sslice S (unat (bs_bytes_read (sr_output s)))
       (unat (sr_cur_index s'') - unat (bs_bytes_read (sr_output s)))"
    using s'(1,5) r(4) d slice_append [of S "unat (bs_bytes_read (sr_output s))" "length d"]
    by (simp add: sr_inv_def)
  with r rd s'(2) show ?case by simp
qed

subsection \<open>The end of the stream\<close>

definition sr_eof_inv :: "nat \<Rightarrow> StreamReassembler \<Rightarrow> bool" where
  "sr_eof_inv N s \<longleftrightarrow> received s \<subseteq> {..<N} \<and> (sr_eof s \<longrightarrow> N = 0 \<or> N - 1 \<in> received s) \<and>
     (sr_ended s \<longleftrightarrow> sr_eof s \<and> unat (sr_cur_index s) = N)"

lemma cur_index_le:
  assumes "received s \<subseteq> {..<N}"
  shows "unat (sr_cur_index s) \<le> N"
proof (rule ccontr)
  assume "\<not> ?thesis"
  then have "N \<in> received s" by (simp add: received_def)
  with assms show False by auto
qed

lemma cover_empty_iff:
  assumes "sr_inv S s" and "received s \<subseteq> {..<N}" and "N = 0 \<or> N - 1 \<in> received s"
  shows "cover (sr_list s) = {} \<longleftrightarrow> unat (sr_cur_index s) = N"
proof
  assume "cover (sr_list s) = {}"
  with assms(3) cur_index_le [OF assms(2)] show "unat (sr_cur_index s) = N"
    by (auto simp: received_def)
next
  assume "unat (sr_cur_index s) = N"
  moreover have "unat (sr_cur_index s) < j" if "j \<in> cover (sr_list s)" for j
    using that assms(1) by (auto simp: sr_inv_def cover_def nodes_ok_def node_ok_def)
  ultimately show "cover (sr_list s) = {}" using assms(2) by (fastforce simp: received_def)
qed

lemma fin_last:
  assumes "fin_pre N s d i True" and "N \<le> F"
  shows "N = 0 \<or> N - 1 \<in> received s \<union> ({unat i..<unat i + length d} \<inter> {..<F})"
proof (cases "d = []")
  case True
  with assms have "N \<le> unat (sr_cur_index s)" by (auto simp: fin_pre_def word_le_nat_alt)
  then show ?thesis by (auto simp: received_def)
next
  case False
  with assms have "N - 1 \<in> {unat i..<unat i + length d} \<inter> {..<F}"
    by (cases d) (auto simp: fin_pre_def)
  then show ?thesis by blast
qed

lemma push_eof_inv:
  assumes inv: "sr_inv S s" and eof: "sr_eof_inv N s"
    and pre: "push_pre S s d i" and fin: "fin_pre N s d i e"
    and push: "StreamReassembler_push_substring s d i e = Inr s'"
  shows "sr_eof_inv N s'"
proof -
  have s': "sr_inv S s'" "sr_limit s' = sr_limit s"
    "received s' = received s \<union> ({unat i..<unat i + length d} \<inter> {..<sr_limit s})"
    "sr_eof s' \<longleftrightarrow> sr_eof s \<or> (e \<and> unat i + length d \<le> sr_limit s \<and> unat (sr_cur_index s) \<noteq> sr_limit s)"
    "sr_ended s' \<longleftrightarrow> sr_ended s \<or>
       (unat (sr_cur_index s) \<noteq> sr_limit s \<and> sr_eof s' \<and> cover (sr_list s') = {})"
    by (rule push_substring_result [OF inv pre, of e]; use push in simp)+
  have rec: "received s' \<subseteq> {..<N}" using eof fin s'(3) by (auto simp: sr_eof_inv_def fin_pre_def)
  have last: "N = 0 \<or> N - 1 \<in> received s'" if "sr_eof s'"
    using that s'(4) eof fin fin_last [of N s d i "sr_limit s"] unfolding s'(3)
    by (auto simp: sr_eof_inv_def fin_pre_def)
  have le: "unat (sr_cur_index s) \<le> unat (sr_cur_index s')"
    using s' inv by (intro received_cur_le) auto
  have "sr_ended s" if "unat (sr_cur_index s) = sr_limit s" "sr_eof s'" "unat (sr_cur_index s') = N"
  proof -
    have "received s' = received s" using that(1) s'(3) by (auto simp: received_def)
    then have "unat (sr_cur_index s') \<le> unat (sr_cur_index s)"
      using s' inv by (intro received_cur_le) auto
    with that s'(4) eof le show ?thesis by (auto simp: sr_eof_inv_def)
  qed
  moreover have "unat (sr_cur_index s') = N \<and> sr_eof s'" if "sr_ended s"
    using that eof le cur_index_le [OF rec] s'(4) by (auto simp: sr_eof_inv_def)
  ultimately have "sr_ended s' \<longleftrightarrow> sr_eof s' \<and> unat (sr_cur_index s') = N"
    using s'(5) cover_empty_iff [OF s'(1) rec last] by blast
  with rec last show ?thesis by (simp add: sr_eof_inv_def)
qed

lemma sr_run_eof_inv:
  assumes "sr_inv S s" and "sr_eof_inv N s" and "sr_run_pre S N s ops" and "sr_run s ops = Inr (s', out)"
  shows "sr_eof_inv N s'"
  using assms
proof (induction s ops arbitrary: out rule: sr_run.induct)
  case (2 s d i e ops)
  from 2(4) have pre: "push_pre S s d i" "fin_pre N s d i e" by simp_all
  obtain t where "StreamReassembler_push_substring s d i e = Inr t" "sr_inv S t"
    by (blast intro: push_substring_result [OF 2(2) pre(1), of e])
  with 2 push_eof_inv [OF 2(2,3) pre] show ?case by simp
next
  case (3 s n ops)
  obtain t d where rd: "StreamReassembler_read s n = (t, d)" by fastforce
  with read_ok [OF 3(2), of n] have t: "sr_inv S t" "received t = received s"
    "sr_ended t = sr_ended s" "sr_eof t = sr_eof s" "sr_cur_index t = sr_cur_index s" by simp_all
  then have "sr_eof_inv N t" using 3(3) by (simp add: sr_eof_inv_def)
  with 3 rd t(1) show ?case by (cases "sr_run t ops") auto
qed simp

lemma cur_le_limit: "sr_inv S s \<Longrightarrow> unat (sr_cur_index s) \<le> sr_limit s"
  using bs_inv_length [of "sr_output s"] by (auto simp: sr_inv_def sr_limit_def)

lemma sr_run_marked:
  assumes "sr_inv S s" and "sr_run_pre S N s ops" and "sr_run s ops = Inr (s', out)"
  shows "(sr_eof s' \<longleftrightarrow> sr_eof s \<or> sr_marked s ops) \<and> sr_capacity s' = sr_capacity s"
  using assms
proof (induction s ops arbitrary: out rule: sr_run.induct)
  case (2 s d i e ops)
  from 2(3) have pre: "push_pre S s d i" by simp
  obtain t where t: "StreamReassembler_push_substring s d i e = Inr t" "sr_inv S t" "sr_capacity t = sr_capacity s"
    "sr_eof t \<longleftrightarrow> sr_eof s \<or> (e \<and> unat i + length d \<le> sr_limit s \<and> unat (sr_cur_index s) \<noteq> sr_limit s)"
    by (blast intro: push_substring_result [OF 2(2) pre, of e])
  with 2(1) [OF t(1,2)] 2(3,4) cur_le_limit [OF 2(2)] show ?case by auto
next
  case (3 s n ops)
  obtain t d where rd: "StreamReassembler_read s n = (t, d)" by fastforce
  with read_ok [OF 3(2), of n] have t: "sr_inv S t" "sr_eof t = sr_eof s" "sr_capacity t = sr_capacity s" by simp_all
  from 3(4) rd obtain out' where "sr_run t ops = Inr (s', out')" by (cases "sr_run t ops") auto
  with 3(1) [OF rd [symmetric] refl t(1)] 3(3) rd t show ?case by simp
qed simp

section \<open>Substrings beyond the window\<close>

text \<open>
  The room for a substring is \<open>first_unavailable - left\<close>, which wraps around when the
  substring starts beyond the window: such a substring is stored whole. When the gap before it
  is closed, all of it is written, and the output stream has no room for it.
\<close>

lemma beyond_window_stored:
  assumes inv: "sr_inv S s" and l: "sr_list s = []" and w: "unat (sr_cur_index s) < sr_limit s" "sr_limit s < unat i"
    and d: "d \<noteq> []" "unat i + length d < 2 ^ 64"
  shows "StreamReassembler_push_substring s d i e =
    Inr (s\<lparr>sr_list := [\<lparr>ln_s = d, ln_beg = i, ln_end = i + of_nat (length d) - 1\<rparr>]\<rparr>)"
proof -
  let ?f = "sr_cur_index s + ByteStream_remaining_capacity (sr_output s)"
  have "0 < length d" using d(1) by simp
  then have f: "unat ?f = sr_limit s" using first_unavailable_unat(1) [OF inv] w d(2) by simp
  have n: "unat (of_nat (length d) :: u64) = length d" "unat (i + of_nat (length d)) = unat i + length d"
    using d(2) by (simp_all add: unat_of_nat64 unat_add64)
  have "\<not> i < sr_cur_index s" "?f \<noteq> sr_cur_index s" "i \<noteq> sr_cur_index s" "?f < i + of_nat (length d)"
    using w f n by (auto simp: word_less_nat_alt)
  moreover have "length d \<le> unat (?f - i)"
    using w f d(2) by (simp add: unat_sub_if_size word_le_nat_alt word_size del: diff_add_eq_diff_diff_swap)
  then have "substr d 0 (?f - i) = Inr d" by (simp add: substr_def)
  moreover have "of_nat (length d) \<noteq> (0 :: u64)" using n(1) d(1) by (metis length_0_conv unat_0)
  ultimately show ?thesis using l
    by (simp add: StreamReassembler_push_substring_def push_merge_def push_store_def push_out_def Let_def
        StreamReassembler_empty_def StreamReassembler_unassembled_bytes_def)
qed


lemma gap_closed_throws:
  assumes inv: "sr_inv S s" and i: "unat (sr_cur_index s) < unat i" "unat i \<le> sr_limit s"
    and d: "d \<noteq> []" "sr_limit s < unat i + length d" "unat i + length d < 2 ^ 64"
    and g: "length g = unat i - unat (sr_cur_index s)"
  shows "StreamReassembler_push_substring
      (s\<lparr>sr_list := [\<lparr>ln_s = d, ln_beg = i, ln_end = i + of_nat (length d) - 1\<rparr>]\<rparr>) g (sr_cur_index s) e =
    Inl (RuntimeError ''ByteStream::write() return value not expected.'')"
proof -
  let ?c = "sr_cur_index s" let ?f = "?c + ByteStream_remaining_capacity (sr_output s)"
  have "0 < length d" using d(1) by simp
  then have f: "unat ?f = sr_limit s" using first_unavailable_unat(1) [OF inv] d by simp
  have lg: "unat (of_nat (length g) :: u64) = length g" using g d(3) by (intro unat_of_nat64) simp
  then have ci: "?c + of_nat (length g) = i"
    by (intro word_unat_eq_iff [THEN iffD2]) (use i g unat_lt64 [of i] in \<open>simp add: unat_add64\<close>)
  then have "i - 1 + 1 = i" "\<not> ?f < ?c + of_nat (length g)" "?f \<noteq> ?c"
    using i f by (auto simp: word_less_nat_alt)
  moreover have end': "unat (i + of_nat (length d) - 1) = unat i + length d - 1"
    "unat (i + of_nat (length d) - 1 + 1) = unat i + length d"
    using d \<open>0 < length d\<close> by (simp_all add: unat_sub64 unat_add64 unat_of_nat64 word_le_nat_alt)
  moreover have cond: "unat (of_nat (length d) :: u64) = length d" "0 < length g" using d i g by (simp_all add: unat_of_nat64)
  moreover have ii: "unat (i - 1) = unat i - 1" "unat (?c + 1) = unat ?c + 1"
    using i d(3) by (simp_all add: unat_sub64 unat_succ64 word_le_nat_alt)
  moreover have "merge_loop g ?c (i - 1) [\<lparr>ln_s = d, ln_beg = i, ln_end = i + of_nat (length d) - 1\<rparr>] =
      Inr (Merged [] (g @ d) ?c (i + of_nat (length d) - 1))"
    using i d \<open>0 < length d\<close> end' \<open>i - 1 + 1 = i\<close> ii
    by (auto simp: word_less_nat_alt word_le_nat_alt substr_def npos_def unat_max64)
  moreover have o': "bs_capacity (sr_output s) = sr_capacity s"
    "unat (bs_bytes_read (sr_output s)) + length (bs_str (sr_output s)) = unat ?c" using inv by (simp_all add: sr_inv_def)
  moreover have "of_nat (length (g @ d)) \<noteq> snd (ByteStream_write (sr_output s) (g @ d))"
  proof
    assume "of_nat (length (g @ d)) = snd (ByteStream_write (sr_output s) (g @ d))"
    then have "unat (of_nat (length (g @ d)) :: u64) = unat (snd (ByteStream_write (sr_output s) (g @ d)))" by simp
    moreover have "length (g @ d) < 2 ^ 64" using g d(3) by simp
    moreover have "unat (bs_capacity (sr_output s)) - length (bs_str (sr_output s)) < length (g @ d)"
      using o'(2) d(2) g i unfolding sr_limit_def length_append o'(1) by linarith
    ultimately show False using inv write_count [of "sr_output s" "g @ d"] unat_of_nat64 [of "length (g @ d)"]
      by (simp add: sr_inv_def)
  qed
  ultimately show ?thesis
    by (simp add: StreamReassembler_push_substring_def push_merge_def push_store_def Let_def ci split_def)
qed

section \<open>The contract its client relies on\<close>

text \<open>
  The TCP receiver pushes the payloads of segments in whatever order they arrive. The
  contract names what it needs: a push succeeds, keeps the invariant and the limit of the
  window, and adds exactly the part of the substring within the window; the assembled
  prefix ends at the least index that is missing.
\<close>

locale reassembly =
  fixes inv :: "'s \<Rightarrow> bool"
    and pre :: "'s \<Rightarrow> bytes \<Rightarrow> u64 \<Rightarrow> bool"
    and held :: "'s \<Rightarrow> nat set"
    and window_end :: "'s \<Rightarrow> nat"
    and assembled :: "'s \<Rightarrow> nat"
    and push :: "'s \<Rightarrow> bytes \<Rightarrow> u64 \<Rightarrow> bool \<Rightarrow> exn + 's"
  assumes push_ok: "inv s \<Longrightarrow> pre s d i \<Longrightarrow> \<exists>s'. push s d i e = Inr s' \<and> inv s' \<and>
      window_end s' = window_end s \<and>
      held s' = held s \<union> ({unat i..<unat i + length d} \<inter> {..<window_end s})"
    and pre_stable: "pre s d i \<Longrightarrow> window_end s' = window_end s \<Longrightarrow> pre s' d i"
    and assembled_held: "inv s \<Longrightarrow> {..<assembled s} \<subseteq> held s"
    and assembled_missing: "inv s \<Longrightarrow> assembled s \<notin> held s"
begin

lemma assembled_eq:
  assumes "inv s" and "inv t" and "held s = held t"
  shows "assembled s = assembled t"
  using assms assembled_held assembled_missing
  by (metis lessThan_iff linorder_neqE_nat subsetD)

lemma push_again:
  assumes "inv s" and "pre s d i" and "push s d i e = Inr s'"
  shows "\<exists>s''. push s' d i e' = Inr s'' \<and> inv s'' \<and> held s'' = held s'"
proof -
  have s': "inv s'" "window_end s' = window_end s"
    "held s' = held s \<union> ({unat i..<unat i + length d} \<inter> {..<window_end s})"
    using push_ok [OF assms(1,2), of e] assms(3) by auto
  with push_ok [OF s'(1) pre_stable [OF assms(2) s'(2)], of e'] show ?thesis by auto
qed

lemma push_push:
  assumes "inv s" and "pre s d i" and "pre s d' i'"
  obtains s' s'' where "push s d i e = Inr s'" and "push s' d' i' e' = Inr s''" and "inv s''"
    and "held s'' = held s \<union> (({unat i..<unat i + length d} \<union> {unat i'..<unat i' + length d'}) \<inter>
           {..<window_end s})"
proof -
  obtain s' where s': "push s d i e = Inr s'" "inv s'" "window_end s' = window_end s"
    "held s' = held s \<union> ({unat i..<unat i + length d} \<inter> {..<window_end s})"
    using push_ok [OF assms(1,2)] by blast
  obtain s'' where "push s' d' i' e' = Inr s''" "inv s''"
    "held s'' = held s' \<union> ({unat i'..<unat i' + length d'} \<inter> {..<window_end s'})"
    using push_ok [OF s'(2) pre_stable [OF assms(3) s'(3)]] by blast
  with s' that show thesis by (auto simp: Int_Un_distrib2)
qed

lemma push_swap:
  assumes "inv s" and "pre s d i" and "pre s d' i'"
  shows "\<exists>s1 s12 s2 s21. push s d i e = Inr s1 \<and> push s1 d' i' e' = Inr s12 \<and>
           push s d' i' e' = Inr s2 \<and> push s2 d i e = Inr s21 \<and>
           held s12 = held s21 \<and> assembled s12 = assembled s21"
proof -
  obtain s1 s12 where a: "push s d i e = Inr s1" "push s1 d' i' e' = Inr s12" "inv s12"
    "held s12 = held s \<union> (({unat i..<unat i + length d} \<union> {unat i'..<unat i' + length d'}) \<inter> {..<window_end s})"
    using push_push [OF assms] by blast
  obtain s2 s21 where b: "push s d' i' e' = Inr s2" "push s2 d i e = Inr s21" "inv s21"
    "held s21 = held s \<union> (({unat i'..<unat i' + length d'} \<union> {unat i..<unat i + length d}) \<inter> {..<window_end s})"
    using push_push [OF assms(1,3,2)] by blast
  have "held s12 = held s21" using a(4) b(4) by (simp add: Un_commute)
  with a b assembled_eq [OF a(3) b(3)] show ?thesis by blast
qed

end

lemma reassembly_push_law:
  assumes "sr_inv S s" and "push_pre S s d i"
  shows "\<exists>s'. StreamReassembler_push_substring s d i e = Inr s' \<and> sr_inv S s' \<and>
      sr_limit s' = sr_limit s \<and>
      received s' = received s \<union> ({unat i..<unat i + length d} \<inter> {..<sr_limit s})"
  by (rule push_substring_result [OF assms, of e]) blast

lemma received_prefix: "{..<unat (sr_cur_index s)} \<subseteq> received s"
  by (simp add: received_def)

lemma prefix_complete:
  assumes "sr_inv S s" and "received s \<subseteq> {..<N}"
  shows "unat (sr_cur_index s) = N \<longleftrightarrow> {..<N} \<subseteq> received s"
proof
  assume "{..<N} \<subseteq> received s"
  with cur_index_least_missing [OF assms(1)] have "\<not> unat (sr_cur_index s) < N" by auto
  with cur_index_le [OF assms(2)] show "unat (sr_cur_index s) = N" by simp
qed (use received_prefix in auto)

interpretation sra: reassembly "sr_inv S" "push_pre S" received sr_limit
  "\<lambda>s. unat (sr_cur_index s)" StreamReassembler_push_substring for S
proof (unfold_locales, goal_cases)
  case (1 s d i e)
  then show ?case by (rule reassembly_push_law)
next
  case (2 s d i s')
  then show ?case by (simp add: push_pre_def)
next
  case (3 s)
  show ?case by (rule received_prefix)
next
  case (4 s)
  then show ?case by (rule cur_index_least_missing)
qed

section \<open>Properties\<close>

text \<open>C4. One push of a substring that agrees with the stream and starts inside the window or at
  its end (the code fails on a later start, which the last property of this theory shows):
  it is accepted without an exception; the invariant holds afterwards; the reassembler then
  holds exactly the bytes it held before and the part of the substring inside the window; and
  \<open>_cur_index\<close> is the least index that has not been received.\<close>

theorem push_substring_correct:
  assumes "sr_inv S s" and "push_pre S s data index"
  shows "\<exists>s'. StreamReassembler_push_substring s data index eof = Inr s' \<and> sr_inv S s' \<and>
           received s' = received s \<union> ({unat index..<unat index + length data} \<inter> {..<sr_limit s}) \<and>
           {..<unat (sr_cur_index s')} \<subseteq> received s' \<and> unat (sr_cur_index s') \<notin> received s'"
  using sra.push_ok [OF assms, of eof] sra.assembled_held sra.assembled_missing by blast

theorem push_substring_correct_witness:
  "\<exists>s'. StreamReassembler_push_substring (StreamReassembler_new 8) [2, 3] 2 False = Inr s' \<and>
     sr_inv of_nat s' \<and> received s' = {2, 3} \<and> 0 \<notin> received s'"
proof -
  have "push_pre of_nat (StreamReassembler_new 8) [2, 3] 2"
    by (simp add: push_pre_def sslice_def upt_rec sr_limit_def StreamReassembler_new_def ByteStream_new_def)
  moreover have "received (StreamReassembler_new 8) = {}" "sr_limit (StreamReassembler_new 8) = 8"
    by (simp_all add: received_def StreamReassembler_new_def sr_limit_def ByteStream_new_def)
  moreover have "{2..<4} \<inter> {..<8} = {2, 3 :: nat}" by auto
  ultimately show ?thesis
    using push_substring_correct [OF sr_inv_new, of of_nat 8 "[2, 3]" 2 False] by auto
qed

text \<open>C3. Whole runs: substrings of one stream are pushed in any order, overlapping or repeated, and
  the reader takes bytes in between as it likes. Two things are asked of the pushes: each
  starts no later than the end of the window of the moment, and an empty substring that marks
  the end comes only when it continues what is assembled. Then no call throws, and what was
  read followed by what is still buffered is the prefix of the stream that ends at the
  first byte that was never offered inside the window.\<close>

theorem sr_run_delivers_prefix:
  assumes "sr_run_pre S N (StreamReassembler_new c) ops"
  shows "\<exists>s' out. sr_run (StreamReassembler_new c) ops = Inr (s', out) \<and>
           out @ bs_str (sr_output s') = sslice S 0 (unat (sr_cur_index s')) \<and>
           {..<unat (sr_cur_index s')} \<subseteq> sr_offered (StreamReassembler_new c) ops \<and>
           unat (sr_cur_index s') \<notin> sr_offered (StreamReassembler_new c) ops"
proof -
  let ?n = "StreamReassembler_new c"
  have "received ?n = {}" "bs_bytes_read (sr_output ?n) = 0"
    by (simp_all add: received_def StreamReassembler_new_def ByteStream_new_def)
  with sr_run_ok [OF sr_inv_new assms] obtain s' out where
    r: "sr_run ?n ops = Inr (s', out)" "sr_inv S s'" "received s' = sr_offered ?n ops"
    "out @ bs_str (sr_output s') = sslice S 0 (unat (sr_cur_index s'))" by auto
  from received_prefix [of s'] cur_index_least_missing [OF r(2)] r(1,4) show ?thesis
    unfolding r(3) by blast
qed

lemmas sr_eval = StreamReassembler_new_def ByteStream_new_def
  StreamReassembler_push_substring_def push_merge_def push_store_def push_out_def
  StreamReassembler_empty_def StreamReassembler_unassembled_bytes_def
  StreamReassembler_read_def ByteStream_read_def ByteStream_pop_output_def
  ByteStream_peek_output_def ByteStream_write_def ByteStream_end_input_def sponge_defs
  substr_def Let_def npos_def word_less_nat_alt word_le_nat_alt unat_max64

lemmas pre_eval = push_pre_def fin_pre_def sslice_def upt_rec sr_limit_def

theorem sr_run_delivers_prefix_witness:
  "\<exists>s'. sr_run (StreamReassembler_new 4)
       [SrPush [1, 2] 1 False, SrPush [0, 1] 0 False, SrRead 2, SrPush [3] 3 True] =
       Inr (s', [0, 1]) \<and> bs_str (sr_output s') = [2, 3] \<and> sr_cur_index s' = 4"
proof -
  let ?ops = "[SrPush [1, 2] 1 False, SrPush [0, 1] 0 False, SrRead 2, SrPush [3] 3 True]"
  have "sr_run_pre of_nat 4 (StreamReassembler_new 4) ?ops"
    by (simp add: sr_eval pre_eval)
  from sr_run_delivers_prefix [OF this] show ?thesis
    by (simp add: sr_eval)
qed

text \<open>C5. The end of the stream, for runs in which every substring starts no later than the end of
  the window and an empty last substring is pushed only when it continues the assembled
  prefix: the output stream is ended exactly when some push carried the mark while its
  substring fitted into a window that was open, and every byte of the stream has been offered
  inside the window; and then what was read followed by what is buffered is the whole stream.\<close>

theorem sr_run_eof:
  assumes "sr_run_pre S N (StreamReassembler_new c) ops"
  shows "\<exists>s' out. sr_run (StreamReassembler_new c) ops = Inr (s', out) \<and>
           (ByteStream_input_ended (sr_output s') \<longleftrightarrow>
              sr_marked (StreamReassembler_new c) ops \<and> {..<N} \<subseteq> sr_offered (StreamReassembler_new c) ops) \<and>
           (ByteStream_input_ended (sr_output s') \<longrightarrow>
              out @ bs_str (sr_output s') = sslice S 0 N)"
proof -
  let ?n = "StreamReassembler_new c"
  have new: "received ?n = {}" "bs_bytes_read (sr_output ?n) = 0" "sr_eof_inv N ?n"
    by (simp_all add: received_def StreamReassembler_new_def ByteStream_new_def sr_eof_inv_def
        sr_ended_def sponge_defs)
  with sr_run_ok [OF sr_inv_new assms] obtain s' out where
    r: "sr_run ?n ops = Inr (s', out)" "sr_inv S s'" "received s' = sr_offered ?n ops"
    "out @ bs_str (sr_output s') = sslice S 0 (unat (sr_cur_index s'))" by auto
  have "sr_eof_inv N s'" by (rule sr_run_eof_inv [OF sr_inv_new new(3) assms r(1)])
  then have "ByteStream_input_ended (sr_output s') \<longleftrightarrow> sr_eof s' \<and> unat (sr_cur_index s') = N"
    "unat (sr_cur_index s') = N \<longleftrightarrow> {..<N} \<subseteq> sr_offered ?n ops"
    using prefix_complete [OF r(2)] unfolding sr_eof_inv_def sr_ended_def r(3) by blast+
  moreover have "sr_eof s' \<longleftrightarrow> sr_marked ?n ops"
    using sr_run_marked [OF sr_inv_new assms r(1)] by (simp add: StreamReassembler_new_def)
  ultimately show ?thesis using r(1,4) by metis
qed

theorem sr_run_eof_witness:
  "\<exists>s'. sr_run (StreamReassembler_new 4) [SrPush [2, 3] 2 True, SrPush [0, 1] 0 False] =
       Inr (s', []) \<and> ByteStream_input_ended (sr_output s')"
proof -
  let ?ops = "[SrPush [2, 3] 2 True, SrPush [0, 1] 0 False]"
  have "sr_run_pre of_nat 4 (StreamReassembler_new 4) ?ops"
    by (simp add: sr_eval pre_eval)
  from sr_run_eof [OF this] show ?thesis by (simp add: sr_eval)
qed

text \<open>Two pushes commute: in either order both succeed and the reassembler ends up
  holding the same bytes and having assembled the same prefix.\<close>

lemma push_substring_commute:
  assumes "sr_inv S s" and "push_pre S s d i" and "push_pre S s d' i'"
  shows "\<exists>s1 s12 s2 s21.
           StreamReassembler_push_substring s d i e = Inr s1 \<and>
           StreamReassembler_push_substring s1 d' i' e' = Inr s12 \<and>
           StreamReassembler_push_substring s d' i' e' = Inr s2 \<and>
           StreamReassembler_push_substring s2 d i e = Inr s21 \<and>
           received s12 = received s21 \<and> unat (sr_cur_index s12) = unat (sr_cur_index s21)"
  by (rule sra.push_swap [OF assms])

text \<open>C34. The capacity bounds everything the reassembler holds: at any point of a run in which
  substrings start no later than the end of the window (and empty last ones come in order), what
  is stored out of order is exactly what was offered inside the window beyond the assembled
  prefix, and together with the bytes in the output stream it is at most the capacity.\<close>

theorem reassembler_capacity:
  assumes "sr_run_pre S N (StreamReassembler_new c) ops" and "N + unat c + 1 < 2 ^ 64"
  shows "\<exists>s' out. sr_run (StreamReassembler_new c) ops = Inr (s', out) \<and>
           unat (StreamReassembler_unassembled_bytes s') =
             card (sr_offered (StreamReassembler_new c) ops - {..<unat (sr_cur_index s')}) \<and>
           unat (StreamReassembler_unassembled_bytes s') + length (bs_str (sr_output s')) \<le> unat c"
proof -
  let ?n = "StreamReassembler_new c"
  have new: "received ?n = {}" "sr_capacity ?n = c" "sr_eof_inv N ?n"
    by (simp_all add: received_def StreamReassembler_new_def ByteStream_new_def sr_eof_inv_def
        sr_ended_def sponge_defs)
  with sr_run_ok [OF sr_inv_new assms(1)] obtain s' out where
    r: "sr_run ?n ops = Inr (s', out)" "sr_inv S s'" "received s' = sr_offered ?n ops" by auto
  have cap: "sr_capacity s' = c" using sr_run_marked [OF sr_inv_new assms(1) r(1)] new(2) by simp
  have "unat (sr_cur_index s') \<le> N"
    using sr_run_eof_inv [OF sr_inv_new new(3) assms(1) r(1)] by (simp add: sr_eof_inv_def cur_index_le)
  then have "sr_limit s' + 1 < 2 ^ 64" using r(2) cap assms(2) by (simp add: sr_inv_def sr_limit_def)
  from stored_card [OF r(2) this] sr_inv_bounds(2) [OF r(2) this] r(1) cap show ?thesis unfolding r(3) by simp
qed

theorem reassembler_capacity_witness:
  "\<exists>s'. sr_run (StreamReassembler_new 4) [SrPush [0] 0 False, SrPush [2, 3, 4] 2 False] = Inr (s', []) \<and>
     unat (StreamReassembler_unassembled_bytes s') + length (bs_str (sr_output s')) \<le> 4 \<and>
     StreamReassembler_unassembled_bytes s' = 2"
proof -
  let ?ops = "[SrPush [0] 0 False, SrPush [2, 3, 4] 2 False]"
  have "sr_run_pre of_nat 5 (StreamReassembler_new 4) ?ops" by (simp add: sr_eval pre_eval)
  from reassembler_capacity [OF this] show ?thesis by (auto simp: sr_eval)
qed

text \<open>What the hypothesis on an empty last substring is for: a bare end marker that
  overtakes the data (a FIN whose payload is empty, arriving first) is stored as an empty
  interval, counts as nothing, and ends the output stream at once although no byte has
  been assembled.\<close>

lemma empty_eof_overtakes:
  assumes "0 < index" and "index \<le> c" and "c < 0xFFFFFFFFFFFFFFFF"
  shows "\<exists>s'. StreamReassembler_push_substring (StreamReassembler_new c) [] index True = Inr s' \<and>
           ByteStream_input_ended (sr_output s') \<and> sr_cur_index s' = 0"
proof -
  have "c \<noteq> 0" using assms by auto
  moreover have "\<not> index < 0" "index \<noteq> 0" "\<not> c < index" using assms by auto
  ultimately show ?thesis by (simp add: sr_eval)
qed

text \<open>C39. What the condition on the start of a substring is for: in any state with an open window
  and nothing stored, a substring that starts beyond the window is not cut but stored
  whole, whatever its length. When later, after any amount of reading, a substring closes the
  gap before it while the window still ends inside it, the write to the output stream comes
  up short and the reassembler throws.\<close>

theorem beyond_window_throws:
  assumes "sr_inv S s" and "sr_list s = []" and "unat (sr_cur_index s) < sr_limit s" and "sr_limit s < unat i"
    and "d \<noteq> []" and "unat i + length d < 2 ^ 64"
  shows "\<exists>s'. StreamReassembler_push_substring s d i e = Inr s' \<and>
     unat (StreamReassembler_unassembled_bytes s') = length d \<and>
     (\<forall>n g e'. length g = unat i - unat (sr_cur_index s) \<and>
        unat i \<le> sr_limit (fst (StreamReassembler_read s' n)) \<and>
        sr_limit (fst (StreamReassembler_read s' n)) < unat i + length d \<longrightarrow>
        StreamReassembler_push_substring (fst (StreamReassembler_read s' n)) g (sr_cur_index s) e' =
          Inl (RuntimeError ''ByteStream::write() return value not expected.''))"
proof -
  let ?l = "[\<lparr>ln_s = d, ln_beg = i, ln_end = i + of_nat (length d) - 1\<rparr>]"
  have "StreamReassembler_push_substring (fst (StreamReassembler_read (s\<lparr>sr_list := ?l\<rparr>) n)) g (sr_cur_index s) e' =
      Inl (RuntimeError ''ByteStream::write() return value not expected.'')"
    if g: "length g = unat i - unat (sr_cur_index s)"
      "unat i \<le> sr_limit (fst (StreamReassembler_read (s\<lparr>sr_list := ?l\<rparr>) n))"
      "sr_limit (fst (StreamReassembler_read (s\<lparr>sr_list := ?l\<rparr>) n)) < unat i + length d" for n g e'
  proof -
    let ?t = "fst (StreamReassembler_read s n)"
    have r: "fst (StreamReassembler_read (s\<lparr>sr_list := ?l\<rparr>) n) = ?t\<lparr>sr_list := ?l\<rparr>"
      by (simp add: StreamReassembler_read_def split_def)
    have t: "sr_inv S ?t" "sr_cur_index ?t = sr_cur_index s" using read_ok [OF assms(1), of n] by simp_all
    have "sr_limit (?t\<lparr>sr_list := ?l\<rparr>) = sr_limit ?t" by (simp add: sr_limit_def)
    with gap_closed_throws [OF t(1), of i d g e'] t(2) g assms(3-6) show ?thesis unfolding r by simp
  qed
  moreover have "unat (StreamReassembler_unassembled_bytes (s\<lparr>sr_list := ?l\<rparr>)) = length d"
    using assms(6) by (simp add: StreamReassembler_unassembled_bytes_def unat_of_nat64)
  ultimately show ?thesis using beyond_window_stored [OF assms] by blast
qed

theorem beyond_window_throws_witness:
  "sr_run (StreamReassembler_new 4)
     [SrPush [1, 2] 0 False, SrPush [6, 7, 8, 9, 10] 5 False, SrRead 2, SrPush [3, 4, 5] 2 False] =
   Inl (RuntimeError ''ByteStream::write() return value not expected.'')"
proof -
  let ?S = "\<lambda>n. of_nat (n + 1)"
  define s where "s = (StreamReassembler_new 4)\<lparr>sr_cur_index := 2,
    sr_output := (ByteStream_new 4)\<lparr>bs_str := [1, 2], bs_cur_cap := 2, bs_bytes_written := 2\<rparr>\<rparr>"
  have p: "StreamReassembler_push_substring (StreamReassembler_new 4) [1, 2] 0 False = Inr s"
    by (simp add: sr_eval s_def)
  have "push_pre ?S (StreamReassembler_new 4) [1, 2] 0" by (simp add: pre_eval sr_eval)
  from reassembly_push_law [OF sr_inv_new this, of False] p have inv: "sr_inv ?S s" by simp
  have f: "sr_list s = []" "sr_cur_index s = 2" "sr_limit s = 4"
    by (simp_all add: s_def StreamReassembler_new_def ByteStream_new_def sr_limit_def)
  obtain s' where s': "StreamReassembler_push_substring s [6, 7, 8, 9, 10] 5 False = Inr s'"
    "\<forall>n g e'. length g = 3 \<and> 5 \<le> sr_limit (fst (StreamReassembler_read s' n)) \<and>
        sr_limit (fst (StreamReassembler_read s' n)) < 10 \<longrightarrow>
        StreamReassembler_push_substring (fst (StreamReassembler_read s' n)) g 2 e' =
          Inl (RuntimeError ''ByteStream::write() return value not expected.'')"
    using beyond_window_throws [OF inv f(1), of 5 "[6, 7, 8, 9, 10]" False] unfolding f(2,3) by auto
  have "sr_limit (fst (StreamReassembler_read s' 2)) = 6"
    using s'(1) by (auto simp: sr_eval s_def sr_limit_def)
  with s'(2) [rule_format, of "[3, 4, 5]" 2 False] p s'(1) show ?thesis by (simp add: split_def)
qed

end
