(* ===== verification/TCP_Receiver.thy ===== *)
theory TCP_Receiver
  imports Stream_Reassembler TCP_Segment
begin

text \<open>
  The receiver of \<open>libsponge/tcp_receiver.hh\<close> and \<open>libsponge/tcp_receiver.cc\<close>: it translates
  sequence numbers into stream indices for the reassembler and computes the
  acknowledgment number and the window size for the peer.
\<close>

section \<open>The class\<close>

record TCPReceiver =
  rcv_reassembler :: StreamReassembler
  rcv_isn :: "WrappingInt32 option"
  rcv_capacity :: u64

definition TCPReceiver_new :: "u64 \<Rightarrow> TCPReceiver" where
  "TCPReceiver_new capacity =
     \<lparr>rcv_reassembler = StreamReassembler_new capacity, rcv_isn = None, rcv_capacity = capacity\<rparr>"

definition TCPReceiver_stream_out :: "TCPReceiver \<Rightarrow> ByteStream" where
  "TCPReceiver_stream_out r = sr_output (rcv_reassembler r)"

definition TCPReceiver_unassembled_bytes :: "TCPReceiver \<Rightarrow> u64" where
  "TCPReceiver_unassembled_bytes r = StreamReassembler_unassembled_bytes (rcv_reassembler r)"

definition TCPReceiver_segment_received :: "TCPReceiver \<Rightarrow> TCPSegment \<Rightarrow> exn + TCPReceiver" where
  "TCPReceiver_segment_received r seg =
     (let data_start = th_seqno (ts_header seg);
          (r, data_start) =
            (if th_syn (ts_header seg)
             then (r\<lparr>rcv_isn := Some (th_seqno (ts_header seg))\<rparr>, wi_add data_start 1)
             else (r, data_start))
      in case rcv_isn r of
           None \<Rightarrow> Inr r
         | Some isn \<Rightarrow>
             if isn = data_start then Inr r
             else
               (case StreamReassembler_push_substring (rcv_reassembler r)
                       (Buffer_copy (ts_payload seg))
                       (unwrap data_start isn (sr_cur_index (rcv_reassembler r)) - 1)
                       (th_fin (ts_header seg)) of
                  Inl e \<Rightarrow> Inl e
                | Inr s \<Rightarrow> Inr (r\<lparr>rcv_reassembler := s\<rparr>)))"

definition TCPReceiver_ackno :: "TCPReceiver \<Rightarrow> WrappingInt32 option" where
  "TCPReceiver_ackno r =
     (case rcv_isn r of
        None \<Rightarrow> None
      | Some isn \<Rightarrow>
          let asn = sr_cur_index (rcv_reassembler r) + 1;
              asn = (if ByteStream_input_ended (TCPReceiver_stream_out r) then asn + 1 else asn)
          in Some (wrap asn isn))"

definition TCPReceiver_window_size :: "TCPReceiver \<Rightarrow> u64" where
  "TCPReceiver_window_size r =
     rcv_capacity r - ByteStream_buffer_size (TCPReceiver_stream_out r)"

section \<open>From sequence numbers to stream indices\<close>

text \<open>
  A segment of the connection with initial sequence number \<open>isn\<close> whose payload starts at
  stream index \<open>i\<close>, near enough to what has been assembled for its sequence number to be
  unambiguous. The last condition leaves out the segments whose first byte has an absolute
  sequence number that is a multiple of \<open>2 ^ 32\<close>, which the code does not accept.
\<close>

definition seg_data_start :: "TCPSegment \<Rightarrow> WrappingInt32" where
  "seg_data_start seg =
     (if th_syn (ts_header seg) then wi_add (th_seqno (ts_header seg)) 1 else th_seqno (ts_header seg))"

definition carries :: "WrappingInt32 \<Rightarrow> StreamReassembler \<Rightarrow> TCPSegment \<Rightarrow> u64 \<Rightarrow> bool" where
  "carries isn s seg i \<longleftrightarrow> unat i + 1 < 2 ^ 64 \<and> seg_data_start seg = wrap (i + 1) isn \<and>
     (th_syn (ts_header seg) \<longrightarrow> th_seqno (ts_header seg) = isn) \<and>
     unat i + 1 < unat (sr_cur_index s) + 2 ^ 31 \<and> unat (sr_cur_index s) < unat i + 1 + 2 ^ 31 \<and>
     wrap (i + 1) isn \<noteq> isn"

definition rcv_push :: "TCPReceiver \<Rightarrow> WrappingInt32 \<Rightarrow> TCPSegment \<Rightarrow> u64 \<Rightarrow> exn + TCPReceiver" where
  "rcv_push r isn seg i =
     map_sum id (\<lambda>s. r\<lparr>rcv_isn := Some isn, rcv_reassembler := s\<rparr>)
       (StreamReassembler_push_substring (rcv_reassembler r) (Buffer_str (ts_payload seg)) i
          (th_fin (ts_header seg)))"

lemma segment_received_push:
  assumes "carries isn (rcv_reassembler r) seg i"
    and "rcv_isn r = Some isn \<or> th_syn (ts_header seg)"
  shows "TCPReceiver_segment_received r seg = rcv_push r isn seg i"
proof -
  have i: "unat (i + 1) = unat i + 1" using assms(1) by (simp add: carries_def unat_succ64)
  have u: "unwrap (seg_data_start seg) isn (sr_cur_index (rcv_reassembler r)) = i + 1"
    using assms(1) unfolding carries_def by (metis seqno.from_to i)
  have ne: "seg_data_start seg \<noteq> isn" using assms(1) by (simp add: carries_def)
  show ?thesis
  proof (cases "th_syn (ts_header seg)")
    case True
    with assms(1) have "th_seqno (ts_header seg) = isn" by (simp add: carries_def)
    with True u ne show ?thesis
      by (auto simp: TCPReceiver_segment_received_def rcv_push_def seg_data_start_def Let_def
          split: sum.split)
  next
    case False
    with assms(2) have isn: "rcv_isn r = Some isn" by simp
    then have "r\<lparr>rcv_isn := Some isn\<rparr> = r" by (cases r) simp
    with False isn u ne show ?thesis
      by (auto simp: TCPReceiver_segment_received_def rcv_push_def seg_data_start_def Let_def
          split: sum.split)
  qed
qed

lemma segment_before_syn:
  "rcv_isn r = None \<Longrightarrow> \<not> th_syn (ts_header seg) \<Longrightarrow> TCPReceiver_segment_received r seg = Inr r"
  by (simp add: TCPReceiver_segment_received_def)

section \<open>Runs of the receiver\<close>

datatype rcv_op = RcvSegment TCPSegment u64 | RcvRead u64

text \<open>The second argument of \<open>RcvSegment\<close> is the stream index of the payload, for the proofs only.\<close>

definition rcv_read :: "TCPReceiver \<Rightarrow> u64 \<Rightarrow> TCPReceiver \<times> bytes" where
  "rcv_read r n =
     (case StreamReassembler_read (rcv_reassembler r) n of (s, d) \<Rightarrow> (r\<lparr>rcv_reassembler := s\<rparr>, d))"

fun rcv_run :: "TCPReceiver \<Rightarrow> rcv_op list \<Rightarrow> exn + TCPReceiver \<times> bytes" where
  "rcv_run r [] = Inr (r, [])"
| "rcv_run r (RcvSegment seg i # ops) =
     (case TCPReceiver_segment_received r seg of Inl e \<Rightarrow> Inl e | Inr r' \<Rightarrow> rcv_run r' ops)"
| "rcv_run r (RcvRead n # ops) =
     (let (r', d) = rcv_read r n in map_sum id (map_prod id (\<lambda>out. d @ out)) (rcv_run r' ops))"

definition rcv_ignores :: "TCPReceiver \<Rightarrow> TCPSegment \<Rightarrow> bool" where
  "rcv_ignores r seg \<longleftrightarrow> rcv_isn r = None \<and> \<not> th_syn (ts_header seg)"

text \<open>
  Every segment that arrives belongs to the stream \<open>S\<close> of \<open>N\<close> bytes sent with initial
  sequence number \<open>isn\<close>; segments that arrive before the SYN may be anything.
\<close>

fun rcv_run_pre :: "(nat \<Rightarrow> u8) \<Rightarrow> nat \<Rightarrow> WrappingInt32 \<Rightarrow> TCPReceiver \<Rightarrow> rcv_op list \<Rightarrow> bool" where
  "rcv_run_pre S N isn r [] = True"
| "rcv_run_pre S N isn r (RcvSegment seg i # ops) \<longleftrightarrow>
     (if rcv_ignores r seg then rcv_run_pre S N isn r ops
      else carries isn (rcv_reassembler r) seg i \<and>
           push_pre S (rcv_reassembler r) (Buffer_str (ts_payload seg)) i \<and>
           fin_pre N (rcv_reassembler r) (Buffer_str (ts_payload seg)) i (th_fin (ts_header seg)) \<and>
           (case TCPReceiver_segment_received r seg of
              Inl e \<Rightarrow> True | Inr r' \<Rightarrow> rcv_run_pre S N isn r' ops))"
| "rcv_run_pre S N isn r (RcvRead n # ops) = rcv_run_pre S N isn (fst (rcv_read r n)) ops"

text \<open>What the reassembler sees of a run.\<close>

fun rcv_pushes :: "TCPReceiver \<Rightarrow> rcv_op list \<Rightarrow> sr_op list" where
  "rcv_pushes r [] = []"
| "rcv_pushes r (RcvSegment seg i # ops) =
     (if rcv_ignores r seg then rcv_pushes r ops
      else SrPush (Buffer_str (ts_payload seg)) i (th_fin (ts_header seg)) #
             (case TCPReceiver_segment_received r seg of Inl e \<Rightarrow> [] | Inr r' \<Rightarrow> rcv_pushes r' ops))"
| "rcv_pushes r (RcvRead n # ops) = SrRead n # rcv_pushes (fst (rcv_read r n)) ops"

definition rcv_isn_ok :: "WrappingInt32 \<Rightarrow> TCPReceiver \<Rightarrow> bool" where
  "rcv_isn_ok isn r \<longleftrightarrow> rcv_isn r = None \<or> rcv_isn r = Some isn"

definition rcv_simulates :: "WrappingInt32 \<Rightarrow> exn + StreamReassembler \<times> bytes \<Rightarrow>
    exn + TCPReceiver \<times> bytes \<Rightarrow> bool" where
  "rcv_simulates isn x y \<longleftrightarrow>
     (case x of
        Inl e \<Rightarrow> y = Inl e
      | Inr (s, out) \<Rightarrow> \<exists>r'. y = Inr (r', out) \<and> rcv_reassembler r' = s \<and> rcv_isn_ok isn r')"

lemma rcv_run_simulates:
  assumes "rcv_isn_ok isn r" and "rcv_run_pre S N isn r ops"
  shows "sr_run_pre S N (rcv_reassembler r) (rcv_pushes r ops) \<and>
         rcv_simulates isn (sr_run (rcv_reassembler r) (rcv_pushes r ops)) (rcv_run r ops)"
  using assms
proof (induction r ops rule: rcv_run.induct)
  case (1 r)
  then show ?case by (simp add: rcv_simulates_def)
next
  case (2 r seg i ops)
  show ?case
  proof (cases "rcv_ignores r seg")
    case True
    then have "TCPReceiver_segment_received r seg = Inr r"
      by (simp add: rcv_ignores_def segment_before_syn)
    with 2 True show ?thesis by simp
  next
    case False
    with 2(2,3) have eq: "TCPReceiver_segment_received r seg = rcv_push r isn seg i"
      by (intro segment_received_push) (auto simp: rcv_ignores_def rcv_isn_ok_def)
    show ?thesis
    proof (cases "StreamReassembler_push_substring (rcv_reassembler r) (Buffer_str (ts_payload seg)) i
        (th_fin (ts_header seg))")
      case (Inl e)
      with 2(3) False eq show ?thesis by (simp add: rcv_push_def rcv_simulates_def)
    next
      case (Inr s)
      let ?r = "r\<lparr>rcv_isn := Some isn, rcv_reassembler := s\<rparr>"
      have r: "TCPReceiver_segment_received r seg = Inr ?r" using eq Inr by (simp add: rcv_push_def)
      have "rcv_isn_ok isn ?r" by (simp add: rcv_isn_ok_def)
      with 2(1) [OF r] 2(3) False r Inr show ?thesis by (simp add: rcv_simulates_def)
    qed
  qed
next
  case (3 r n ops)
  obtain s d where sd: "StreamReassembler_read (rcv_reassembler r) n = (s, d)" by fastforce
  let ?r = "r\<lparr>rcv_reassembler := s\<rparr>"
  have rd: "rcv_read r n = (?r, d)" by (simp add: rcv_read_def sd)
  have "rcv_isn_ok isn ?r" "rcv_run_pre S N isn ?r ops"
    using 3(2,3) rd by (simp_all add: rcv_isn_ok_def)
  with 3(1) rd have IH: "sr_run_pre S N s (rcv_pushes ?r ops)"
    "rcv_simulates isn (sr_run s (rcv_pushes ?r ops)) (rcv_run ?r ops)" by simp_all
  with sd rd show ?case
    by (auto simp: rcv_simulates_def split: sum.splits)
qed

text \<open>The window: the acknowledged prefix plus the advertised window ends exactly at the
  first index the reassembler would refuse, and what is buffered plus the window is the
  capacity.\<close>

lemma receiver_window:
  assumes "sr_inv S (rcv_reassembler r)" and "rcv_capacity r = sr_capacity (rcv_reassembler r)"
  shows "unat (sr_cur_index (rcv_reassembler r)) + unat (TCPReceiver_window_size r) =
           sr_limit (rcv_reassembler r) \<and>
         unat (TCPReceiver_window_size r) + length (bs_str (TCPReceiver_stream_out r)) =
           unat (rcv_capacity r)"
proof -
  let ?o = "sr_output (rcv_reassembler r)"
  have inv: "bs_inv ?o" "bs_capacity ?o = rcv_capacity r"
    "unat (bs_bytes_read ?o) + length (bs_str ?o) = unat (sr_cur_index (rcv_reassembler r))"
    using assms by (simp_all add: sr_inv_def)
  have "unat (TCPReceiver_window_size r) = unat (rcv_capacity r) - length (bs_str ?o)"
    using remaining_capacity_unat [OF inv(1)] inv(2)
    by (simp add: TCPReceiver_window_size_def TCPReceiver_stream_out_def sponge_defs)
  with bs_inv_length [OF inv(1)] inv assms(2) show ?thesis
    by (simp add: TCPReceiver_stream_out_def sr_limit_def)
qed

text \<open>Two segments of the stream 0, 1, 2 for the examples.\<close>

abbreviation syn_seg :: TCPSegment where
  "syn_seg \<equiv> \<lparr>ts_header = TCPHeader_default\<lparr>th_seqno := WrappingInt32 5, th_syn := True\<rparr>,
     ts_payload = Buffer_new [0, 1]\<rparr>"

abbreviation fin_seg :: TCPSegment where
  "fin_seg \<equiv> \<lparr>ts_header = TCPHeader_default\<lparr>th_seqno := WrappingInt32 8, th_fin := True\<rparr>,
     ts_payload = Buffer_new [2]\<rparr>"

section \<open>Properties\<close>

text \<open>C1. The receiver and the segments of a stream of \<open>N\<close> bytes, reordered, duplicated,
  overlapping or partly lost, with the reader taking bytes in between. The segments that
  arrive after the SYN are asked to start no later than the end of the window and within
  \<open>2 ^ 31\<close> of what is assembled, not to start at an absolute sequence number that is a multiple of
  \<open>2 ^ 32\<close>, and a FIN without payload is asked not to overtake data; on each of these the code
  fails, as other properties show. Then no call throws; what was read followed by what
  is buffered is the prefix of the stream that ends at the first byte no segment
  has brought inside the window; once the SYN has arrived the acknowledgment number is the
  sequence number of that byte (past the FIN when the stream has ended); and the stream is
  ended exactly when a FIN has come in an open window that it fits and every byte has been brought,
  so that the whole stream was delivered.\<close>

theorem receiver_delivers_stream:
  assumes "rcv_run_pre S N isn (TCPReceiver_new c) ops"
  shows "\<exists>r' out. rcv_run (TCPReceiver_new c) ops = Inr (r', out) \<and>
     (let delivered = out @ bs_str (TCPReceiver_stream_out r');
          pushes = rcv_pushes (TCPReceiver_new c) ops;
          brought = sr_offered (StreamReassembler_new c) pushes;
          ended = ByteStream_input_ended (TCPReceiver_stream_out r')
      in delivered = sslice S 0 (length delivered) \<and>
         {..<length delivered} \<subseteq> brought \<and> length delivered \<notin> brought \<and>
         (rcv_isn r' \<noteq> None \<longrightarrow>
            TCPReceiver_ackno r' = Some (wrap (of_nat (length delivered) + 1 + (if ended then 1 else 0)) isn)) \<and>
         (ended \<longleftrightarrow> sr_marked (StreamReassembler_new c) pushes \<and> {..<N} \<subseteq> brought) \<and>
         (ended \<longrightarrow> length delivered = N))"
proof -
  let ?r = "TCPReceiver_new c" let ?s = "StreamReassembler_new c" let ?p = "rcv_pushes ?r ops"
  have rs: "rcv_reassembler ?r = ?s" and "rcv_isn_ok isn ?r"
    by (simp_all add: TCPReceiver_new_def rcv_isn_ok_def)
  from rcv_run_simulates [OF this(2) assms] have
    pre: "sr_run_pre S N ?s ?p" and sim: "rcv_simulates isn (sr_run ?s ?p) (rcv_run ?r ops)"
    unfolding rs by blast+
  have new: "received ?s = {}" "bs_bytes_read (sr_output ?s) = 0" "sr_eof_inv N ?s" "\<not> sr_eof ?s"
    by (simp_all add: received_def StreamReassembler_new_def ByteStream_new_def sr_eof_inv_def sr_ended_def sponge_defs)
  with sr_run_ok [OF sr_inv_new pre] obtain s' out where
    s': "sr_run ?s ?p = Inr (s', out)" "sr_inv S s'" "received s' = sr_offered ?s ?p"
    "out @ bs_str (sr_output s') = sslice S 0 (unat (sr_cur_index s'))" by auto
  have e: "sr_eof_inv N s'" by (rule sr_run_eof_inv [OF sr_inv_new new(3) pre s'(1)])
  have m: "sr_eof s' \<longleftrightarrow> sr_marked ?s ?p" using sr_run_marked [OF sr_inv_new pre s'(1)] new(4) by simp
  have "ByteStream_input_ended (sr_output s') \<longleftrightarrow> sr_marked ?s ?p \<and> {..<N} \<subseteq> sr_offered ?s ?p"
    "ByteStream_input_ended (sr_output s') \<longrightarrow> unat (sr_cur_index s') = N"
    using e m prefix_complete [OF s'(2)] unfolding sr_eof_inv_def sr_ended_def s'(3) by blast+
  moreover from sim s'(1) obtain r' where
    r': "rcv_run ?r ops = Inr (r', out)" "rcv_reassembler r' = s'" "rcv_isn_ok isn r'"
    by (auto simp: rcv_simulates_def)
  moreover have out: "TCPReceiver_stream_out r' = sr_output s'" using r'(2) by (simp add: TCPReceiver_stream_out_def)
  moreover have len: "length (out @ bs_str (sr_output s')) = unat (sr_cur_index s')" unfolding s'(4) by simp
  moreover have "rcv_isn r' \<noteq> None \<longrightarrow> TCPReceiver_ackno r' =
      Some (wrap (of_nat (unat (sr_cur_index s')) + 1 + (if ByteStream_input_ended (sr_output s') then 1 else 0)) isn)"
    using r'(2,3) out by (auto simp: TCPReceiver_ackno_def rcv_isn_ok_def Let_def)
  moreover note received_prefix [of s', unfolded s'(3)] cur_index_least_missing [OF s'(2), unfolded s'(3)] s'(4)
  ultimately show ?thesis unfolding Let_def by (intro exI [of _ r'] exI [of _ out]) (simp only: out len, simp)
qed

theorem receiver_delivers_stream_witness:
  "\<exists>r'. rcv_run (TCPReceiver_new 4) [RcvSegment fin_seg 9, RcvSegment syn_seg 0, RcvSegment fin_seg 2, RcvRead 1] =
      Inr (r', [0]) \<and> bs_str (TCPReceiver_stream_out r') = [1, 2] \<and>
      TCPReceiver_ackno r' = Some (WrappingInt32 10)"
proof -
  have "rcv_run_pre of_nat 3 (WrappingInt32 5) (TCPReceiver_new 4)
      [RcvSegment fin_seg 9, RcvSegment syn_seg 0, RcvSegment fin_seg 2, RcvRead 1]"
    by (simp add: TCPReceiver_new_def rcv_ignores_def TCPHeader_default_def carries_def seg_data_start_def
        wrap_eq wi_add_def pre_eval sr_eval TCPReceiver_segment_received_def unwrap_def wi_minus_def)
  from receiver_delivers_stream [OF this] show ?thesis
    by (simp add: Let_def TCPReceiver_new_def rcv_ignores_def TCPHeader_default_def carries_def seg_data_start_def
        wrap_eq wi_add_def sr_eval TCPReceiver_segment_received_def unwrap_def wi_minus_def rcv_read_def
        TCPReceiver_stream_out_def TCPReceiver_ackno_def sslice_def upt_rec)
qed

text \<open>C37. Where the receiver stalls: when the number of assembled bytes is one less than a
  positive multiple of \<open>2 ^ 32\<close>, a segment that starts at exactly the acknowledged position
  carries the initial sequence number again, the code takes it for an invalid one, and the
  segment changes nothing, however often it is retransmitted.\<close>

theorem receiver_stalls_at_4GiB:
  assumes "rcv_isn r = Some isn" and "unat (sr_cur_index (rcv_reassembler r)) + 1 = k * 2 ^ 32"
    and "unat (sr_cur_index (rcv_reassembler r)) + 1 < 2 ^ 64"
    and "\<not> ByteStream_input_ended (TCPReceiver_stream_out r)"
    and "\<not> th_syn (ts_header seg)" and "TCPReceiver_ackno r = Some (th_seqno (ts_header seg))"
  shows "TCPReceiver_segment_received r seg = Inr r"
proof -
  have "unat (sr_cur_index (rcv_reassembler r) + 1) mod 2 ^ 32 = 0"
    using assms(2,3) by (simp add: unat_succ64)
  then have "wrap (sr_cur_index (rcv_reassembler r) + 1) isn = isn" by (simp add: wrap_iff)
  with assms(1,4,6) have "th_seqno (ts_header seg) = isn"
    by (simp add: TCPReceiver_ackno_def)
  with assms(1,5) show ?thesis by (simp add: TCPReceiver_segment_received_def)
qed

theorem receiver_stalls_at_4GiB_witness:
  "TCPReceiver_segment_received
     \<lparr>rcv_reassembler = (StreamReassembler_new 8)\<lparr>sr_cur_index := 0xFFFFFFFF\<rparr>,
      rcv_isn = Some (WrappingInt32 7), rcv_capacity = 8\<rparr>
     (TCPSegment_default\<lparr>ts_header := TCPHeader_default\<lparr>th_seqno := WrappingInt32 7\<rparr>,
        ts_payload := Buffer_new [1]\<rparr>) =
   Inr \<lparr>rcv_reassembler = (StreamReassembler_new 8)\<lparr>sr_cur_index := 0xFFFFFFFF\<rparr>,
      rcv_isn = Some (WrappingInt32 7), rcv_capacity = 8\<rparr>"
  by (rule receiver_stalls_at_4GiB [where k = 1 and isn = "WrappingInt32 7"])
    (simp_all add: TCPReceiver_stream_out_def TCPReceiver_ackno_def StreamReassembler_new_def
      ByteStream_new_def sponge_defs TCPHeader_default_def wrap_eq)

text \<open>Segments that arrive before the SYN are ignored, and the SYN sets the initial sequence
  number the peer chose.\<close>

lemma receiver_needs_syn:
  "(rcv_isn r = None \<and> \<not> th_syn (ts_header seg) \<longrightarrow>
      TCPReceiver_segment_received r seg = Inr r \<and> TCPReceiver_ackno r = None) \<and>
   (th_syn (ts_header seg) \<and> TCPReceiver_segment_received r seg = Inr r' \<longrightarrow>
      rcv_isn r' = Some (th_seqno (ts_header seg)))"
  by (auto simp: TCPReceiver_segment_received_def TCPReceiver_ackno_def Let_def
      split: if_splits sum.splits)

end
