(* ===== verification/TCP_Sender.thy ===== *)
theory TCP_Sender
  imports Byte_Stream TCP_Segment TCP_Config
begin

text \<open>
  The sender of \<open>libsponge/tcp_sender.hh\<close> and \<open>libsponge/tcp_sender.cc\<close>: the
  retransmission timer, the window-filling loop that cuts the outgoing byte stream into
  segments, the processing of acknowledgments, and retransmission with exponential
  back-off.
\<close>

section \<open>RetransmissionTimer\<close>

record RetransmissionTimer =
  rt_ddl :: u64
  rt_cur :: u64
  rt_is_start :: bool

definition RetransmissionTimer_new :: RetransmissionTimer where
  "RetransmissionTimer_new = \<lparr>rt_ddl = 0, rt_cur = 0, rt_is_start = False\<rparr>"

definition RetransmissionTimer_expired :: "RetransmissionTimer \<Rightarrow> bool" where
  "RetransmissionTimer_expired t = (if rt_is_start t then rt_ddl t \<le> rt_cur t else False)"

definition RetransmissionTimer_start :: "RetransmissionTimer \<Rightarrow> u64 \<Rightarrow> RetransmissionTimer" where
  "RetransmissionTimer_start t ddl =
     (if rt_is_start t then t else t\<lparr>rt_ddl := ddl, rt_cur := 0, rt_is_start := True\<rparr>)"

definition RetransmissionTimer_stop :: "RetransmissionTimer \<Rightarrow> RetransmissionTimer" where
  "RetransmissionTimer_stop t = t\<lparr>rt_is_start := False, rt_cur := 0, rt_ddl := 0\<rparr>"

definition RetransmissionTimer_tick :: "RetransmissionTimer \<Rightarrow> u64 \<Rightarrow> RetransmissionTimer" where
  "RetransmissionTimer_tick t time =
     (if \<not> rt_is_start t then t else t\<lparr>rt_cur := rt_cur t + time\<rparr>)"

lemmas RetransmissionTimer_defs =
  RetransmissionTimer_new_def RetransmissionTimer_expired_def RetransmissionTimer_start_def
  RetransmissionTimer_stop_def RetransmissionTimer_tick_def

section \<open>TCPSender\<close>

text \<open>The two \<open>std::queue\<close> members are lists with the front of the queue first.\<close>

record TCPSender =
  snd_isn :: WrappingInt32
  snd_segments_out :: "TCPSegment list"
  snd_initial_retransmission_timeout :: u32
  snd_stream :: ByteStream
  snd_next_seqno :: u64
  snd_window_size :: u64
  snd_bytes_in_flight :: u64
  snd_una_seqno :: u64
  snd_outstanding_segments :: "TCPSegment list"
  snd_timer :: RetransmissionTimer
  snd_cur_time :: u64
  snd_cur_rto :: u64
  snd_consecutive_retrans_times :: u32
  snd_is_transmission_ended :: bool

text \<open>
  The random initial sequence number that the constructor draws from
  \<open>std::random_device\<close> is its last argument.
\<close>

definition TCPSender_new :: "u64 \<Rightarrow> u16 \<Rightarrow> WrappingInt32 option \<Rightarrow> u32 \<Rightarrow> TCPSender" where
  "TCPSender_new capacity retx_timeout fixed_isn random =
     \<lparr>snd_isn = (case fixed_isn of Some isn \<Rightarrow> isn | None \<Rightarrow> WrappingInt32 random),
      snd_segments_out = [], snd_initial_retransmission_timeout = ucast retx_timeout,
      snd_stream = ByteStream_new capacity, snd_next_seqno = 0, snd_window_size = 1,
      snd_bytes_in_flight = 0, snd_una_seqno = 0, snd_outstanding_segments = [],
      snd_timer = RetransmissionTimer_new, snd_cur_time = 0, snd_cur_rto = ucast retx_timeout,
      snd_consecutive_retrans_times = 0, snd_is_transmission_ended = False\<rparr>"

definition TCPSender_bytes_in_flight :: "TCPSender \<Rightarrow> u64" where
  "TCPSender_bytes_in_flight s = snd_bytes_in_flight s"

definition TCPSender_consecutive_retransmissions :: "TCPSender \<Rightarrow> u32" where
  "TCPSender_consecutive_retransmissions s = snd_consecutive_retrans_times s"

definition TCPSender_next_seqno_absolute :: "TCPSender \<Rightarrow> u64" where
  "TCPSender_next_seqno_absolute s = snd_next_seqno s"

definition TCPSender_next_seqno :: "TCPSender \<Rightarrow> WrappingInt32" where
  "TCPSender_next_seqno s = wrap (snd_next_seqno s) (snd_isn s)"

lemmas TCPSender_accessors [sponge_defs] =
  TCPSender_bytes_in_flight_def TCPSender_consecutive_retransmissions_def
  TCPSender_next_seqno_absolute_def TCPSender_next_seqno_def

text \<open>
  One round of the loop of \<open>fill_window\<close>, in the order of the code: number the segment and
  set SYN, take the payload from the stream, set FIN, enqueue the segment. The segment
  \<open>seg\<close> is declared before the loop, so a round starts from what the previous round left
  in it.
\<close>

definition fill_syn :: "TCPSender \<Rightarrow> TCPSegment \<Rightarrow> TCPSender \<times> TCPSegment" where
  "fill_syn s seg =
     (let seg = seg\<lparr>ts_header := (ts_header seg)\<lparr>th_seqno := wrap (snd_next_seqno s) (snd_isn s)\<rparr>\<rparr>
      in if snd_next_seqno s = 0
         then (s\<lparr>snd_next_seqno := snd_next_seqno s + 1,
                 snd_bytes_in_flight := snd_bytes_in_flight s + 1\<rparr>,
               seg\<lparr>ts_header := (ts_header seg)\<lparr>th_syn := True\<rparr>\<rparr>)
         else (s, seg))"

definition fill_payload :: "u64 \<Rightarrow> TCPSender \<Rightarrow> TCPSegment \<Rightarrow> TCPSender \<times> TCPSegment \<times> u64" where
  "fill_payload actual_window_size s seg =
     (let read_size = min (actual_window_size - snd_bytes_in_flight s) MAX_PAYLOAD_SIZE;
          (stream, data) = ByteStream_read (snd_stream s) read_size;
          seg = seg\<lparr>ts_payload := Buffer_new data\<rparr>;
          read_size = Buffer_size (ts_payload seg)
      in (s\<lparr>snd_stream := stream,
            snd_bytes_in_flight := snd_bytes_in_flight s + read_size,
            snd_next_seqno := snd_next_seqno s + read_size\<rparr>, seg, read_size))"

definition fill_fin :: "u64 \<Rightarrow> TCPSender \<Rightarrow> TCPSegment \<Rightarrow> TCPSender \<times> TCPSegment" where
  "fill_fin actual_window_size s seg =
     (if ByteStream_input_ended (snd_stream s) \<and> ByteStream_eof (snd_stream s) \<and>
         actual_window_size - snd_bytes_in_flight s \<noteq> 0
      then (s\<lparr>snd_next_seqno := snd_next_seqno s + 1,
              snd_bytes_in_flight := snd_bytes_in_flight s + 1,
              snd_is_transmission_ended := True\<rparr>,
            seg\<lparr>ts_header := (ts_header seg)\<lparr>th_fin := True\<rparr>\<rparr>)
      else (s, seg))"

definition fill_push :: "u64 \<Rightarrow> TCPSender \<Rightarrow> TCPSegment \<Rightarrow> TCPSender" where
  "fill_push read_size s seg =
     (if read_size \<noteq> 0 \<or> th_syn (ts_header seg) \<or> th_fin (ts_header seg)
      then s\<lparr>snd_segments_out := snd_segments_out s @ [seg],
             snd_outstanding_segments := snd_outstanding_segments s @ [seg],
             snd_timer := RetransmissionTimer_start (snd_timer s) (snd_cur_rto s)\<rparr>
      else s)"

definition fill_round :: "u64 \<Rightarrow> TCPSender \<Rightarrow> TCPSegment \<Rightarrow> TCPSender \<times> TCPSegment" where
  "fill_round actual_window_size s seg =
     (let (s, seg) = fill_syn s seg;
          (s, seg, read_size) = fill_payload actual_window_size s seg;
          (s, seg) = fill_fin actual_window_size s seg
      in (fill_push read_size s seg, seg))"

text \<open>
  The rounds repeat while bytes are left to send and the window has room; each of them
  takes at least one byte from the stream, for any state of the sender.
\<close>

function fill_loop :: "u64 \<Rightarrow> TCPSender \<Rightarrow> TCPSegment \<Rightarrow> TCPSender" where
  "fill_loop actual_window_size s seg =
     (if snd_is_transmission_ended s then s
      else
        let r = fill_round actual_window_size s seg
        in if \<not> ByteStream_buffer_empty (snd_stream (fst r)) \<and>
              actual_window_size - snd_bytes_in_flight (fst r) \<noteq> 0
           then fill_loop actual_window_size (fst r) (snd r)
           else fst r)"
  by pat_completeness auto

text \<open>What the variables of a round hold.\<close>

definition round_bif :: "TCPSender \<Rightarrow> u64" where
  "round_bif s = snd_bytes_in_flight s + (if snd_next_seqno s = 0 then 1 else 0)"

definition round_read :: "u64 \<Rightarrow> TCPSender \<Rightarrow> ByteStream \<times> bytes" where
  "round_read w s = ByteStream_read (snd_stream s) (min (w - round_bif s) MAX_PAYLOAD_SIZE)"

definition round_len :: "u64 \<Rightarrow> TCPSender \<Rightarrow> u64" where
  "round_len w s = of_nat (length (snd (round_read w s)))"

definition round_fin :: "u64 \<Rightarrow> TCPSender \<Rightarrow> bool" where
  "round_fin w s \<longleftrightarrow> ByteStream_eof (fst (round_read w s)) \<and> w - (round_bif s + round_len w s) \<noteq> 0"

definition round_next :: "u64 \<Rightarrow> TCPSender \<Rightarrow> u64" where
  "round_next w s = snd_next_seqno s + (if snd_next_seqno s = 0 then 1 else 0) + round_len w s +
     (if round_fin w s then 1 else 0)"

definition round_seg :: "u64 \<Rightarrow> TCPSender \<Rightarrow> TCPSegment \<Rightarrow> TCPSegment" where
  "round_seg w s seg =
     seg\<lparr>ts_payload := Buffer_new (snd (round_read w s)),
         ts_header := (ts_header seg)
           \<lparr>th_seqno := wrap (snd_next_seqno s) (snd_isn s),
            th_syn := (th_syn (ts_header seg) \<or> snd_next_seqno s = 0),
            th_fin := (th_fin (ts_header seg) \<or> round_fin w s)\<rparr>\<rparr>"

definition round_state :: "u64 \<Rightarrow> TCPSender \<Rightarrow> TCPSender" where
  "round_state w s =
     s\<lparr>snd_stream := fst (round_read w s),
       snd_next_seqno := round_next w s,
       snd_bytes_in_flight := round_bif s + round_len w s + (if round_fin w s then 1 else 0),
       snd_is_transmission_ended := (snd_is_transmission_ended s \<or> round_fin w s)\<rparr>"

lemma fill_syn_eq:
  "fill_syn s seg =
     (s\<lparr>snd_next_seqno := snd_next_seqno s + (if snd_next_seqno s = 0 then 1 else 0),
        snd_bytes_in_flight := round_bif s\<rparr>,
      seg\<lparr>ts_header := (ts_header seg)
            \<lparr>th_seqno := wrap (snd_next_seqno s) (snd_isn s),
             th_syn := (th_syn (ts_header seg) \<or> snd_next_seqno s = 0)\<rparr>\<rparr>)"
  by (simp add: fill_syn_def round_bif_def Let_def)

lemma fill_fin_eq:
  "fill_fin w s seg =
     (let f = ByteStream_eof (snd_stream s) \<and> w - snd_bytes_in_flight s \<noteq> 0
      in (s\<lparr>snd_next_seqno := snd_next_seqno s + (if f then 1 else 0),
            snd_bytes_in_flight := snd_bytes_in_flight s + (if f then 1 else 0),
            snd_is_transmission_ended := (snd_is_transmission_ended s \<or> f)\<rparr>,
          seg\<lparr>ts_header := (ts_header seg)\<lparr>th_fin := (th_fin (ts_header seg) \<or> f)\<rparr>\<rparr>))"
proof -
  define f where "f \<longleftrightarrow> ByteStream_eof (snd_stream s) \<and> w - snd_bytes_in_flight s \<noteq> 0"
  have e: "f \<Longrightarrow> ByteStream_input_ended (snd_stream s)" by (simp add: f_def ByteStream_eof_def)
  have s: "s\<lparr>snd_is_transmission_ended := snd_is_transmission_ended s\<rparr> = s"
    "seg\<lparr>ts_header := (ts_header seg)\<lparr>th_fin := th_fin (ts_header seg)\<rparr>\<rparr> = seg"
    by simp_all
  show ?thesis unfolding fill_fin_def f_def [symmetric] Let_def by (cases f) (simp_all add: s e)
qed

lemma fill_round_eq:
  "fill_round w s seg =
     (fill_push (round_len w s) (round_state w s) (round_seg w s seg), round_seg w s seg)"
  unfolding fill_round_def fill_syn_eq fill_payload_def
  by (simp add: split_def Let_def fill_fin_eq round_read_def [symmetric] Buffer_size_def
      round_len_def [symmetric] round_fin_def round_state_def round_seg_def round_next_def)

lemma fill_push_fields [simp]:
  "snd_stream (fill_push n s seg) = snd_stream s"
  "snd_bytes_in_flight (fill_push n s seg) = snd_bytes_in_flight s"
  "snd_next_seqno (fill_push n s seg) = snd_next_seqno s"
  "snd_isn (fill_push n s seg) = snd_isn s"
  "snd_window_size (fill_push n s seg) = snd_window_size s"
  "snd_una_seqno (fill_push n s seg) = snd_una_seqno s"
  "snd_is_transmission_ended (fill_push n s seg) = snd_is_transmission_ended s"
  by (simp_all add: fill_push_def)

lemma sub_min_less: "n \<noteq> 0 \<Longrightarrow> c - min n c \<noteq> 0 \<Longrightarrow> c - min n c < (c :: u64)"
  using unat_sub64 [of "min n c" c] unat_gt_0 [of "min n c"]
  by (auto simp: word_less_nat_alt word_le_nat_alt min_def split: if_splits)

lemma fill_round_progress:
  assumes "\<not> ByteStream_buffer_empty (snd_stream (fst (fill_round w s seg)))"
    and "w - snd_bytes_in_flight (fst (fill_round w s seg)) \<noteq> 0"
  shows "bs_cur_cap (snd_stream (fst (fill_round w s seg))) < bs_cur_cap (snd_stream s)"
proof -
  let ?n = "min (w - round_bif s) MAX_PAYLOAD_SIZE"
  have st: "snd_stream (fst (fill_round w s seg)) = fst (round_read w s)"
    and bif: "snd_bytes_in_flight (fst (fill_round w s seg)) =
      round_bif s + round_len w s + (if round_fin w s then 1 else 0)"
    by (simp_all add: fill_round_eq Let_def round_state_def)
  have ne: "\<not> ByteStream_buffer_empty (fst (round_read w s))" using assms(1) st by simp
  have "?n \<noteq> 0"
  proof
    assume z: "?n = 0"
    then have "w = round_bif s" by (auto simp: min_def MAX_PAYLOAD_SIZE_def split: if_splits)
    moreover have "round_len w s = 0" using z by (simp add: round_len_def round_read_def read_zero)
    ultimately show False using assms(2) bif ne by (simp add: round_fin_def sponge_defs)
  qed
  moreover have "bs_cur_cap (fst (round_read w s)) =
      bs_cur_cap (snd_stream s) - min ?n (bs_cur_cap (snd_stream s))"
    by (simp add: round_read_def read_cur_cap)
  moreover have "bs_cur_cap (fst (round_read w s)) \<noteq> 0" using ne by (simp add: sponge_defs)
  ultimately show ?thesis unfolding st by (metis sub_min_less)
qed

termination fill_loop
  by (relation "measure (\<lambda>(w, s, seg). unat (bs_cur_cap (snd_stream s)))")
     (auto dest: fill_round_progress simp: word_less_nat_alt split_def)

declare fill_loop.simps [simp del]

definition TCPSender_fill_window :: "TCPSender \<Rightarrow> TCPSender" where
  "TCPSender_fill_window s =
     (let actual_window_size = snd_window_size s;
          actual_window_size = (if actual_window_size = 0 then 1 else actual_window_size)
      in if actual_window_size \<le> snd_bytes_in_flight s then s
         else fill_loop actual_window_size s TCPSegment_default)"

text \<open>The loop of \<open>ack_received\<close> that pops the acknowledged segments off the queue.\<close>

fun ack_loop :: "u64 \<Rightarrow> WrappingInt32 \<Rightarrow> u64 \<Rightarrow> u64 \<Rightarrow> TCPSegment list \<Rightarrow> u64 \<times> TCPSegment list" where
  "ack_loop ackno_abs isn next_seqno bytes_in_flight [] = (bytes_in_flight, [])"
| "ack_loop ackno_abs isn next_seqno bytes_in_flight (seg # segs) =
     (if unwrap (th_seqno (ts_header seg)) isn next_seqno +
           TCPSegment_length_in_sequence_space seg \<le> ackno_abs
      then ack_loop ackno_abs isn next_seqno
             (bytes_in_flight - TCPSegment_length_in_sequence_space seg) segs
      else (bytes_in_flight, seg # segs))"

definition TCPSender_ack_received :: "TCPSender \<Rightarrow> WrappingInt32 \<Rightarrow> u16 \<Rightarrow> TCPSender" where
  "TCPSender_ack_received s ackno window_size =
     (let ackno_abs = unwrap ackno (snd_isn s) (snd_next_seqno s);
          s = s\<lparr>snd_window_size := ucast window_size\<rparr>
      in if ackno_abs \<le> snd_una_seqno s \<or> snd_next_seqno s < ackno_abs then s
         else
           let s = s\<lparr>snd_una_seqno := ackno_abs\<rparr>;
               (bytes_in_flight, outstanding_segments) =
                 ack_loop ackno_abs (snd_isn s) (snd_next_seqno s) (snd_bytes_in_flight s)
                   (snd_outstanding_segments s);
               s = s\<lparr>snd_bytes_in_flight := bytes_in_flight,
                     snd_outstanding_segments := outstanding_segments\<rparr>;
               s = s\<lparr>snd_cur_rto := ucast (snd_initial_retransmission_timeout s),
                     snd_consecutive_retrans_times := 0\<rparr>
           in if snd_outstanding_segments s = []
              then s\<lparr>snd_timer := RetransmissionTimer_stop (snd_timer s)\<rparr>
              else s\<lparr>snd_timer := RetransmissionTimer_start
                       (RetransmissionTimer_stop (snd_timer s)) (snd_cur_rto s)\<rparr>)"

definition TCPSender_tick :: "TCPSender \<Rightarrow> u64 \<Rightarrow> TCPSender" where
  "TCPSender_tick s ms_since_last_tick =
     (let s = s\<lparr>snd_cur_time := snd_cur_time s + ms_since_last_tick,
                snd_timer := RetransmissionTimer_tick (snd_timer s) ms_since_last_tick\<rparr>
      in if RetransmissionTimer_expired (snd_timer s) \<and> snd_outstanding_segments s \<noteq> []
         then
           let s = s\<lparr>snd_segments_out := snd_segments_out s @ [hd (snd_outstanding_segments s)]\<rparr>;
               s = (if snd_window_size s \<noteq> 0
                    then s\<lparr>snd_consecutive_retrans_times := snd_consecutive_retrans_times s + 1,
                           snd_cur_rto := push_bit 1 (snd_cur_rto s)\<rparr>
                    else s)
           in s\<lparr>snd_timer := RetransmissionTimer_start
                  (RetransmissionTimer_stop (snd_timer s)) (snd_cur_rto s)\<rparr>
         else s)"

definition TCPSender_send_empty_segment :: "TCPSender \<Rightarrow> TCPSender" where
  "TCPSender_send_empty_segment s =
     (let seg = TCPSegment_default\<lparr>ts_header := TCPHeader_default
                  \<lparr>th_seqno := wrap (snd_next_seqno s) (snd_isn s)\<rparr>\<rparr>
      in s\<lparr>snd_segments_out := snd_segments_out s @ [seg]\<rparr>)"

section \<open>The segments of a stream\<close>

text \<open>
  \<open>W\<close> is everything that was written to the outgoing stream so far and \<open>e\<close> says whether
  the writer has ended it. The segment with absolute sequence number \<open>a\<close> carries SYN exactly
  when \<open>a = 0\<close>, its payload is the part of \<open>W\<close> that starts at index \<open>a - 1\<close> (the SYN
  occupies number 0), and only a segment that reaches the end of an ended stream carries
  FIN.
\<close>

definition seg_len :: "TCPSegment \<Rightarrow> nat" where
  "seg_len seg = length (Buffer_str (ts_payload seg)) +
     (if th_syn (ts_header seg) then 1 else 0) + (if th_fin (ts_header seg) then 1 else 0)"

definition the_seg :: "WrappingInt32 \<Rightarrow> nat \<Rightarrow> bytes \<Rightarrow> bool \<Rightarrow> TCPSegment" where
  "the_seg isn a p f =
     \<lparr>ts_header = TCPHeader_default\<lparr>th_seqno := wrap (of_nat a) isn, th_syn := (a = 0), th_fin := f\<rparr>,
      ts_payload = Buffer_new p\<rparr>"

definition stream_seg :: "bytes \<Rightarrow> bool \<Rightarrow> WrappingInt32 \<Rightarrow> nat \<Rightarrow> TCPSegment \<Rightarrow> bool" where
  "stream_seg W e isn a seg \<longleftrightarrow>
     (\<exists>p f. seg = the_seg isn a p f \<and> length p \<le> 1000 \<and> a - 1 + length p \<le> length W \<and>
        p = take (length p) (drop (a - 1) W) \<and> (f \<longrightarrow> e \<and> a - 1 + length p = length W) \<and>
        (p \<noteq> [] \<or> a = 0 \<or> f))"

text \<open>The segments of a list follow each other without gap or overlap from \<open>a\<close> to \<open>b\<close>.\<close>

fun seg_chain :: "bytes \<Rightarrow> bool \<Rightarrow> WrappingInt32 \<Rightarrow> nat \<Rightarrow> TCPSegment list \<Rightarrow> nat \<Rightarrow> bool" where
  "seg_chain W e isn a [] b \<longleftrightarrow> a = b"
| "seg_chain W e isn a (seg # segs) b \<longleftrightarrow>
     stream_seg W e isn a seg \<and> seg_chain W e isn (a + seg_len seg) segs b"

definition empty_seg :: "WrappingInt32 \<Rightarrow> nat \<Rightarrow> TCPSegment" where
  "empty_seg isn a = TCPSegment_default\<lparr>ts_header := TCPHeader_default\<lparr>th_seqno := wrap (of_nat a) isn\<rparr>\<rparr>"

definition out_seg :: "bytes \<Rightarrow> bool \<Rightarrow> WrappingInt32 \<Rightarrow> TCPSegment \<Rightarrow> bool" where
  "out_seg W e isn seg \<longleftrightarrow> (\<exists>a. stream_seg W e isn a seg) \<or> (\<exists>a \<le> length W + 2. seg = empty_seg isn a)"

lemma the_seg_fields [simp]:
  "th_seqno (ts_header (the_seg isn a p f)) = wrap (of_nat a) isn"
  "th_syn (ts_header (the_seg isn a p f)) \<longleftrightarrow> a = 0"
  "th_fin (ts_header (the_seg isn a p f)) \<longleftrightarrow> f"
  "th_rst (ts_header (the_seg isn a p f)) = False"
  "ts_payload (the_seg isn a p f) = Buffer_new p"
  by (simp_all add: the_seg_def TCPHeader_default_def)

lemma stream_seg_seqno: "stream_seg W e isn a seg \<Longrightarrow> th_seqno (ts_header seg) = wrap (of_nat a) isn"
  by (auto simp: stream_seg_def)

lemma stream_seg_pos: "stream_seg W e isn a seg \<Longrightarrow> 0 < seg_len seg"
  by (auto simp: stream_seg_def seg_len_def)

lemma stream_seg_bound: "stream_seg W e isn a seg \<Longrightarrow> a + seg_len seg \<le> length W + 2 \<and> seg_len seg \<le> 1002"
  by (auto simp: stream_seg_def seg_len_def)

lemma stream_seg_length:
  assumes "stream_seg W e isn a seg"
  shows "unat (TCPSegment_length_in_sequence_space seg) = seg_len seg"
proof -
  have "TCPSegment_length_in_sequence_space seg = of_nat (seg_len seg)"
    by (simp add: TCPSegment_length_in_sequence_space_def seg_len_def)
  with stream_seg_bound [OF assms] show ?thesis by (simp add: unat_of_nat64)
qed

lemma stream_seg_mono:
  assumes "stream_seg W e isn a seg" and "e \<Longrightarrow> X = []" and "e \<Longrightarrow> e'"
  shows "stream_seg (W @ X) e' isn a seg"
proof -
  obtain p f where "seg = the_seg isn a p f" "length p \<le> 1000" and le: "a - 1 + length p \<le> length W"
    and p: "p = take (length p) (drop (a - 1) W)" and "f \<longrightarrow> e \<and> a - 1 + length p = length W"
    "p \<noteq> [] \<or> a = 0 \<or> f"
    using assms(1) by (auto simp: stream_seg_def)
  moreover have "p = take (length p) (drop (a - 1) (W @ X))" using p le by simp
  ultimately show ?thesis using assms(2,3) unfolding stream_seg_def by fastforce
qed

lemma seg_chain_append:
  "seg_chain W e isn a (xs @ ys) c \<longleftrightarrow>
     (\<exists>b. seg_chain W e isn a xs b \<and> seg_chain W e isn b ys c)"
  by (induction xs arbitrary: a) auto

lemma seg_chain_mono:
  "seg_chain W e isn a segs b \<Longrightarrow> (e \<Longrightarrow> X = []) \<Longrightarrow> (e \<Longrightarrow> e') \<Longrightarrow> seg_chain (W @ X) e' isn a segs b"
  by (induction segs arbitrary: a) (auto intro: stream_seg_mono)

lemma seg_chain_le: "seg_chain W e isn a segs b \<Longrightarrow> a \<le> b"
  by (induction segs arbitrary: a) fastforce+

lemma seg_chain_less: "seg_chain W e isn a segs b \<Longrightarrow> segs \<noteq> [] \<Longrightarrow> a < b"
  by (cases segs) (auto dest!: stream_seg_pos seg_chain_le)

lemma out_seg_mono:
  assumes "out_seg W e isn seg" and "e \<Longrightarrow> X = []" and "e \<Longrightarrow> e'"
  shows "out_seg (W @ X) e' isn seg"
  using assms(1) unfolding out_seg_def
proof
  assume "\<exists>a. stream_seg W e isn a seg"
  with assms(2,3) show "(\<exists>a. stream_seg (W @ X) e' isn a seg) \<or> (\<exists>a\<le>length (W @ X) + 2. seg = empty_seg isn a)"
    by (blast intro: stream_seg_mono)
next
  assume "\<exists>a\<le>length W + 2. seg = empty_seg isn a"
  then obtain a where "a \<le> length W + 2" "seg = empty_seg isn a" by blast
  moreover from this have "a \<le> length (W @ X) + 2" by simp
  ultimately show "(\<exists>a. stream_seg (W @ X) e' isn a seg) \<or> (\<exists>a\<le>length (W @ X) + 2. seg = empty_seg isn a)"
    by blast
qed

section \<open>The invariant of the sender\<close>

text \<open>
  The stream holds what was written and not yet sent. The segments in flight are a
  gap-free run of the stream that ends at \<open>_next_seqno\<close>; their total length is
  \<open>_bytes_in_flight\<close>, the oldest of them is not fully acknowledged, and the timer runs
  exactly when there are any. Before the SYN, the window is at most 1 or there is nothing
  to send, which is what keeps the SYN flag of the shared segment from reaching a second
  segment.
\<close>

definition snd_stream_inv :: "bytes \<Rightarrow> ByteStream \<Rightarrow> bool" where
  "snd_stream_inv W st \<longleftrightarrow> bs_inv st \<and> unat (bs_bytes_read st) \<le> length W \<and>
     bs_str st = drop (unat (bs_bytes_read st)) W \<and> length W + 2 < 2 ^ 64"

definition snd_pos_inv :: "TCPSender \<Rightarrow> bool" where
  "snd_pos_inv s \<longleftrightarrow>
     (if snd_next_seqno s = 0
      then bs_bytes_read (snd_stream s) = 0 \<and> \<not> snd_is_transmission_ended s \<and>
        (unat (snd_window_size s) \<le> 1 \<or> bs_str (snd_stream s) = [])
      else unat (snd_next_seqno s) = 1 + unat (bs_bytes_read (snd_stream s)) +
        (if snd_is_transmission_ended s then 1 else 0)) \<and>
     (snd_is_transmission_ended s \<longrightarrow> bs_input_is_end (snd_stream s) \<and> bs_str (snd_stream s) = [])"

abbreviation snd_base :: "TCPSender \<Rightarrow> nat" where
  "snd_base s \<equiv> unat (snd_next_seqno s) - unat (snd_bytes_in_flight s)"

definition snd_flight_inv :: "bytes \<Rightarrow> TCPSender \<Rightarrow> bool" where
  "snd_flight_inv W s \<longleftrightarrow>
     unat (snd_bytes_in_flight s) \<le> unat (snd_next_seqno s) \<and>
     unat (snd_bytes_in_flight s) \<le> 65535 \<and> unat (snd_window_size s) \<le> 65535 \<and>
     seg_chain W (bs_input_is_end (snd_stream s)) (snd_isn s) (snd_base s)
       (snd_outstanding_segments s) (unat (snd_next_seqno s)) \<and>
     snd_base s \<le> unat (snd_una_seqno s) \<and> unat (snd_una_seqno s) \<le> unat (snd_next_seqno s) \<and>
     (snd_outstanding_segments s \<noteq> [] \<longrightarrow>
        unat (snd_una_seqno s) < snd_base s + seg_len (hd (snd_outstanding_segments s))) \<and>
     (rt_is_start (snd_timer s) \<longleftrightarrow> snd_outstanding_segments s \<noteq> [])"

definition snd_inv :: "bytes \<Rightarrow> TCPSender \<Rightarrow> bool" where
  "snd_inv W s \<longleftrightarrow> snd_stream_inv W (snd_stream s) \<and> snd_pos_inv s \<and> snd_flight_inv W s \<and>
     (\<forall>seg \<in> set (snd_segments_out s). out_seg W (bs_input_is_end (snd_stream s)) (snd_isn s) seg)"

lemma snd_inv_new [inv_intros]: "snd_inv [] (TCPSender_new c t i r)"
  by (simp add: snd_inv_def snd_stream_inv_def bs_inv_new snd_pos_inv_def snd_flight_inv_def TCPSender_new_def
      RetransmissionTimer_new_def) (simp add: ByteStream_new_def)

lemma snd_inv_next_bound: "snd_inv W s \<Longrightarrow> unat (snd_next_seqno s) \<le> length W + 2"
  by (auto simp: snd_inv_def snd_stream_inv_def snd_pos_inv_def split: if_splits)

section \<open>Filling the window\<close>

definition round_z :: "TCPSender \<Rightarrow> nat" where
  "round_z s = (if snd_next_seqno s = 0 then 1 else 0)"

definition round_data :: "u64 \<Rightarrow> TCPSender \<Rightarrow> bytes" where
  "round_data w s = take (min (unat w - (unat (snd_bytes_in_flight s) + round_z s)) 1000) (bs_str (snd_stream s))"

lemma round_data_le: "length (round_data w s) \<le> length (bs_str (snd_stream s))"
  by (simp add: round_data_def)

definition round_f :: "u64 \<Rightarrow> TCPSender \<Rightarrow> nat" where
  "round_f w s = (if round_fin w s then 1 else 0)"

lemma round_stream_values:
  assumes bs: "bs_inv (snd_stream s)"
    and w: "unat (snd_bytes_in_flight s) < unat w" "unat w \<le> 65535"
  defines "d \<equiv> round_data w s" and "st \<equiv> snd_stream s" and "st' \<equiv> fst (round_read w s)"
  shows "snd (round_read w s) = d" and "unat (round_len w s) = length d"
    and "length d \<le> 1000" and "unat (snd_bytes_in_flight s) + round_z s + length d \<le> unat w"
    and "bs_inv st'" and "bs_str st' = drop (length d) (bs_str st)"
    and "bs_bytes_read st' = bs_bytes_read st + round_len w s"
    and "round_fin w s \<longleftrightarrow> bs_input_is_end st \<and> bs_str st' = [] \<and>
           unat (snd_bytes_in_flight s) + round_z s + length d \<noteq> unat w"
    and "unat (snd_bytes_in_flight (round_state w s)) =
           unat (snd_bytes_in_flight s) + round_z s + length d + round_f w s"
    and "unat (snd_bytes_in_flight s) + round_z s + length d + round_f w s \<le> unat w"
proof -
  have z: "round_z s \<le> 1" by (simp add: round_z_def)
  have bif: "unat (round_bif s) = unat (snd_bytes_in_flight s) + round_z s"
    using w by (simp add: round_bif_def round_z_def unat_succ64)
  let ?n = "min (w - round_bif s) MAX_PAYLOAD_SIZE"
  have n: "unat ?n = min (unat w - (unat (snd_bytes_in_flight s) + round_z s)) 1000"
    using w z bif unat_sub64 [of "round_bif s" w]
    by (auto simp: min_def MAX_PAYLOAD_SIZE_def word_le_nat_alt split: if_splits)
  show rd: "snd (round_read w s) = d"
    using read_str(2) [OF bs, of ?n] by (simp add: round_read_def n d_def round_data_def)
  have ld: "length d = min (unat ?n) (length (bs_str st))" by (simp add: d_def round_data_def n st_def)
  then show d1: "length d \<le> 1000" using n by simp
  have "length d \<le> unat w - (unat (snd_bytes_in_flight s) + round_z s)" using ld n by linarith
  then show d2: "unat (snd_bytes_in_flight s) + round_z s + length d \<le> unat w"
    using w z by linarith
  show len: "unat (round_len w s) = length d" using d1 by (simp add: round_len_def rd unat_of_nat64)
  show bs': "bs_inv st'" using bs by (simp add: st'_def round_read_def bs_inv_read)
  have "bs_str st' = drop (unat ?n) (bs_str st)"
    using read_str(1) [OF bs, of ?n] by (simp add: st'_def round_read_def st_def)
  then show str: "bs_str st' = drop (length d) (bs_str st)" using ld by (simp add: min_def)
  have "round_len w s = min ?n (bs_cur_cap st)"
    using len ld bs by (auto simp: word_unat_eq_iff st_def bs_inv_def min_def word_le_nat_alt)
  then show "bs_bytes_read st' = bs_bytes_read st + round_len w s"
    by (simp add: st'_def st_def round_read_def ByteStream_read_def ByteStream_pop_output_def Let_def sponge_defs)
  have bl: "unat (round_bif s + round_len w s) = unat (snd_bytes_in_flight s) + round_z s + length d"
    using d2 w bif len by (subst unat_add64) simp_all
  then have "w - (round_bif s + round_len w s) = 0 \<longleftrightarrow>
      unat (snd_bytes_in_flight s) + round_z s + length d = unat w"
    by (metis eq_iff_diff_eq_0 word_unat_eq_iff)
  moreover have "ByteStream_eof st' \<longleftrightarrow> bs_input_is_end st \<and> bs_str st' = []"
    using bs' by (simp add: bs_eof_iff) (simp add: st'_def round_read_def st_def)
  ultimately show fin: "round_fin w s \<longleftrightarrow> bs_input_is_end st \<and> bs_str st' = [] \<and>
      unat (snd_bytes_in_flight s) + round_z s + length d \<noteq> unat w"
    by (simp add: round_fin_def st'_def)
  with d2 show d3: "unat (snd_bytes_in_flight s) + round_z s + length d + round_f w s \<le> unat w"
    by (auto simp: round_f_def)
  then show "unat (snd_bytes_in_flight (round_state w s)) =
      unat (snd_bytes_in_flight s) + round_z s + length d + round_f w s"
    using bl w by (auto simp: round_state_def round_f_def unat_succ64)
qed

lemma round_values:
  assumes inv: "snd_stream_inv W (snd_stream s)" "snd_pos_inv s" "\<not> snd_is_transmission_ended s"
    and w: "unat (snd_bytes_in_flight s) < unat w" "unat w \<le> 65535"
  defines "d \<equiv> round_data w s" and "st \<equiv> snd_stream s" and "st' \<equiv> fst (round_read w s)"
  shows "snd (round_read w s) = d" and "unat (round_len w s) = length d"
    and "length d \<le> 1000" and "unat (snd_bytes_in_flight s) + round_z s + length d \<le> unat w"
    and "bs_inv st'" and "bs_str st' = drop (length d) (bs_str st)"
    and "unat (bs_bytes_read st') = unat (bs_bytes_read st) + length d"
    and "round_fin w s \<longleftrightarrow> bs_input_is_end st \<and> bs_str st' = [] \<and>
           unat (snd_bytes_in_flight s) + round_z s + length d \<noteq> unat w"
    and "unat (snd_bytes_in_flight (round_state w s)) =
           unat (snd_bytes_in_flight s) + round_z s + length d + round_f w s"
    and "unat (snd_next_seqno (round_state w s)) =
           unat (snd_next_seqno s) + round_z s + length d + round_f w s"
    and "unat (snd_bytes_in_flight s) + round_z s + length d + round_f w s \<le> unat w"
proof -
  have bs: "bs_inv (snd_stream s)" using inv(1) by (simp add: snd_stream_inv_def)
  note v = round_stream_values [OF bs w, folded d_def st_def st'_def]
  show "snd (round_read w s) = d" "unat (round_len w s) = length d" "length d \<le> 1000"
    "unat (snd_bytes_in_flight s) + round_z s + length d \<le> unat w" "bs_inv st'"
    "bs_str st' = drop (length d) (bs_str st)"
    "round_fin w s \<longleftrightarrow> bs_input_is_end st \<and> bs_str st' = [] \<and>
       unat (snd_bytes_in_flight s) + round_z s + length d \<noteq> unat w"
    "unat (snd_bytes_in_flight (round_state w s)) =
       unat (snd_bytes_in_flight s) + round_z s + length d + round_f w s"
    "unat (snd_bytes_in_flight s) + round_z s + length d + round_f w s \<le> unat w"
    by (fact v)+
  have tot: "unat (bs_bytes_read st) + length (bs_str st) = length W" "length W + 2 < 2 ^ 64"
    using inv(1) by (auto simp: snd_stream_inv_def st_def)
  have le: "length d \<le> length (bs_str st)" by (simp add: d_def st_def round_data_le)
  show "unat (bs_bytes_read st') = unat (bs_bytes_read st) + length d"
    unfolding v(7) using tot le v(2) by (subst unat_add64) linarith+
  have nx: "unat (snd_next_seqno s) \<le> 1 + unat (bs_bytes_read st)"
    using inv(2,3) by (auto simp: snd_pos_inv_def st_def split: if_splits)
  with le tot have b: "unat (snd_next_seqno s) + round_z s + length d + 1 < 2 ^ 64"
    by (auto simp: round_z_def)
  have "unat (snd_next_seqno s + (if snd_next_seqno s = 0 then 1 else 0)) = unat (snd_next_seqno s) + round_z s"
    using b by (auto simp: round_z_def unat_succ64)
  with b v(2) have "unat (snd_next_seqno s + (if snd_next_seqno s = 0 then 1 else 0) + round_len w s) =
      unat (snd_next_seqno s) + round_z s + length d"
    by (subst unat_add64) simp_all
  with b show "unat (snd_next_seqno (round_state w s)) =
      unat (snd_next_seqno s) + round_z s + length d + round_f w s"
    by (auto simp: round_state_def round_next_def round_f_def unat_succ64)
qed

definition clean_seg :: "TCPSegment \<Rightarrow> bool" where
  "clean_seg seg \<longleftrightarrow> (\<exists>q. ts_header seg = TCPHeader_default\<lparr>th_seqno := q\<rparr>)"

text \<open>What a run of the loop does to the sender: it appends the same segments to both queues.\<close>

definition snd_sends :: "TCPSender \<Rightarrow> TCPSegment list \<Rightarrow> TCPSender \<Rightarrow> bool" where
  "snd_sends s new s' \<longleftrightarrow> snd_segments_out s' = snd_segments_out s @ new \<and>
     snd_outstanding_segments s' = snd_outstanding_segments s @ new \<and>
     snd_isn s' = snd_isn s \<and> snd_window_size s' = snd_window_size s \<and>
     snd_una_seqno s' = snd_una_seqno s \<and> snd_cur_rto s' = snd_cur_rto s \<and>
     snd_initial_retransmission_timeout s' = snd_initial_retransmission_timeout s \<and>
     snd_consecutive_retrans_times s' = snd_consecutive_retrans_times s \<and>
     snd_base s' = snd_base s \<and>
     bs_input_is_end (snd_stream s') = bs_input_is_end (snd_stream s) \<and>
     bs_error (snd_stream s') = bs_error (snd_stream s) \<and>
     unat (bs_bytes_read (snd_stream s)) \<le> unat (bs_bytes_read (snd_stream s')) \<and>
     (snd_is_transmission_ended s \<longrightarrow> snd_is_transmission_ended s')"

lemma snd_sends_trans: "snd_sends s x s' \<Longrightarrow> snd_sends s' y s'' \<Longrightarrow> snd_sends s (x @ y) s''"
  by (simp add: snd_sends_def)

lemma round_seg_ok:
  assumes inv: "snd_stream_inv W (snd_stream s)" "snd_pos_inv s" "\<not> snd_is_transmission_ended s"
    and w: "unat (snd_bytes_in_flight s) < unat w" "unat w \<le> 65535"
    and seg: "clean_seg seg"
  shows "round_seg w s seg = the_seg (snd_isn s) (unat (snd_next_seqno s)) (round_data w s) (round_fin w s)"
    and "seg_len (round_seg w s seg) = round_z s + length (round_data w s) + round_f w s"
    and "seg_len (round_seg w s seg) \<noteq> 0 \<Longrightarrow>
      stream_seg W (bs_input_is_end (snd_stream s)) (snd_isn s) (unat (snd_next_seqno s)) (round_seg w s seg)"
proof -
  note v = round_values [OF inv w]
  obtain q where "ts_header seg = TCPHeader_default\<lparr>th_seqno := q\<rparr>" using seg by (auto simp: clean_seg_def)
  then show eq: "round_seg w s seg = the_seg (snd_isn s) (unat (snd_next_seqno s)) (round_data w s) (round_fin w s)"
    by (cases seg) (simp add: round_seg_def the_seg_def v(1) TCPHeader_default_def unat_eq_0)
  show len: "seg_len (round_seg w s seg) = round_z s + length (round_data w s) + round_f w s"
    by (simp add: eq seg_len_def round_z_def round_f_def unat_eq_0)
  have i: "unat (snd_next_seqno s) - 1 = unat (bs_bytes_read (snd_stream s))"
    using inv(2,3) by (auto simp: snd_pos_inv_def split: if_splits)
  have str: "bs_str (snd_stream s) = drop (unat (snd_next_seqno s) - 1) W"
    "unat (snd_next_seqno s) - 1 + length (bs_str (snd_stream s)) = length W"
    using inv(1) i by (auto simp: snd_stream_inv_def)
  have d: "round_data w s = take (length (round_data w s)) (bs_str (snd_stream s))"
    by (metis append_eq_conv_conj append_take_drop_id round_data_def)
  note le = round_data_le [of w s]
  assume "seg_len (round_seg w s seg) \<noteq> 0"
  then have nz: "round_data w s \<noteq> [] \<or> unat (snd_next_seqno s) = 0 \<or> round_fin w s"
    by (auto simp: len round_z_def round_f_def unat_eq_0 split: if_splits)
  have fin: "round_fin w s \<longrightarrow> bs_input_is_end (snd_stream s) \<and>
      unat (snd_next_seqno s) - 1 + length (round_data w s) = length W"
    using v(6,8) le str(2) by auto
  from d have "round_data w s = take (length (round_data w s)) (drop (unat (snd_next_seqno s) - 1) W)"
    by (simp only: str(1))
  moreover have "unat (snd_next_seqno s) - 1 + length (round_data w s) \<le> length W" using le str(2) by linarith
  ultimately show "stream_seg W (bs_input_is_end (snd_stream s)) (snd_isn s) (unat (snd_next_seqno s))
      (round_seg w s seg)"
    using v(3) nz fin eq unfolding stream_seg_def by blast
qed

lemma fill_push_sends:
  assumes "seg_len seg = n + (if th_syn (ts_header seg) then 1 else 0) + (if th_fin (ts_header seg) then 1 else 0)"
    and "n = unat k"
  shows "fill_push k s seg = (if seg_len seg = 0 then s else
     s\<lparr>snd_segments_out := snd_segments_out s @ [seg],
       snd_outstanding_segments := snd_outstanding_segments s @ [seg],
       snd_timer := RetransmissionTimer_start (snd_timer s) (snd_cur_rto s)\<rparr>)"
  using assms by (auto simp: fill_push_def unat_eq_0)

lemma fill_round_ok:
  assumes inv: "snd_inv W s" and ne: "\<not> snd_is_transmission_ended s"
    and w: "unat (snd_bytes_in_flight s) < unat w" "unat w \<le> 65535" and seg: "clean_seg seg"
  defines "s' \<equiv> fst (fill_round w s seg)"
  shows "snd_inv W s'"
    and "snd_sends s (if seg_len (round_seg w s seg) = 0 then [] else [round_seg w s seg]) s'"
    and "unat (snd_bytes_in_flight s') \<le> unat w"
    and "unat (snd_bytes_in_flight s') = unat w \<or> \<not> bs_input_is_end (snd_stream s') \<or>
         bs_str (snd_stream s') \<noteq> [] \<or> snd_is_transmission_ended s'"
    and "snd_next_seqno s' \<noteq> 0"
proof -
  have inv': "snd_stream_inv W (snd_stream s)" "snd_pos_inv s" "snd_flight_inv W s"
    using inv by (simp_all add: snd_inv_def)
  note v = round_values [OF inv'(1,2) ne w]
  note sg = round_seg_ok [OF inv'(1,2) ne w seg]
  let ?sg = "round_seg w s seg" let ?L = "round_z s + length (round_data w s) + round_f w s"
  let ?new = "if seg_len ?sg = 0 then [] else [?sg]"
  have s': "s' = (if seg_len ?sg = 0 then round_state w s else (round_state w s)
     \<lparr>snd_segments_out := snd_segments_out s @ [?sg],
      snd_outstanding_segments := snd_outstanding_segments s @ [?sg],
      snd_timer := RetransmissionTimer_start (snd_timer s) (snd_cur_rto s)\<rparr>)"
    unfolding s'_def fill_round_eq fst_conv
    by (subst fill_push_sends [of _ "length (round_data w s)"])
      (auto simp: v(2) sg(1) seg_len_def round_state_def)
  have st: "snd_stream s' = fst (round_read w s)" by (simp add: s' round_state_def)
  have nx: "unat (snd_next_seqno s') = unat (snd_next_seqno s) + ?L"
    and bif: "unat (snd_bytes_in_flight s') = unat (snd_bytes_in_flight s) + ?L"
    using v(9,10) by (simp_all add: s')
  have e: "bs_input_is_end (snd_stream s') = bs_input_is_end (snd_stream s)"
    by (simp add: st round_read_def)
  have out: "snd_segments_out s' = snd_segments_out s @ ?new"
    "snd_outstanding_segments s' = snd_outstanding_segments s @ ?new"
    by (simp_all add: s' round_state_def)
  have fr: "snd_isn s' = snd_isn s" "snd_window_size s' = snd_window_size s"
    "snd_una_seqno s' = snd_una_seqno s" "snd_is_transmission_ended s' = round_fin w s"
    using ne by (simp_all add: s' round_state_def)
  show "snd_next_seqno s' \<noteq> 0"
    using nx by (cases "snd_next_seqno s = 0") (auto simp: round_z_def unat_eq_0 [symmetric])
  have base: "snd_base s' = snd_base s" using nx bif by simp
  show "snd_sends s ?new s'"
    unfolding snd_sends_def using out fr base e v(7) ne by (simp add: s' round_state_def round_read_def)
  show "unat (snd_bytes_in_flight s') \<le> unat w" using bif v(11) by linarith
  show "unat (snd_bytes_in_flight s') = unat w \<or> \<not> bs_input_is_end (snd_stream s') \<or>
         bs_str (snd_stream s') \<noteq> [] \<or> snd_is_transmission_ended s'"
    using v(8) bif fr(4) by (auto simp: st e round_read_def round_f_def)
  have "snd_stream_inv W (snd_stream s')"
    using inv'(1) v(5,6,7) round_data_le [of w s] by (auto simp: st snd_stream_inv_def add.commute)
  moreover have "snd_pos_inv s'"
    using inv'(2) nx v(7,8) ne unfolding snd_pos_inv_def
    by (auto simp: st fr round_z_def round_f_def round_read_def unat_eq_0 split: if_splits)
  moreover have "snd_flight_inv W s'"
  proof -
    have "seg_chain W (bs_input_is_end (snd_stream s)) (snd_isn s) (unat (snd_next_seqno s)) ?new
        (unat (snd_next_seqno s'))"
      using sg(2,3) nx by simp
    moreover have "snd_outstanding_segments s = [] \<Longrightarrow> unat (snd_bytes_in_flight s) = 0"
      using inv'(3) by (simp add: snd_flight_inv_def) linarith
    moreover have "rt_is_start (snd_timer s') \<longleftrightarrow> snd_outstanding_segments s' \<noteq> []"
      using inv'(3) by (auto simp: s' snd_flight_inv_def RetransmissionTimer_start_def round_state_def)
    ultimately show ?thesis using inv'(3) nx bif v(11) w(2)
      unfolding snd_flight_inv_def e out fr base seg_chain_append
      by (auto simp: hd_append)
  qed
  moreover have "\<forall>seg \<in> set ?new. out_seg W (bs_input_is_end (snd_stream s)) (snd_isn s) seg"
    using sg(3) by (auto simp: out_seg_def)
  ultimately show "snd_inv W s'"
    using inv unfolding snd_inv_def e out fr by auto
qed

definition window_filled :: "u64 \<Rightarrow> TCPSender \<Rightarrow> bool" where
  "window_filled w s \<longleftrightarrow> snd_next_seqno s \<noteq> 0 \<and> (unat (snd_bytes_in_flight s) = unat w \<or>
     bs_str (snd_stream s) = [] \<and> (bs_input_is_end (snd_stream s) \<longrightarrow> snd_is_transmission_ended s))"

text \<open>When the loop goes on, the SYN was sent before, and no flag is left in the shared segment.\<close>

lemma fill_round_continues:
  assumes inv: "snd_inv W s" "\<not> snd_is_transmission_ended s"
    and w: "unat (snd_bytes_in_flight s) < unat w" "unat w \<le> 65535" and seg: "clean_seg seg"
    and z: "snd_next_seqno s = 0 \<Longrightarrow> unat w \<le> 1 \<or> bs_str (snd_stream s) = []"
    and more: "bs_str (snd_stream (fst (fill_round w s seg))) \<noteq> []"
      "unat (snd_bytes_in_flight (fst (fill_round w s seg))) < unat w"
  shows "clean_seg (snd (fill_round w s seg))" and "snd_next_seqno (fst (fill_round w s seg)) \<noteq> 0"
proof -
  have inv': "snd_stream_inv W (snd_stream s)" "snd_pos_inv s" using inv(1) by (simp_all add: snd_inv_def)
  note v = round_values [OF inv' inv(2) w]
  have st: "snd_stream (fst (fill_round w s seg)) = fst (round_read w s)"
    and fld: "snd_bytes_in_flight (fst (fill_round w s seg)) = snd_bytes_in_flight (round_state w s)"
      "snd_next_seqno (fst (fill_round w s seg)) = snd_next_seqno (round_state w s)"
    by (simp_all add: fill_round_eq round_state_def)
  have nf: "\<not> round_fin w s" using v(8) more(1) st by simp
  have nx: "snd_next_seqno s \<noteq> 0"
  proof
    assume "snd_next_seqno s = 0"
    with z more v(6,9) st fld show False by (auto simp: round_z_def)
  qed
  with v(10) show "snd_next_seqno (fst (fill_round w s seg)) \<noteq> 0"
    unfolding fld by (metis add_is_0 unat_eq_0)
  show "clean_seg (snd (fill_round w s seg))"
    using nx nf unat_eq_0 [of "snd_next_seqno s"]
    by (simp add: fill_round_eq round_seg_ok(1) [OF inv' inv(2) w seg] clean_seg_def the_seg_def TCPHeader_default_def)
qed

lemma fill_loop_ok:
  assumes "snd_inv W s" and "unat (snd_bytes_in_flight s) < unat w" and "unat w \<le> 65535"
    and "clean_seg seg"
    and "snd_next_seqno s = 0 \<Longrightarrow> unat w \<le> 1 \<or> bs_str (snd_stream s) = []"
  shows "snd_inv W (fill_loop w s seg) \<and> (\<exists>new. snd_sends s new (fill_loop w s seg)) \<and>
         unat (snd_bytes_in_flight (fill_loop w s seg)) \<le> unat w \<and> window_filled w (fill_loop w s seg)"
  using assms
proof (induction w s seg rule: fill_loop.induct)
  case (1 w s seg)
  let ?s = "fst (fill_round w s seg)" and ?seg = "snd (fill_round w s seg)"
  show ?case
  proof (cases "snd_is_transmission_ended s")
    case True
    then have "fill_loop w s seg = s" by (simp add: fill_loop.simps)
    moreover have "snd_sends s [] s" by (simp add: snd_sends_def)
    ultimately show ?thesis using True 1(2,3) by (auto simp: window_filled_def snd_inv_def snd_pos_inv_def)
  next
    case False
    note r = fill_round_ok [OF 1(2) False 1(3-5)]
    have bs: "bs_inv (snd_stream ?s)" using r(1) by (simp add: snd_inv_def snd_stream_inv_def)
    have bif: "w - snd_bytes_in_flight ?s \<noteq> 0 \<longleftrightarrow> unat (snd_bytes_in_flight ?s) < unat w"
      using r(3) by (metis eq_iff_diff_eq_0 le_neq_implies_less less_irrefl word_unat_eq_iff)
    show ?thesis
    proof (cases "bs_str (snd_stream ?s) \<noteq> [] \<and> unat (snd_bytes_in_flight ?s) < unat w")
      case True
      then have step: "fill_loop w s seg = fill_loop w ?s ?seg"
        using False bif bs by (subst fill_loop.simps) (simp add: Let_def bs_buffer_empty_iff)
      have c: "clean_seg ?seg" "snd_next_seqno ?s \<noteq> 0"
        using fill_round_continues [OF 1(2) False 1(3-6)] True by auto
      have "snd_inv W (fill_loop w ?s ?seg) \<and> (\<exists>new. snd_sends ?s new (fill_loop w ?s ?seg)) \<and>
          unat (snd_bytes_in_flight (fill_loop w ?s ?seg)) \<le> unat w \<and> window_filled w (fill_loop w ?s ?seg)"
        using True False bif bs c r(1) 1(4) by (intro 1(1) [OF False refl]) (auto simp: bs_buffer_empty_iff)
      then show ?thesis using r(2) snd_sends_trans unfolding step by blast
    next
      case nc: False
      then have "fill_loop w s seg = ?s"
        using False bif bs by (subst fill_loop.simps) (auto simp: Let_def bs_buffer_empty_iff)
      with r nc show ?thesis by (auto simp: window_filled_def)
    qed
  qed
qed

text \<open>The window that \<open>fill_window\<close> works with.\<close>

abbreviation actual_window :: "TCPSender \<Rightarrow> u64" where
  "actual_window s \<equiv> (if snd_window_size s = 0 then 1 else snd_window_size s)"

lemma fill_window_ok:
  assumes "snd_inv W s"
  defines "s' \<equiv> TCPSender_fill_window s"
  shows "snd_inv W s'" and "\<exists>new. snd_sends s new s'"
    and "unat (snd_bytes_in_flight s') \<le> max (unat (snd_bytes_in_flight s)) (unat (actual_window s))"
    and "snd_bytes_in_flight s < actual_window s \<Longrightarrow> window_filled (actual_window s) s'"
    and "snd_next_seqno s' \<noteq> 0"
proof -
  let ?w = "actual_window s"
  have "snd_inv W s' \<and> (\<exists>new. snd_sends s new s') \<and>
      unat (snd_bytes_in_flight s') \<le> max (unat (snd_bytes_in_flight s)) (unat (actual_window s)) \<and>
      (snd_bytes_in_flight s < actual_window s \<longrightarrow> window_filled (actual_window s) s')"
  proof (cases "snd_bytes_in_flight s < ?w")
    case True
    have "unat (snd_window_size s) \<le> 65535" using assms by (simp add: snd_inv_def snd_flight_inv_def)
    moreover have "clean_seg TCPSegment_default"
      unfolding clean_seg_def by (rule exI [of _ "WrappingInt32 0"]) (simp add: TCPSegment_default_def TCPHeader_default_def)
    moreover have "snd_next_seqno s = 0 \<Longrightarrow> unat ?w \<le> 1 \<or> bs_str (snd_stream s) = []"
      using assms by (auto simp: snd_inv_def snd_pos_inv_def)
    moreover have "s' = fill_loop ?w s TCPSegment_default"
      using True by (auto simp: s'_def TCPSender_fill_window_def Let_def)
    ultimately show ?thesis
      using fill_loop_ok [OF assms(1), of ?w TCPSegment_default] True by (auto simp: word_less_nat_alt)
  next
    case False
    then have "s' = s" by (auto simp: s'_def TCPSender_fill_window_def Let_def)
    moreover have "snd_sends s [] s" by (simp add: snd_sends_def)
    ultimately show ?thesis using False assms(1) by auto
  qed
  then show "snd_inv W s'" and "\<exists>new. snd_sends s new s'"
    and "unat (snd_bytes_in_flight s') \<le> max (unat (snd_bytes_in_flight s)) (unat (actual_window s))"
    and w: "snd_bytes_in_flight s < actual_window s \<Longrightarrow> window_filled (actual_window s) s'" by blast+
  show "snd_next_seqno s' \<noteq> 0"
  proof (cases "snd_bytes_in_flight s < ?w")
    case True
    then show ?thesis using w by (simp add: window_filled_def)
  next
    case False
    then have "s' = s" by (auto simp: s'_def TCPSender_fill_window_def Let_def)
    moreover have "unat (snd_bytes_in_flight s) \<le> unat (snd_next_seqno s)"
      using assms by (simp add: snd_inv_def snd_flight_inv_def)
    ultimately show ?thesis using False by (auto simp: unat_eq_0 [symmetric] word_less_nat_alt split: if_splits)
  qed
qed

section \<open>Acknowledgments\<close>

lemma unwrap_seg:
  assumes "stream_seg W e isn a seg" and "a \<le> unat nx" and "unat nx \<le> a + 65535"
  shows "unwrap (th_seqno (ts_header seg)) isn nx = of_nat a"
proof -
  have "unat (of_nat a :: u64) = a" using assms(2) by (rule of_nat_le_word)
  with assms show ?thesis by (simp add: stream_seg_seqno unwrap_wrap)
qed

lemma ack_loop_ok:
  assumes "seg_chain W e isn a segs (unat nx)" and "unat nx \<le> a + 65535"
    and "unat bif = unat nx - a" and "a \<le> unat A"
  shows "\<exists>acked rest b bif'. ack_loop A isn nx bif segs = (bif', rest) \<and> segs = acked @ rest \<and>
    unat bif' = unat nx - b \<and> seg_chain W e isn a acked b \<and> seg_chain W e isn b rest (unat nx) \<and>
    b \<le> unat A \<and> (rest \<noteq> [] \<longrightarrow> unat A < b + seg_len (hd rest))"
  using assms
proof (induction segs arbitrary: a bif)
  case Nil
  then show ?case by force
next
  case (Cons seg segs)
  have seg: "stream_seg W e isn a seg" "seg_chain W e isn (a + seg_len seg) segs (unat nx)"
    using Cons.prems(1) by simp_all
  have le: "a + seg_len seg \<le> unat nx" using seg_chain_le [OF seg(2)] .
  have u: "unwrap (th_seqno (ts_header seg)) isn nx = of_nat a"
    using le Cons.prems(2) by (intro unwrap_seg [OF seg(1)]) simp_all
  have ua: "unat (of_nat a :: u64) = a" using le by (intro of_nat_le_word [of _ nx]) simp
  have len: "unat (TCPSegment_length_in_sequence_space seg) = seg_len seg"
    by (rule stream_seg_length [OF seg(1)])
  have "unat (of_nat a + TCPSegment_length_in_sequence_space seg) = a + seg_len seg"
    using le unat_lt64 [of nx] by (subst unat_add64) (simp_all add: ua len del: unat_lt64)
  then have cond: "of_nat a + TCPSegment_length_in_sequence_space seg \<le> A \<longleftrightarrow> a + seg_len seg \<le> unat A"
    by (simp add: word_le_nat_alt)
  show ?case
  proof (cases "a + seg_len seg \<le> unat A")
    case True
    let ?bif = "bif - TCPSegment_length_in_sequence_space seg"
    have "unat ?bif = unat nx - (a + seg_len seg)"
      using Cons.prems(3) le by (subst unat_sub64) (simp_all add: len word_le_nat_alt)
    from Cons.IH [OF seg(2) _ this True] Cons.prems(2) obtain acked rest b bif' where
      "ack_loop A isn nx ?bif segs = (bif', rest)" "segs = acked @ rest" "unat bif' = unat nx - b"
      "seg_chain W e isn (a + seg_len seg) acked b" "seg_chain W e isn b rest (unat nx)"
      "b \<le> unat A" "rest \<noteq> [] \<longrightarrow> unat A < b + seg_len (hd rest)"
      by auto
    moreover from this(4) seg(1) have "seg_chain W e isn a (seg # acked) b" by simp
    ultimately show ?thesis using True by (simp add: u cond) (metis append_Cons)
  next
    case False
    then have "ack_loop A isn nx bif (seg # segs) = (bif, seg # segs)" by (simp add: u cond)
    moreover have "seg_chain W e isn a [] a" by simp
    ultimately show ?thesis using False Cons.prems by (metis append_Nil list.sel(1) not_le)
  qed
qed

lemma ack_unacceptable:
  assumes "unwrap ackno (snd_isn s) (snd_next_seqno s) \<le> snd_una_seqno s \<or>
      snd_next_seqno s < unwrap ackno (snd_isn s) (snd_next_seqno s)"
  shows "TCPSender_ack_received s ackno win = s\<lparr>snd_window_size := ucast win\<rparr>"
  using assms by (simp add: TCPSender_ack_received_def Let_def)

lemma snd_inv_window:
  assumes "snd_inv W s" and "snd_next_seqno s \<noteq> 0 \<or> unat win \<le> 1 \<or> bs_str (snd_stream s) = []"
  shows "snd_inv W (s\<lparr>snd_window_size := ucast (win :: u16)\<rparr>)"
proof -
  have u: "unat (ucast win :: u64) = unat win" by (simp add: unat_ucast_widen)
  have "unat win \<le> 65535" using unat_lt16 [of win] by linarith
  with assms u show ?thesis by (auto simp: snd_inv_def snd_pos_inv_def snd_flight_inv_def)
qed

definition snd_acked :: "bytes \<Rightarrow> TCPSender \<Rightarrow> nat \<Rightarrow> TCPSender \<Rightarrow> bool" where
  "snd_acked W s A s' \<longleftrightarrow>
     (\<exists>acked. snd_outstanding_segments s = acked @ snd_outstanding_segments s' \<and>
        seg_chain W (bs_input_is_end (snd_stream s)) (snd_isn s) (snd_base s) acked (snd_base s') \<and>
        snd_base s' \<le> A \<and>
        (snd_outstanding_segments s' \<noteq> [] \<longrightarrow> A < snd_base s' + seg_len (hd (snd_outstanding_segments s')))) \<and>
     snd_next_seqno s' = snd_next_seqno s \<and> unat (snd_una_seqno s') = A \<and>
     snd_segments_out s' = snd_segments_out s \<and> snd_stream s' = snd_stream s \<and> snd_isn s' = snd_isn s \<and>
     snd_cur_rto s' = ucast (snd_initial_retransmission_timeout s) \<and> snd_consecutive_retrans_times s' = 0"

lemma ack_acceptable:
  fixes win :: u16
  assumes inv: "snd_inv W s" and A: "A = unwrap ackno (snd_isn s) (snd_next_seqno s)"
    and acc: "snd_una_seqno s < A" "A \<le> snd_next_seqno s"
  defines "s' \<equiv> TCPSender_ack_received s ackno win"
  shows "snd_acked W s (unat A) s'" and "snd_window_size s' = ucast win" and "snd_inv W s'"
proof -
  have fl: "snd_flight_inv W s" using inv by (simp add: snd_inv_def)
  let ?nx = "snd_next_seqno s" let ?e = "bs_input_is_end (snd_stream s)"
  have "seg_chain W ?e (snd_isn s) (snd_base s) (snd_outstanding_segments s) (unat ?nx)"
    "unat ?nx \<le> snd_base s + 65535" "unat (snd_bytes_in_flight s) = unat ?nx - snd_base s"
    "snd_base s \<le> unat A"
    using fl acc by (auto simp: snd_flight_inv_def word_less_nat_alt)
  from ack_loop_ok [OF this] obtain acked rest b bif' where
    l: "ack_loop A (snd_isn s) ?nx (snd_bytes_in_flight s) (snd_outstanding_segments s) = (bif', rest)"
    "snd_outstanding_segments s = acked @ rest" "unat bif' = unat ?nx - b"
    "seg_chain W ?e (snd_isn s) (snd_base s) acked b" "seg_chain W ?e (snd_isn s) b rest (unat ?nx)"
    "b \<le> unat A" "rest \<noteq> [] \<longrightarrow> unat A < b + seg_len (hd rest)"
    by blast
  have s': "s' = s\<lparr>snd_window_size := ucast win, snd_una_seqno := A, snd_bytes_in_flight := bif',
      snd_outstanding_segments := rest, snd_cur_rto := ucast (snd_initial_retransmission_timeout s),
      snd_consecutive_retrans_times := 0,
      snd_timer := (if rest = [] then RetransmissionTimer_stop (snd_timer s)
        else RetransmissionTimer_start (RetransmissionTimer_stop (snd_timer s))
               (ucast (snd_initial_retransmission_timeout s)))\<rparr>"
    using acc l(1) by (auto simp: s'_def TCPSender_ack_received_def Let_def A [symmetric] not_le not_less)
  have b: "b \<le> unat ?nx" using seg_chain_le [OF l(5)] .
  then have base: "snd_base s' = b" using l(3) by (simp add: s')
  show "snd_acked W s (unat A) s'"
    unfolding snd_acked_def base using l by (auto simp: s')
  show "snd_window_size s' = ucast win" by (simp add: s')
  have u: "unat (ucast win :: u64) \<le> 65535"
    using unat_lt16 [of win] by (simp add: unat_ucast_widen del: unat_lt16)
  have "?nx \<noteq> 0" using acc by auto
  then have "snd_pos_inv s'" using inv by (simp add: s' snd_inv_def snd_pos_inv_def)
  moreover have "snd_flight_inv W s'"
    using fl l b acc u seg_chain_le [OF l(4)] unfolding snd_flight_inv_def base
    by (auto simp: s' RetransmissionTimer_defs word_le_nat_alt)
  ultimately show "snd_inv W s'" using inv by (simp add: s' snd_inv_def)
qed

section \<open>Time\<close>

lemma tick_eq:
  "TCPSender_tick s ms =
     (let t = RetransmissionTimer_tick (snd_timer s) ms;
          s1 = s\<lparr>snd_cur_time := snd_cur_time s + ms, snd_timer := t\<rparr>
      in if RetransmissionTimer_expired t \<and> snd_outstanding_segments s \<noteq> []
         then let rto = (if snd_window_size s \<noteq> 0 then push_bit 1 (snd_cur_rto s) else snd_cur_rto s)
              in s1\<lparr>snd_segments_out := snd_segments_out s @ [hd (snd_outstanding_segments s)],
                    snd_consecutive_retrans_times := snd_consecutive_retrans_times s +
                      (if snd_window_size s \<noteq> 0 then 1 else 0),
                    snd_cur_rto := rto,
                    snd_timer := \<lparr>rt_ddl = rto, rt_cur = 0, rt_is_start = True\<rparr>\<rparr>
         else s1)"
  by (cases "snd_timer s")
     (auto simp: TCPSender_tick_def Let_def RetransmissionTimer_start_def RetransmissionTimer_stop_def)

lemma tick_inv: "snd_inv W s \<Longrightarrow> snd_inv W (TCPSender_tick s ms)"
  unfolding tick_eq Let_def
  by (cases "snd_outstanding_segments s")
     (auto simp: snd_inv_def snd_pos_inv_def snd_flight_inv_def out_seg_def RetransmissionTimer_tick_def)

text \<open>
  Time passes in steps; the timer has run for \<open>rt_cur\<close> milliseconds. Once the steps add up
  to the rest of the timeout, the oldest segment in flight has been queued again.
\<close>

definition tick_all :: "TCPSender \<Rightarrow> u64 list \<Rightarrow> TCPSender" where
  "tick_all s mss = foldl TCPSender_tick s mss"

lemma tick_queue:
  "\<exists>new. snd_segments_out (TCPSender_tick s ms) = snd_segments_out s @ new"
  by (simp add: tick_eq Let_def)

lemma tick_all_queue: "\<exists>new. snd_segments_out (tick_all s mss) = snd_segments_out s @ new"
proof (induction mss arbitrary: s)
  case Nil
  then show ?case by (simp add: tick_all_def)
next
  case (Cons ms mss)
  from Cons.IH [of "TCPSender_tick s ms"] tick_queue [of s ms] show ?case
    by (auto simp: tick_all_def)
qed

lemma tick_all_retransmits:
  assumes "rt_is_start (snd_timer s)" and "snd_outstanding_segments s = seg # segs"
    and "mss \<noteq> []"
    and "unat (rt_ddl (snd_timer s)) \<le> unat (rt_cur (snd_timer s)) + sum_list (map unat mss)"
    and "unat (rt_cur (snd_timer s)) + sum_list (map unat mss) < 2 ^ 64"
  shows "\<exists>new. snd_segments_out (tick_all s mss) = snd_segments_out s @ seg # new"
  using assms
proof (induction mss arbitrary: s)
  case Nil
  then show ?case by simp
next
  case (Cons ms mss)
  let ?t = "snd_timer s" let ?s = "TCPSender_tick s ms"
  have c: "unat (rt_cur ?t + ms) = unat (rt_cur ?t) + unat ms"
    using Cons.prems(5) by (intro unat_add64) simp
  show ?case
  proof (cases "unat (rt_ddl ?t) \<le> unat (rt_cur ?t) + unat ms")
    case True
    then have "snd_segments_out ?s = snd_segments_out s @ [seg]"
      using Cons.prems(1,2) c
      by (simp add: tick_eq Let_def RetransmissionTimer_expired_def RetransmissionTimer_tick_def word_le_nat_alt)
    with tick_all_queue [of ?s mss] show ?thesis by (auto simp: tick_all_def)
  next
    case False
    then have s: "?s = s\<lparr>snd_cur_time := snd_cur_time s + ms, snd_timer := ?t\<lparr>rt_cur := rt_cur ?t + ms\<rparr>\<rparr>"
      using Cons.prems(1) c
      by (simp add: tick_eq Let_def RetransmissionTimer_expired_def RetransmissionTimer_tick_def word_le_nat_alt)
    have "mss \<noteq> []" using Cons.prems(4) False by auto
    with Cons.IH [of ?s] Cons.prems False show ?thesis by (simp add: s c tick_all_def)
  qed
qed

text \<open>
  The schedule of the retransmissions: the \<open>n\<close>-th wait is \<open>2 ^ n\<close> times the first timeout, or
  the timeout itself while the window is zero, and the \<open>n\<close>-th retransmission is due after the
  first \<open>n\<close> waits.
\<close>

definition backoff_wait :: "bool \<Rightarrow> nat \<Rightarrow> nat \<Rightarrow> nat" where
  "backoff_wait zero_window rto n = (if zero_window then rto else rto * 2 ^ n)"

definition backoff_due :: "bool \<Rightarrow> nat \<Rightarrow> nat \<Rightarrow> nat" where
  "backoff_due zero_window rto n = sum_list (map (backoff_wait zero_window rto) [0..<n])"

lemma backoff_due_Suc: "backoff_due z rto (Suc n) = backoff_due z rto n + backoff_wait z rto n"
  by (simp add: backoff_due_def)

lemma backoff_due_mono: "m \<le> n \<Longrightarrow> backoff_due z rto m \<le> backoff_due z rto n"
  by (induction n) (auto simp: backoff_due_Suc le_Suc_eq)

lemma backoff_wait_le: "backoff_wait z rto n \<le> backoff_due z rto n + rto"
  by (induction n) (auto simp: backoff_due_Suc backoff_wait_def backoff_due_def)

text \<open>Where a run of the timer is on the schedule, after \<open>t\<close> milliseconds in ticks of at most \<open>d\<close>.\<close>

definition backoff_on :: "TCPSender \<Rightarrow> TCPSegment \<Rightarrow> nat \<Rightarrow> nat \<Rightarrow> nat \<Rightarrow> TCPSender \<Rightarrow> bool" where
  "backoff_on s seg d t n s' \<longleftrightarrow>
     (let z = (snd_window_size s = 0); rto = unat (snd_cur_rto s)
      in snd_segments_out s' = snd_segments_out s @ replicate n seg \<and>
         snd_outstanding_segments s' = snd_outstanding_segments s \<and> snd_window_size s' = snd_window_size s \<and>
         unat (snd_cur_rto s') = backoff_wait z rto n \<and> rt_ddl (snd_timer s') = snd_cur_rto s' \<and>
         snd_consecutive_retrans_times s' = snd_consecutive_retrans_times s + (if z then 0 else of_nat n) \<and>
         rt_is_start (snd_timer s') \<and> unat (rt_cur (snd_timer s')) < backoff_wait z rto n \<and>
         backoff_due z rto n + unat (rt_cur (snd_timer s')) \<le> t \<and>
         t \<le> backoff_due z rto n + unat (rt_cur (snd_timer s')) + n * (d - 1))"

lemma backoff_tick:
  assumes on: "backoff_on s seg d t n s'" and out: "snd_outstanding_segments s = seg # segs"
    and ms: "unat ms \<le> d" and b: "t + unat ms + unat (snd_cur_rto s) < 2 ^ 64"
  shows "\<exists>n. backoff_on s seg d (t + unat ms) n (TCPSender_tick s' ms)"
proof -
  let ?z = "snd_window_size s = 0" and ?rto = "unat (snd_cur_rto s)" and ?t = "snd_timer s'"
  note o = on [unfolded backoff_on_def Let_def]
  have c: "unat (rt_cur ?t + ms) = unat (rt_cur ?t) + unat ms" using o b by (intro unat_add64) linarith
  have ex: "RetransmissionTimer_expired (RetransmissionTimer_tick ?t ms) \<longleftrightarrow>
      backoff_wait ?z ?rto n \<le> unat (rt_cur ?t) + unat ms"
    using o c by (simp add: RetransmissionTimer_expired_def RetransmissionTimer_tick_def word_le_nat_alt)
  show ?thesis
  proof (cases "backoff_wait ?z ?rto n \<le> unat (rt_cur ?t) + unat ms")
    case True
    let ?r = "if snd_window_size s' \<noteq> 0 then push_bit 1 (snd_cur_rto s') else snd_cur_rto s'"
    have due: "backoff_due ?z ?rto (Suc n) \<le> t + unat ms" using True o by (simp add: backoff_due_Suc)
    then have "backoff_wait ?z ?rto (Suc n) < 2 ^ 64" using backoff_wait_le [of ?z ?rto "Suc n"] b by linarith
    then have r: "unat ?r = backoff_wait ?z ?rto (Suc n)"
      using o unat_add64 [of "snd_cur_rto s'" "snd_cur_rto s'"]
      by (auto simp: backoff_wait_def push_bit_eq_mult mult_2_right)
    have pos: "0 < backoff_wait ?z ?rto (Suc n)"
      using o by (cases "?rto = 0") (auto simp: backoff_wait_def split: if_splits)
    have "t + unat ms \<le> backoff_due ?z ?rto (Suc n) + Suc n * (d - 1)"
      using o ms True by (simp add: backoff_due_Suc) linarith
    with True ex o out due pos r have "backoff_on s seg d (t + unat ms) (Suc n) (TCPSender_tick s' ms)"
      unfolding backoff_on_def Let_def tick_eq by (auto simp: replicate_append_same)
    then show ?thesis by blast
  next
    case False
    with ex o c have "backoff_on s seg d (t + unat ms) n (TCPSender_tick s' ms)"
      unfolding backoff_on_def Let_def tick_eq by (simp add: RetransmissionTimer_tick_def)
    then show ?thesis by blast
  qed
qed

lemma tick_all_schedule:
  assumes "rt_is_start (snd_timer s)" and "snd_outstanding_segments s = seg # segs"
    and "rt_cur (snd_timer s) = 0" and "rt_ddl (snd_timer s) = snd_cur_rto s" and "snd_cur_rto s \<noteq> 0"
    and "\<forall>ms \<in> set mss. unat ms \<le> d"
    and "sum_list (map unat mss) + unat (snd_cur_rto s) < 2 ^ 64"
  shows "\<exists>n. backoff_on s seg d (sum_list (map unat mss)) n (tick_all s mss)"
  using assms(6,7)
proof (induction mss rule: rev_induct)
  case Nil
  have "backoff_on s seg d 0 0 s"
    using assms(1-5) by (simp add: backoff_on_def Let_def backoff_wait_def backoff_due_def unat_gt_0)
  then show ?case by (auto simp: tick_all_def)
next
  case (snoc ms mss)
  then obtain n where "backoff_on s seg d (sum_list (map unat mss)) n (tick_all s mss)" by auto
  from backoff_tick [OF this assms(2), of ms] snoc.prems show ?case by (auto simp: tick_all_def)
qed

section \<open>The SYN flag of the shared segment\<close>

text \<open>
  Before the SYN is sent the sequence number and the count of bytes in flight are equal.
  Once SYN is set in the segment of the loop, every round sends a segment with SYN, and counts
  it only in the first.
\<close>

lemma syn_round:
  assumes bs: "bs_inv (snd_stream s)"
    and w: "unat (snd_bytes_in_flight s) < unat w" "unat w \<le> 65535"
    and nx: "snd_next_seqno s = snd_bytes_in_flight s" and e: "\<not> snd_is_transmission_ended s"
    and syn: "th_syn (ts_header seg) \<or> snd_next_seqno s = 0" and nf: "\<not> th_fin (ts_header seg)"
  defines "s' \<equiv> fst (fill_round w s seg)" and "sg \<equiv> round_seg w s seg"
  shows "snd_segments_out s' = snd_segments_out s @ [sg]" and "th_syn (ts_header sg)"
    and "snd_bytes_in_flight s' + 1 = snd_bytes_in_flight s + (if snd_next_seqno s = 0 then 1 else 0) +
           TCPSegment_length_in_sequence_space sg"
    and "bs_str (snd_stream s') \<noteq> [] \<Longrightarrow> unat (snd_bytes_in_flight s') < unat w \<Longrightarrow>
           fill_loop w s seg = fill_loop w s' sg"
    and "snd_next_seqno s' = snd_bytes_in_flight s'" and "snd_next_seqno s' \<noteq> 0"
    and "bs_inv (snd_stream s')"
    and "bs_str (snd_stream s') \<noteq> [] \<Longrightarrow> \<not> snd_is_transmission_ended s' \<and> \<not> th_fin (ts_header sg)"
    and "\<not> (bs_str (snd_stream s') \<noteq> [] \<and> unat (snd_bytes_in_flight s') < unat w) \<Longrightarrow> fill_loop w s seg = s'"
    and "bs_str (snd_stream s') \<noteq> [] \<Longrightarrow> unat (snd_bytes_in_flight s') < unat w \<Longrightarrow>
           unat (snd_bytes_in_flight s) < unat (snd_bytes_in_flight s')"
proof -
  note v = round_stream_values [OF bs w]
  show sy: "th_syn (ts_header sg)" using syn by (auto simp: sg_def round_seg_def)
  then show "snd_segments_out s' = snd_segments_out s @ [sg]"
    by (simp add: s'_def fill_round_eq fill_push_def sg_def round_state_def)
  have bif: "snd_bytes_in_flight s' = round_bif s + round_len w s + (if round_fin w s then 1 else 0)"
    and st: "snd_stream s' = fst (round_read w s)" and en: "snd_is_transmission_ended s' = round_fin w s"
    using e by (simp_all add: s'_def fill_round_eq round_state_def)
  show "snd_bytes_in_flight s' + 1 = snd_bytes_in_flight s + (if snd_next_seqno s = 0 then 1 else 0) +
      TCPSegment_length_in_sequence_space sg"
    using sy nf by (simp add: bif TCPSegment_length_in_sequence_space_def round_bif_def sg_def round_seg_def round_len_def)
  show bs': "bs_inv (snd_stream s')" using v(5) by (simp add: st)
  show eq: "snd_next_seqno s' = snd_bytes_in_flight s'"
    by (simp add: bif nx round_bif_def s'_def fill_round_eq round_state_def round_next_def)
  have u: "unat (snd_bytes_in_flight s') =
      unat (snd_bytes_in_flight s) + round_z s + length (round_data w s) + round_f w s"
    using v(9) by (simp add: s'_def fill_round_eq)
  have "0 < unat (snd_bytes_in_flight s) + round_z s"
    using nx unat_gt_0 [of "snd_bytes_in_flight s"] by (cases "snd_next_seqno s = 0") (simp_all add: round_z_def)
  with u have "0 < unat (snd_bytes_in_flight s')" by linarith
  then show "snd_next_seqno s' \<noteq> 0" unfolding eq by (simp add: unat_gt_0)
  show "unat (snd_bytes_in_flight s) < unat (snd_bytes_in_flight s')"
    if "bs_str (snd_stream s') \<noteq> []" "unat (snd_bytes_in_flight s') < unat w"
    using that u v(6) by (cases "round_data w s = []") (auto simp: st round_data_def)
  show "bs_str (snd_stream s') \<noteq> [] \<Longrightarrow> \<not> snd_is_transmission_ended s' \<and> \<not> th_fin (ts_header sg)"
    using v(8) nf by (simp add: en st sg_def round_seg_def)
  have r: "fill_round w s seg = (s', sg)" by (simp add: s'_def sg_def fill_round_eq)
  have le: "w - snd_bytes_in_flight s' \<noteq> 0 \<longleftrightarrow> unat (snd_bytes_in_flight s') < unat w"
    using u v(10) by (metis eq_iff_diff_eq_0 le_neq_implies_less less_irrefl word_unat_eq_iff)
  have "fill_loop w s seg = (if bs_str (snd_stream s') \<noteq> [] \<and> unat (snd_bytes_in_flight s') < unat w
      then fill_loop w s' sg else s')"
    unfolding le [symmetric] using e bs_buffer_empty_iff [OF bs'] by (subst fill_loop.simps) (simp add: r Let_def)
  then show "bs_str (snd_stream s') \<noteq> [] \<Longrightarrow> unat (snd_bytes_in_flight s') < unat w \<Longrightarrow>
      fill_loop w s seg = fill_loop w s' sg"
    "\<not> (bs_str (snd_stream s') \<noteq> [] \<and> unat (snd_bytes_in_flight s') < unat w) \<Longrightarrow> fill_loop w s seg = s'"
    by argo+
qed

lemma fill_loop_syn:
  assumes "bs_inv (snd_stream s)" and "unat (snd_bytes_in_flight s) < unat w" and "unat w \<le> 65535"
    and "snd_next_seqno s = snd_bytes_in_flight s" and "\<not> snd_is_transmission_ended s"
    and "th_syn (ts_header seg) \<or> snd_next_seqno s = 0" and "\<not> th_fin (ts_header seg)"
  shows "\<exists>new. new \<noteq> [] \<and> snd_segments_out (fill_loop w s seg) = snd_segments_out s @ new \<and>
     (\<forall>seg \<in> set new. th_syn (ts_header seg)) \<and>
     snd_bytes_in_flight (fill_loop w s seg) + of_nat (length new) =
       snd_bytes_in_flight s + (if snd_next_seqno s = 0 then 1 else 0) +
       sum_list (map TCPSegment_length_in_sequence_space new)"
  using assms
proof (induction "unat w - unat (snd_bytes_in_flight s)" arbitrary: s seg rule: less_induct)
  case less
  let ?s = "fst (fill_round w s seg)" and ?sg = "round_seg w s seg"
  note r = syn_round [OF less.prems]
  show ?case
  proof (cases "bs_str (snd_stream ?s) \<noteq> [] \<and> unat (snd_bytes_in_flight ?s) < unat w")
    case False
    with r(1-3,9) show ?thesis by (intro exI [of _ "[?sg]"]) simp
  next
    case True
    have "unat (snd_bytes_in_flight s) < unat (snd_bytes_in_flight ?s)"
      using r(10) True by simp
    then have "unat w - unat (snd_bytes_in_flight ?s) < unat w - unat (snd_bytes_in_flight s)" using True by linarith
    from less.hyps [OF this r(7) _ less.prems(3) r(5), of ?sg] r(2,6,8) True obtain new where
      new: "snd_segments_out (fill_loop w ?s ?sg) = snd_segments_out ?s @ new"
        "\<forall>seg \<in> set new. th_syn (ts_header seg)"
        "snd_bytes_in_flight (fill_loop w ?s ?sg) + of_nat (length new) =
          snd_bytes_in_flight ?s + sum_list (map TCPSegment_length_in_sequence_space new)" by auto
    with True r(1-4) show ?thesis
      by (intro exI [of _ "?sg # new"]) (auto simp: algebra_simps)
  qed
qed

section \<open>Reachable states\<close>

lemma seg_chain_det: "seg_chain W e isn a segs b \<Longrightarrow> seg_chain W e isn a segs c \<Longrightarrow> b = c"
  by (induction segs arbitrary: a) auto

lemma fill_window_new:
  assumes "snd_inv W s"
  shows "\<exists>new. snd_sends s new (TCPSender_fill_window s) \<and>
    seg_chain W (bs_input_is_end (snd_stream s)) (snd_isn s) (unat (snd_next_seqno s)) new
      (unat (snd_next_seqno (TCPSender_fill_window s)))"
proof -
  let ?s = "TCPSender_fill_window s" let ?e = "bs_input_is_end (snd_stream s)"
  note f = fill_window_ok [OF assms]
  obtain new where new: "snd_sends s new ?s" using f(2) by blast
  have "seg_chain W ?e (snd_isn s) (snd_base s) (snd_outstanding_segments s @ new) (unat (snd_next_seqno ?s))"
    using f(1) new by (auto simp: snd_inv_def snd_flight_inv_def snd_sends_def)
  moreover have "seg_chain W ?e (snd_isn s) (snd_base s) (snd_outstanding_segments s) (unat (snd_next_seqno s))"
    using assms by (simp add: snd_inv_def snd_flight_inv_def)
  ultimately have "seg_chain W ?e (snd_isn s) (unat (snd_next_seqno s)) new (unat (snd_next_seqno ?s))"
    unfolding seg_chain_append by (blast dest: seg_chain_det)
  with new show ?thesis by blast
qed

lemma seg_chain_sum: "seg_chain W e isn a segs b \<Longrightarrow> b = a + sum_list (map seg_len segs)"
proof (induction segs arbitrary: a)
  case (Cons seg segs)
  then have "b = a + seg_len seg + sum_list (map seg_len segs)" by simp
  then show ?case by simp
qed simp

lemma snd_inv_frames [simp]:
  "snd_pos_inv (s\<lparr>snd_segments_out := q\<rparr>) = snd_pos_inv s"
  "snd_flight_inv W (s\<lparr>snd_segments_out := q\<rparr>) = snd_flight_inv W s"
  "snd_pos_inv (s\<lparr>snd_stream := ByteStream_set_error (snd_stream s)\<rparr>) = snd_pos_inv s"
  "snd_flight_inv W (s\<lparr>snd_stream := ByteStream_set_error (snd_stream s)\<rparr>) = snd_flight_inv W s"
  by (simp_all add: snd_pos_inv_def snd_flight_inv_def)

lemma snd_inv_empty: "snd_inv W s \<Longrightarrow> snd_inv W (TCPSender_send_empty_segment s)"
proof -
  assume inv: "snd_inv W s"
  have "out_seg W (bs_input_is_end (snd_stream s)) (snd_isn s) (empty_seg (snd_isn s) (unat (snd_next_seqno s)))"
    using snd_inv_next_bound [OF inv] by (auto simp: out_seg_def)
  with inv show ?thesis
    by (simp add: TCPSender_send_empty_segment_def Let_def snd_inv_def empty_seg_def)
qed

lemma snd_inv_pop:
  "snd_inv W s \<Longrightarrow> snd_segments_out s = seg # q \<Longrightarrow> snd_inv W (s\<lparr>snd_segments_out := q\<rparr>)"
  by (simp add: snd_inv_def)

lemma snd_inv_write:
  assumes inv: "snd_inv W s" and open_in: "\<not> bs_input_is_end (snd_stream s)"
    and win: "snd_next_seqno s \<noteq> 0 \<or> unat (snd_window_size s) \<le> 1"
    and small: "length W + length d + 2 < 2 ^ 64"
  defines "n \<equiv> unat (snd (ByteStream_write (snd_stream s) d))"
  shows "snd_inv (W @ take n d) (s\<lparr>snd_stream := fst (ByteStream_write (snd_stream s) d)\<rparr>)"
proof -
  let ?st = "snd_stream s" let ?st' = "fst (ByteStream_write ?st d)"
  have st: "snd_stream_inv W ?st" using inv by (simp add: snd_inv_def)
  then have bs: "bs_inv ?st" by (simp add: snd_stream_inv_def)
  have "bs_str ?st' = bs_str ?st @ take n d" unfolding n_def by (rule bsf.put_conserves [OF bs])
  with st small bs have "snd_stream_inv (W @ take n d) ?st'"
    by (auto simp: snd_stream_inv_def bs_inv_write)
  moreover have "snd_pos_inv (s\<lparr>snd_stream := ?st'\<rparr>)"
    using inv win open_in by (auto simp: snd_inv_def snd_pos_inv_def split: if_splits)
  moreover have "snd_flight_inv (W @ take n d) (s\<lparr>snd_stream := ?st'\<rparr>)"
    using inv open_in by (auto simp: snd_inv_def snd_flight_inv_def intro: seg_chain_mono)
  moreover have "\<forall>seg \<in> set (snd_segments_out s). out_seg (W @ take n d) (bs_input_is_end ?st') (snd_isn s) seg"
    using inv open_in by (auto simp: snd_inv_def intro: out_seg_mono)
  ultimately show ?thesis by (simp add: snd_inv_def)
qed

lemma snd_inv_end:
  assumes inv: "snd_inv W s"
  shows "snd_inv W (s\<lparr>snd_stream := ByteStream_end_input (snd_stream s)\<rparr>)"
proof -
  have "seg_chain W True (snd_isn s) (snd_base s) (snd_outstanding_segments s) (unat (snd_next_seqno s))"
    using inv seg_chain_mono [of W _ _ _ _ _ "[]" True] by (auto simp: snd_inv_def snd_flight_inv_def)
  moreover have "\<forall>seg \<in> set (snd_segments_out s). out_seg W True (snd_isn s) seg"
    using inv out_seg_mono [of W _ _ _ "[]" True] by (auto simp: snd_inv_def)
  ultimately show ?thesis using inv
    by (auto simp: snd_inv_def snd_stream_inv_def snd_pos_inv_def snd_flight_inv_def bs_inv_end_input)
qed

lemma snd_inv_error:
  "snd_inv W s \<Longrightarrow> snd_inv W (s\<lparr>snd_stream := ByteStream_set_error (snd_stream s)\<rparr>)"
  by (simp add: snd_inv_def snd_stream_inv_def bs_inv_set_error)

lemma snd_inv_ack:
  assumes "snd_inv W s" and "snd_next_seqno s \<noteq> 0 \<or> unat win \<le> 1 \<or> bs_str (snd_stream s) = []"
  shows "snd_inv W (TCPSender_ack_received s ackno win)"
  using assms ack_unacceptable [of ackno s win] ack_acceptable(3) [OF assms(1) refl, of ackno win]
    snd_inv_window [OF assms] by (metis not_le)

text \<open>
  How the owner of a sender uses it: bytes are written while the stream is open, and no
  data is offered with a window of more than one before the SYN went out.
\<close>

inductive snd_reach :: "u64 \<Rightarrow> u16 \<Rightarrow> WrappingInt32 option \<Rightarrow> u32 \<Rightarrow> bytes \<Rightarrow> TCPSender \<Rightarrow> bool"
  for c t i r where
  init: "snd_reach c t i r [] (TCPSender_new c t i r)"
| write_in: "snd_reach c t i r W s \<Longrightarrow> \<not> bs_input_is_end (snd_stream s) \<Longrightarrow>
    snd_next_seqno s \<noteq> 0 \<or> unat (snd_window_size s) \<le> 1 \<Longrightarrow> length W + length d + 2 < 2 ^ 64 \<Longrightarrow>
    snd_reach c t i r (W @ take (unat (snd (ByteStream_write (snd_stream s) d))) d)
      (s\<lparr>snd_stream := fst (ByteStream_write (snd_stream s) d)\<rparr>)"
| end_in: "snd_reach c t i r W s \<Longrightarrow>
    snd_reach c t i r W (s\<lparr>snd_stream := ByteStream_end_input (snd_stream s)\<rparr>)"
| error_in: "snd_reach c t i r W s \<Longrightarrow>
    snd_reach c t i r W (s\<lparr>snd_stream := ByteStream_set_error (snd_stream s)\<rparr>)"
| fill: "snd_reach c t i r W s \<Longrightarrow> snd_reach c t i r W (TCPSender_fill_window s)"
| ack: "snd_reach c t i r W s \<Longrightarrow>
    snd_next_seqno s \<noteq> 0 \<or> unat win \<le> 1 \<or> bs_str (snd_stream s) = [] \<Longrightarrow>
    snd_reach c t i r W (TCPSender_ack_received s ackno win)"
| time: "snd_reach c t i r W s \<Longrightarrow> snd_reach c t i r W (TCPSender_tick s ms)"
| empty: "snd_reach c t i r W s \<Longrightarrow> snd_reach c t i r W (TCPSender_send_empty_segment s)"
| pop: "snd_reach c t i r W s \<Longrightarrow> snd_segments_out s = seg # q \<Longrightarrow>
    snd_reach c t i r W (s\<lparr>snd_segments_out := q\<rparr>)"

lemma snd_reach_inv: "snd_reach c t i r W s \<Longrightarrow> snd_inv W s"
  by (induction rule: snd_reach.induct)
     (auto intro: snd_inv_new snd_inv_write snd_inv_end snd_inv_error fill_window_ok(1) snd_inv_ack
       tick_inv snd_inv_empty snd_inv_pop)

text \<open>The evaluation rules of the examples.\<close>

lemmas snd_eval = TCPSender_new_def ByteStream_new_def RetransmissionTimer_defs TCPSender_fill_window_def
  fill_loop.simps fill_round_def fill_syn_def fill_payload_def fill_fin_def fill_push_def
  ByteStream_read_def ByteStream_peek_output_def ByteStream_pop_output_def ByteStream_write_def
  ByteStream_accessors MAX_PAYLOAD_SIZE_def TCPSegment_default_def TCPHeader_default_def Buffer_size_def
  wrap_eq Let_def

abbreviation fresh_sender :: TCPSender where
  "fresh_sender \<equiv> TCPSender_new 10 1000 (Some (WrappingInt32 5)) 0"

section \<open>Properties\<close>

text \<open>C8. \<open>fill_window\<close> cuts the next part of the stream into segments: the same segments go to
  the output queue and to the segments in flight, they continue the stream at
  \<open>_next_seqno\<close> without gap or overlap, what is in flight stays within the window (a zero
  window counts as one), and if there was room the call stops only when the window is full
  or everything written, and the FIN of an ended stream, has been sent.\<close>

theorem sender_fill_window:
  assumes "snd_inv W s"
  shows "\<exists>new. snd_segments_out (TCPSender_fill_window s) = snd_segments_out s @ new \<and>
     snd_outstanding_segments (TCPSender_fill_window s) = snd_outstanding_segments s @ new \<and>
     seg_chain W (ByteStream_input_ended (snd_stream s)) (snd_isn s) (unat (snd_next_seqno s)) new
       (unat (snd_next_seqno (TCPSender_fill_window s))) \<and>
     unat (snd_bytes_in_flight (TCPSender_fill_window s)) \<le>
       max (unat (snd_bytes_in_flight s)) (max 1 (unat (snd_window_size s))) \<and>
     (unat (snd_bytes_in_flight s) < max 1 (unat (snd_window_size s)) \<longrightarrow>
        unat (snd_bytes_in_flight (TCPSender_fill_window s)) = max 1 (unat (snd_window_size s)) \<or>
        ByteStream_buffer_empty (snd_stream (TCPSender_fill_window s)) \<and>
        (ByteStream_input_ended (snd_stream s) \<longrightarrow> snd_is_transmission_ended (TCPSender_fill_window s)))"
proof -
  note f = fill_window_ok [OF assms]
  obtain new where new: "snd_sends s new (TCPSender_fill_window s)"
    "seg_chain W (bs_input_is_end (snd_stream s)) (snd_isn s) (unat (snd_next_seqno s)) new
      (unat (snd_next_seqno (TCPSender_fill_window s)))"
    using fill_window_new [OF assms] by blast
  have w: "unat (actual_window s) = max 1 (unat (snd_window_size s))"
    using unat_gt_0 [of "snd_window_size s"] by (simp add: max_def Suc_le_eq)
  have "bs_inv (snd_stream (TCPSender_fill_window s))" using f(1) by (simp add: snd_inv_def snd_stream_inv_def)
  with new f(3,4) w show ?thesis unfolding snd_sends_def
    by (auto simp: window_filled_def bs_buffer_empty_iff ByteStream_input_ended_def word_less_nat_alt)
qed

theorem sender_fill_window_witness:
  "snd_segments_out (TCPSender_fill_window fresh_sender) = [the_seg (WrappingInt32 5) 0 [] False] \<and>
   seg_chain [] False (WrappingInt32 5) 0 [the_seg (WrappingInt32 5) 0 [] False] 1"
proof -
  have "snd_segments_out (TCPSender_fill_window fresh_sender) = [the_seg (WrappingInt32 5) 0 [] False]"
    "snd_next_seqno (TCPSender_fill_window fresh_sender) = 1"
    by (simp_all add: snd_eval the_seg_def)
  with sender_fill_window [OF snd_inv_new, of 10 1000 "Some (WrappingInt32 5)" 0] show ?thesis
    by (auto simp: TCPSender_new_def ByteStream_new_def sponge_defs)
qed

text \<open>C9. \<open>ack_received\<close>: an acknowledgment number is accepted exactly when it stands for an
  absolute number \<open>A\<close> in the outstanding range; then exactly the segments that end at or
  before \<open>A\<close> leave the queue, the count of bytes in flight is what remains, and the timeout
  and the retransmission count are reset. Any other acknowledgment changes the window only.\<close>

theorem sender_ack_received:
  assumes "snd_inv W s"
  shows "(\<forall>A. snd_una_seqno s < A \<and> A \<le> snd_next_seqno s \<and> wrap A (snd_isn s) = ackno \<longrightarrow>
            snd_acked W s (unat A) (TCPSender_ack_received s ackno win) \<and>
            snd_window_size (TCPSender_ack_received s ackno win) = ucast win \<and>
            snd_inv W (TCPSender_ack_received s ackno win)) \<and>
         ((\<nexists>A. snd_una_seqno s < A \<and> A \<le> snd_next_seqno s \<and> wrap A (snd_isn s) = ackno) \<longrightarrow>
            TCPSender_ack_received s ackno win = s\<lparr>snd_window_size := ucast win\<rparr>)"
proof -
  let ?A = "unwrap ackno (snd_isn s) (snd_next_seqno s)" let ?s = "TCPSender_ack_received s ackno win"
  have near: "unat (snd_next_seqno s) < unat (snd_una_seqno s) + 2 ^ 31"
    using assms by (auto simp: snd_inv_def snd_flight_inv_def)
  note acc = seqno.accept_iff [OF near, of ackno "snd_isn s"]
  have eq: "A = ?A" if "snd_una_seqno s < A" "A \<le> snd_next_seqno s" "wrap A (snd_isn s) = ackno" for A
    using that near seqno.from_to [of A "snd_next_seqno s" "snd_isn s"]
    by (auto simp: word_less_nat_alt word_le_nat_alt)
  show ?thesis
  proof (cases "snd_una_seqno s < ?A \<and> ?A \<le> snd_next_seqno s")
    case True
    then have "\<exists>A. snd_una_seqno s < A \<and> A \<le> snd_next_seqno s \<and> wrap A (snd_isn s) = ackno"
      using acc by simp
    moreover note ok = ack_acceptable [OF assms refl, of ackno win] True
    have "snd_acked W s (unat A) ?s \<and> snd_window_size ?s = ucast win \<and> snd_inv W ?s"
      if "snd_una_seqno s < A \<and> A \<le> snd_next_seqno s \<and> wrap A (snd_isn s) = ackno" for A
      using ok eq [of A] that by simp
    ultimately show ?thesis by simp
  next
    case False
    then have "?A \<le> snd_una_seqno s \<or> snd_next_seqno s < ?A" by (simp add: not_less not_le)
    from ack_unacceptable [OF this, of win] False acc show ?thesis by blast
  qed
qed

theorem sender_ack_received_witness:
  "snd_acked [] (TCPSender_fill_window fresh_sender) 1
     (TCPSender_ack_received (TCPSender_fill_window fresh_sender) (WrappingInt32 6) 100) \<and>
   snd_outstanding_segments (TCPSender_fill_window fresh_sender) \<noteq> []"
proof -
  have "snd_una_seqno (TCPSender_fill_window fresh_sender) = 0"
    "snd_next_seqno (TCPSender_fill_window fresh_sender) = 1"
    "snd_isn (TCPSender_fill_window fresh_sender) = WrappingInt32 5"
    "snd_outstanding_segments (TCPSender_fill_window fresh_sender) \<noteq> []"
    by (simp_all add: snd_eval)
  moreover have "wrap 1 (WrappingInt32 5) = WrappingInt32 6" by (simp add: wrap_eq)
  ultimately show ?thesis
    using sender_ack_received [OF fill_window_ok(1) [OF snd_inv_new], of 10 1000 "Some (WrappingInt32 5)" 0
        "WrappingInt32 6" 100, THEN conjunct1, rule_format, of 1] by simp
qed


abbreviation example_sender :: TCPSender where
  "example_sender \<equiv> TCPSender_fill_window (TCPSender_ack_received (TCPSender_fill_window
     (fresh_sender\<lparr>snd_stream := fst (ByteStream_write (snd_stream fresh_sender) [7, 8])\<rparr>))
     (WrappingInt32 6) 100)"

lemma example_sender_reach: "snd_reach 10 1000 (Some (WrappingInt32 5)) 0 [7, 8] example_sender"
proof -
  let ?c = 10 and ?t = 1000 and ?i = "Some (WrappingInt32 5)" and ?r = 0
  let ?s1 = "fresh_sender\<lparr>snd_stream := fst (ByteStream_write (snd_stream fresh_sender) [7, 8])\<rparr>"
  have "snd_reach ?c ?t ?i ?r ([] @ take (unat (snd (ByteStream_write (snd_stream fresh_sender) [7, 8]))) [7, 8]) ?s1"
    by (rule snd_reach.write_in [OF snd_reach.init]) (simp_all add: TCPSender_new_def ByteStream_new_def)
  then have "snd_reach ?c ?t ?i ?r [7, 8] ?s1"
    by (simp add: TCPSender_new_def ByteStream_new_def ByteStream_write_def Let_def sponge_defs)
  then have "snd_reach ?c ?t ?i ?r [7, 8] (TCPSender_fill_window ?s1)" by (rule snd_reach.fill)
  moreover have "snd_next_seqno (TCPSender_fill_window ?s1) \<noteq> 0" by (simp add: snd_eval)
  ultimately show ?thesis by (blast intro: snd_reach.fill snd_reach.ack)
qed


text \<open>C10. Retransmission is live: while a segment is in flight and no acknowledgment arrives, once
  the passing time adds up to what is left of the timeout, the oldest segment in flight has
  been queued for sending again, however the time is split into ticks.\<close>

theorem sender_retransmits:
  assumes "snd_inv W s" and "snd_outstanding_segments s = seg # segs" and "mss \<noteq> []"
    and "unat (rt_ddl (snd_timer s)) \<le> unat (rt_cur (snd_timer s)) + sum_list (map unat mss)"
    and "unat (rt_cur (snd_timer s)) + sum_list (map unat mss) < 2 ^ 64"
  shows "\<exists>new. snd_segments_out (tick_all s mss) = snd_segments_out s @ seg # new"
  using assms by (intro tick_all_retransmits) (auto simp: snd_inv_def snd_flight_inv_def)

theorem sender_retransmits_witness:
  "\<exists>new. snd_segments_out (tick_all (TCPSender_fill_window fresh_sender) [999, 1]) =
     snd_segments_out (TCPSender_fill_window fresh_sender) @ the_seg (WrappingInt32 5) 0 [] False # new"
  by (rule sender_retransmits [OF fill_window_ok(1) [OF snd_inv_new], of _ _ _ _ _ "[]"])
     (simp_all add: snd_eval the_seg_def)

text \<open>C11. Exponential back-off, from a freshly started timer and without any acknowledgment in
  between: after any sequence of ticks of at most \<open>d\<close> milliseconds each, the oldest segment has been queued
  exactly \<open>n\<close> times more and nothing else was queued, where the \<open>n\<close> timeouts
  \<open>rto, 2 * rto, 4 * rto, \<dots>\<close> have passed and the next one has not (each expiry is noticed late by less than a
  tick, so with ticks of one millisecond \<open>n\<close> is determined by the time alone). The timeout then is
  \<open>2 ^ n * rto\<close> and \<open>n\<close> retries have been counted. With a zero window the segment is repeated every \<open>rto\<close>
  milliseconds, and neither the timeout nor the count changes.\<close>

theorem sender_backoff_schedule:
  assumes "snd_inv W s" and "snd_outstanding_segments s = seg # segs"
    and "rt_cur (snd_timer s) = 0" and "rt_ddl (snd_timer s) = snd_cur_rto s" and "snd_cur_rto s \<noteq> 0"
    and "\<forall>ms \<in> set mss. unat ms \<le> d"
    and "sum_list (map unat mss) + unat (snd_cur_rto s) < 2 ^ 64"
  shows "\<exists>n. (let z = (snd_window_size s = 0); rto = unat (snd_cur_rto s); s' = tick_all s mss
     in snd_segments_out s' = snd_segments_out s @ replicate n seg \<and>
        unat (snd_cur_rto s') = backoff_wait z rto n \<and>
        TCPSender_consecutive_retransmissions s' =
          TCPSender_consecutive_retransmissions s + (if z then 0 else of_nat n) \<and>
        backoff_due z rto n \<le> sum_list (map unat mss) \<and>
        sum_list (map unat mss) < backoff_due z rto (Suc n) + n * (d - 1))"
proof -
  have "rt_is_start (snd_timer s)" using assms(1,2) by (simp add: snd_inv_def snd_flight_inv_def)
  from tick_all_schedule [OF this assms(2-7)] obtain n where
    n: "backoff_on s seg d (sum_list (map unat mss)) n (tick_all s mss)" by blast
  then have "sum_list (map unat mss) <
      backoff_due (snd_window_size s = 0) (unat (snd_cur_rto s)) (Suc n) + n * (d - 1)"
    unfolding backoff_on_def Let_def backoff_due_Suc by linarith
  with n show ?thesis
    unfolding Let_def backoff_on_def TCPSender_consecutive_retransmissions_def
    by (intro exI [of _ n]) simp
qed

theorem sender_backoff_schedule_witness:
  "(let s = TCPSender_fill_window fresh_sender; s' = tick_all s (replicate 3000 1)
    in snd_segments_out s' = snd_segments_out s @ replicate 2 (the_seg (WrappingInt32 5) 0 [] False) \<and>
       unat (snd_cur_rto s') = 4000)"
proof -
  let ?s = "TCPSender_fill_window fresh_sender" let ?m = "replicate 3000 (1 :: u64)"
  have f: "snd_outstanding_segments ?s = [the_seg (WrappingInt32 5) 0 [] False]" "snd_window_size ?s = 1"
    "snd_cur_rto ?s = 1000" "snd_timer ?s = \<lparr>rt_ddl = 1000, rt_cur = 0, rt_is_start = True\<rparr>"
    by (simp_all add: snd_eval the_seg_def)
  have s: "sum_list (map unat ?m) = 3000" by (simp only: map_replicate sum_list_replicate) simp
  have m: "\<forall>ms \<in> set ?m. unat ms \<le> 1" by (simp only: set_replicate_conv_if) simp
  have due: "backoff_due False 1000 (Suc 0) = 1000" "backoff_due False 1000 (Suc 1) = 3000" "backoff_due False 1000 3 = 7000"
    by (simp_all add: backoff_due_def backoff_wait_def upt_rec)
  from sender_backoff_schedule [OF fill_window_ok(1) [OF snd_inv_new] f(1), of ?m 1] obtain n where
    n: "snd_segments_out (tick_all ?s ?m) = snd_segments_out ?s @ replicate n (the_seg (WrappingInt32 5) 0 [] False)"
      "unat (snd_cur_rto (tick_all ?s ?m)) = backoff_wait False 1000 n"
      "backoff_due False 1000 n \<le> 3000" "3000 < backoff_due False 1000 (Suc n)"
    using m unfolding s Let_def f by auto
  have "\<not> 3 \<le> n" using backoff_due_mono [of 3 n False 1000] n(3) due(3) by linarith
  moreover have "n \<noteq> 0" using n(4) due(1) by (cases n) simp_all
  moreover have "n \<noteq> 1" using n(4) due(2) by (intro notI) simp
  ultimately have "n = 2" by linarith
  with n(1,2) show ?thesis unfolding Let_def backoff_wait_def by (simp only:) simp
qed

abbreviation leak_sender :: "bytes \<Rightarrow> TCPSender" where
  "leak_sender d \<equiv> fresh_sender\<lparr>snd_window_size := 2000,
     snd_stream := fst (ByteStream_write (ByteStream_new 2000) d)\<rparr>"

text \<open>C18. The SYN flag leaks: the segment object is shared by all rounds of the loop. Whenever the
  window is larger than one full segment before the SYN was sent, and more than one full payload is
  waiting, \<open>fill_window\<close> sends at least two segments, every one of them carries SYN, and together
  they occupy one sequence number more per further segment than \<open>_bytes_in_flight\<close> has
  counted.\<close>

theorem syn_flag_leaks:
  assumes "bs_inv (snd_stream s)" and "snd_next_seqno s = 0" and "snd_bytes_in_flight s = 0"
    and "\<not> snd_is_transmission_ended s"
    and "1001 < unat (snd_window_size s)" and "unat (snd_window_size s) \<le> 65535"
    and "1000 < length (bs_str (snd_stream s))"
  shows "\<exists>new. snd_segments_out (TCPSender_fill_window s) = snd_segments_out s @ new \<and> 2 \<le> length new \<and>
     (\<forall>seg \<in> set new. th_syn (ts_header seg)) \<and>
     sum_list (map TCPSegment_length_in_sequence_space new) =
       TCPSender_bytes_in_flight (TCPSender_fill_window s) + of_nat (length new - 1)"
proof -
  let ?w = "snd_window_size s" and ?seg = TCPSegment_default
  let ?s = "fst (fill_round ?w s ?seg)" and ?sg = "round_seg ?w s ?seg"
  have w: "unat (snd_bytes_in_flight s) < unat ?w" using assms(3,5) by simp
  have d: "\<not> th_fin (ts_header ?seg)" by (simp add: TCPSegment_default_def TCPHeader_default_def)
  have w0: "?w \<noteq> 0" "\<not> ?w \<le> snd_bytes_in_flight s" using assms(3,5) by (auto simp: word_le_nat_alt)
  have len: "length (round_data ?w s) = 1000" "round_z s = 1"
    using assms(2,3,5,7) by (simp_all add: round_data_def round_z_def)
  note v = round_stream_values [OF assms(1) w assms(6)]
  have nf: "\<not> round_fin ?w s" "bs_str (fst (round_read ?w s)) \<noteq> []" using v(6,8) len assms(7) by auto
  have nx: "snd_next_seqno s = snd_bytes_in_flight s" "th_syn (ts_header ?seg) \<or> snd_next_seqno s = 0"
    using assms(2,3) by simp_all
  note r = syn_round [OF assms(1) w assms(6) nx(1) assms(4) nx(2) d]
  have more: "bs_str (snd_stream ?s) \<noteq> []" "unat (snd_bytes_in_flight ?s) < unat ?w"
    using nf v(9) len assms(3,5) by (simp_all add: fill_round_eq round_state_def round_f_def)
  have "TCPSender_fill_window s = fill_loop ?w s ?seg"
    using w0 by (simp add: TCPSender_fill_window_def Let_def)
  with r(4) more have eq: "TCPSender_fill_window s = fill_loop ?w ?s ?sg" by simp
  from fill_loop_syn [OF r(7) more(2) assms(6) r(5), of ?sg] r(2,6,8) more obtain new where
    new: "new \<noteq> []" "snd_segments_out (fill_loop ?w ?s ?sg) = snd_segments_out ?s @ new"
      "\<forall>seg \<in> set new. th_syn (ts_header seg)"
      "snd_bytes_in_flight (fill_loop ?w ?s ?sg) + of_nat (length new) =
        snd_bytes_in_flight ?s + sum_list (map TCPSegment_length_in_sequence_space new)" by auto
  show ?thesis unfolding eq
    using new r(1-3) assms(2,3) by (intro exI [of _ "?sg # new"]) (auto simp: sponge_defs Suc_le_eq algebra_simps)
qed

theorem syn_flag_leaks_witness:
  "2 \<le> length (snd_segments_out (TCPSender_fill_window (leak_sender (replicate 1001 0)))) \<and>
   list_all (\<lambda>seg. th_syn (ts_header seg)) (snd_segments_out (TCPSender_fill_window (leak_sender (replicate 1001 0))))"
proof -
  define d where "d = replicate 1001 (0 :: u8)"
  have d: "length d = 1001" unfolding d_def by (simp only: length_replicate)
  have b: "bs_inv (snd_stream (leak_sender d))" by (simp add: bs_inv_write bs_inv_new)
  have l: "length (bs_str (snd_stream (leak_sender d))) = 1001" using d by (simp add: snd_eval)
  from syn_flag_leaks [of "leak_sender d"] b l show ?thesis
    unfolding d_def [symmetric] by (auto simp: TCPSender_new_def list_all_iff)
qed

end
