(* ===== verification/TCP_State.thy ===== *)
theory TCP_State
  imports TCP_Receiver TCP_Sender
begin

text \<open>
  The summary of a connection's state that the tests and \<open>TCPConnection\<close> compare:
  \<open>libsponge/tcp_helpers/tcp_state.hh\<close> and \<open>tcp_state.cc\<close>. The summaries of the sender and of
  the receiver are the strings of the source.
\<close>

section \<open>The class\<close>

record TCPState =
  tst_sender :: string
  tst_receiver :: string
  tst_active :: bool
  tst_linger_after_streams_finish :: bool

definition TCPState_default :: TCPState where
  "TCPState_default =
     \<lparr>tst_sender = '''', tst_receiver = '''', tst_active = True,
      tst_linger_after_streams_finish = True\<rparr>"

datatype State =
    LISTEN
  | SYN_RCVD
  | SYN_SENT
  | ESTABLISHED
  | CLOSE_WAIT
  | LAST_ACK
  | FIN_WAIT_1
  | FIN_WAIT_2
  | CLOSING
  | TIME_WAIT
  | CLOSED
  | RESET

definition Receiver_ERROR :: string where
  "Receiver_ERROR = ''error (connection was reset)''"

definition Receiver_LISTEN :: string where
  "Receiver_LISTEN = ''waiting for SYN: ackno is empty''"

definition Receiver_SYN_RECV :: string where
  "Receiver_SYN_RECV = ''SYN received (ackno exists), and input to stream hasn't ended''"

definition Receiver_FIN_RECV :: string where
  "Receiver_FIN_RECV = ''input to stream has ended''"

definition Sender_ERROR :: string where
  "Sender_ERROR = ''error (connection was reset)''"

definition Sender_CLOSED :: string where
  "Sender_CLOSED = ''waiting for stream to begin (no SYN sent)''"

definition Sender_SYN_SENT :: string where
  "Sender_SYN_SENT = ''stream started but nothing acknowledged''"

definition Sender_SYN_ACKED :: string where
  "Sender_SYN_ACKED = ''stream ongoing''"

definition Sender_FIN_SENT :: string where
  "Sender_FIN_SENT = ''stream finished (FIN sent) but not fully acknowledged''"

definition Sender_FIN_ACKED :: string where
  "Sender_FIN_ACKED = ''stream finished and fully acknowledged''"

definition TCPState_eq :: "TCPState \<Rightarrow> TCPState \<Rightarrow> bool" where
  "TCPState_eq this other \<longleftrightarrow>
     tst_active this = tst_active other \<and>
     tst_linger_after_streams_finish this = tst_linger_after_streams_finish other \<and>
     tst_sender this = tst_sender other \<and> tst_receiver this = tst_receiver other"

definition TCPState_ne :: "TCPState \<Rightarrow> TCPState \<Rightarrow> bool" where
  "TCPState_ne this other \<longleftrightarrow> \<not> TCPState_eq this other"

text \<open>\<open>std::to_string\<close> of a \<open>bool\<close>, which is promoted to \<open>int\<close>.\<close>

definition to_string_bool :: "bool \<Rightarrow> string" where
  "to_string_bool b = (if b then ''1'' else ''0'')"

definition TCPState_name :: "TCPState \<Rightarrow> string" where
  "TCPState_name s =
     ''sender=`'' @ tst_sender s @ ''`, receiver=`'' @ tst_receiver s @ ''`, active='' @
     to_string_bool (tst_active s) @ '', linger_after_streams_finish='' @
     to_string_bool (tst_linger_after_streams_finish s)"

fun TCPState_of_State :: "State \<Rightarrow> TCPState" where
  "TCPState_of_State LISTEN =
     TCPState_default\<lparr>tst_receiver := Receiver_LISTEN, tst_sender := Sender_CLOSED\<rparr>"
| "TCPState_of_State SYN_RCVD =
     TCPState_default\<lparr>tst_receiver := Receiver_SYN_RECV, tst_sender := Sender_SYN_SENT\<rparr>"
| "TCPState_of_State SYN_SENT =
     TCPState_default\<lparr>tst_receiver := Receiver_LISTEN, tst_sender := Sender_SYN_SENT\<rparr>"
| "TCPState_of_State ESTABLISHED =
     TCPState_default\<lparr>tst_receiver := Receiver_SYN_RECV, tst_sender := Sender_SYN_ACKED\<rparr>"
| "TCPState_of_State CLOSE_WAIT =
     TCPState_default\<lparr>tst_receiver := Receiver_FIN_RECV, tst_sender := Sender_SYN_ACKED,
       tst_linger_after_streams_finish := False\<rparr>"
| "TCPState_of_State LAST_ACK =
     TCPState_default\<lparr>tst_receiver := Receiver_FIN_RECV, tst_sender := Sender_FIN_SENT,
       tst_linger_after_streams_finish := False\<rparr>"
| "TCPState_of_State CLOSING =
     TCPState_default\<lparr>tst_receiver := Receiver_FIN_RECV, tst_sender := Sender_FIN_SENT\<rparr>"
| "TCPState_of_State FIN_WAIT_1 =
     TCPState_default\<lparr>tst_receiver := Receiver_SYN_RECV, tst_sender := Sender_FIN_SENT\<rparr>"
| "TCPState_of_State FIN_WAIT_2 =
     TCPState_default\<lparr>tst_receiver := Receiver_SYN_RECV, tst_sender := Sender_FIN_ACKED\<rparr>"
| "TCPState_of_State TIME_WAIT =
     TCPState_default\<lparr>tst_receiver := Receiver_FIN_RECV, tst_sender := Sender_FIN_ACKED\<rparr>"
| "TCPState_of_State RESET =
     TCPState_default\<lparr>tst_receiver := Receiver_ERROR, tst_sender := Sender_ERROR,
       tst_linger_after_streams_finish := False, tst_active := False\<rparr>"
| "TCPState_of_State CLOSED =
     TCPState_default\<lparr>tst_receiver := Receiver_FIN_RECV, tst_sender := Sender_FIN_ACKED,
       tst_linger_after_streams_finish := False, tst_active := False\<rparr>"

definition state_summary_receiver :: "TCPReceiver \<Rightarrow> string" where
  "state_summary_receiver receiver =
     (if ByteStream_error (TCPReceiver_stream_out receiver) then Receiver_ERROR
      else if TCPReceiver_ackno receiver = None then Receiver_LISTEN
      else if ByteStream_input_ended (TCPReceiver_stream_out receiver) then Receiver_FIN_RECV
      else Receiver_SYN_RECV)"

definition state_summary_sender :: "TCPSender \<Rightarrow> string" where
  "state_summary_sender sender =
     (if ByteStream_error (snd_stream sender) then Sender_ERROR
      else if TCPSender_next_seqno_absolute sender = 0 then Sender_CLOSED
      else if TCPSender_next_seqno_absolute sender = TCPSender_bytes_in_flight sender then Sender_SYN_SENT
      else if \<not> ByteStream_eof (snd_stream sender) then Sender_SYN_ACKED
      else if TCPSender_next_seqno_absolute sender < ByteStream_bytes_written (snd_stream sender) + 2
      then Sender_SYN_ACKED
      else if TCPSender_bytes_in_flight sender \<noteq> 0 then Sender_FIN_SENT
      else Sender_FIN_ACKED)"

definition TCPState_new :: "TCPSender \<Rightarrow> TCPReceiver \<Rightarrow> bool \<Rightarrow> bool \<Rightarrow> TCPState" where
  "TCPState_new sender receiver active linger =
     \<lparr>tst_sender = state_summary_sender sender, tst_receiver = state_summary_receiver receiver,
      tst_active = active, tst_linger_after_streams_finish = (if active then linger else False)\<rparr>"

section \<open>The summaries tell the states apart\<close>

lemmas summary_defs = Receiver_ERROR_def Receiver_LISTEN_def Receiver_SYN_RECV_def Receiver_FIN_RECV_def
  Sender_ERROR_def Sender_CLOSED_def Sender_SYN_SENT_def Sender_SYN_ACKED_def Sender_FIN_SENT_def
  Sender_FIN_ACKED_def

lemma summaries_distinct [simp]:
  "distinct [Receiver_ERROR, Receiver_LISTEN, Receiver_SYN_RECV, Receiver_FIN_RECV]"
  "distinct [Sender_ERROR, Sender_CLOSED, Sender_SYN_SENT, Sender_SYN_ACKED, Sender_FIN_SENT, Sender_FIN_ACKED]"
  by (simp_all add: summary_defs)

lemma TCPState_eq_iff [simp]: "TCPState_eq a b \<longleftrightarrow> a = b"
  by (cases a, cases b) (auto simp: TCPState_eq_def)

text \<open>C17. The twelve official states have pairwise different summaries, so the comparison
  \<open>state() == TCPState(State)\<close> identifies the state: no two of them are equal.\<close>

theorem official_states_distinct:
  "TCPState_eq (TCPState_of_State a) (TCPState_of_State b) \<longleftrightarrow> a = b"
  using summaries_distinct by (cases a; cases b) (auto simp: TCPState_default_def)

text \<open>
  What the summary of a sender that satisfies its invariant says: which part of the
  life of the stream it is in.
\<close>

lemma bif_zero_iff:
  assumes "snd_inv W s"
  shows "snd_bytes_in_flight s = 0 \<longleftrightarrow> snd_outstanding_segments s = []"
proof -
  have c: "seg_chain W (bs_input_is_end (snd_stream s)) (snd_isn s) (snd_base s)
      (snd_outstanding_segments s) (unat (snd_next_seqno s))"
    and le: "unat (snd_bytes_in_flight s) \<le> unat (snd_next_seqno s)"
    using assms by (simp_all add: snd_inv_def snd_flight_inv_def)
  from le seg_chain_less [OF c] c show ?thesis
    by (cases "snd_outstanding_segments s") (auto simp: unat_eq_0 [symmetric])
qed

lemma sender_ended_iff:
  assumes inv: "snd_inv W s" and nz: "snd_next_seqno s \<noteq> 0"
  shows "snd_is_transmission_ended s \<longleftrightarrow> ByteStream_eof (snd_stream s) \<and>
           \<not> snd_next_seqno s < ByteStream_bytes_written (snd_stream s) + 2"
proof -
  let ?st = "snd_stream s"
  have st: "bs_inv ?st" "unat (bs_bytes_read ?st) \<le> length W" "bs_str ?st = drop (unat (bs_bytes_read ?st)) W"
    "length W + 2 < 2 ^ 64" using inv by (simp_all add: snd_inv_def snd_stream_inv_def)
  then have "unat (bs_bytes_written ?st) = length W"
    by (auto simp: bs_inv_def unat_add64)
  then have "unat (bs_bytes_written ?st + 2) = length W + 2" using st(4) by (subst unat_add64) simp_all
  moreover have "unat (snd_next_seqno s) = 1 + unat (bs_bytes_read ?st) + (if snd_is_transmission_ended s then 1 else 0)"
    "snd_is_transmission_ended s \<longrightarrow> bs_input_is_end ?st \<and> bs_str ?st = []"
    using inv nz by (simp_all add: snd_inv_def snd_pos_inv_def)
  ultimately show ?thesis using st by (auto simp: bs_eof_iff word_less_nat_alt ByteStream_bytes_written_def)
qed

text \<open>What the summary of a sender says: with the invariant of the sender, each of the
  strings stands for one phase of the life of the stream.\<close>

lemma sender_summary_meaning:
  assumes "snd_inv W s"
  shows "state_summary_sender s =
    (if ByteStream_error (snd_stream s) then Sender_ERROR
     else if snd_next_seqno s = 0 then Sender_CLOSED
     else if snd_base s = 0 then Sender_SYN_SENT
     else if \<not> snd_is_transmission_ended s then Sender_SYN_ACKED
     else if snd_outstanding_segments s \<noteq> [] then Sender_FIN_SENT
     else Sender_FIN_ACKED)"
proof -
  have "snd_next_seqno s = snd_bytes_in_flight s \<longleftrightarrow> snd_base s = 0"
    using assms by (auto simp: snd_inv_def snd_flight_inv_def word_unat_eq_iff)
  with sender_ended_iff [OF assms] bif_zero_iff [OF assms] show ?thesis
    by (auto simp: state_summary_sender_def sponge_defs)
qed

end
