(* ===== verification/TCP_Connection.thy ===== *)
theory TCP_Connection
  imports TCP_State
begin

text \<open>
  The endpoint of a connection: \<open>libsponge/tcp_connection.hh\<close> and \<open>tcp_connection.cc\<close>. It
  owns a receiver and a sender, stamps every outgoing segment with the receiver's
  acknowledgment number and window, and decides when the connection is over. The
  receiver may throw, so \<open>segment_received\<close> returns a result of type \<open>exn + TCPConnection\<close>.
\<close>

section \<open>The class\<close>

record TCPConnection =
  con_cfg :: TCPConfig
  con_receiver :: TCPReceiver
  con_sender :: TCPSender
  con_segments_out :: "TCPSegment list"
  con_linger_after_streams_finish :: bool
  con_time_since_last_seg_received :: u64

text \<open>The last argument is the random number the sender draws when no sequence number is configured.\<close>

definition TCPConnection_new :: "TCPConfig \<Rightarrow> u32 \<Rightarrow> TCPConnection" where
  "TCPConnection_new cfg random =
     \<lparr>con_cfg = cfg, con_receiver = TCPReceiver_new (cfg_recv_capacity cfg),
      con_sender = TCPSender_new (cfg_send_capacity cfg) (cfg_rt_timeout cfg) (cfg_fixed_isn cfg) random,
      con_segments_out = [], con_linger_after_streams_finish = True,
      con_time_since_last_seg_received = 0\<rparr>"

definition TCPConnection_remaining_outbound_capacity :: "TCPConnection \<Rightarrow> u64" where
  "TCPConnection_remaining_outbound_capacity c = ByteStream_remaining_capacity (snd_stream (con_sender c))"

definition TCPConnection_bytes_in_flight :: "TCPConnection \<Rightarrow> u64" where
  "TCPConnection_bytes_in_flight c = TCPSender_bytes_in_flight (con_sender c)"

definition TCPConnection_unassembled_bytes :: "TCPConnection \<Rightarrow> u64" where
  "TCPConnection_unassembled_bytes c = TCPReceiver_unassembled_bytes (con_receiver c)"

definition TCPConnection_time_since_last_segment_received :: "TCPConnection \<Rightarrow> u64" where
  "TCPConnection_time_since_last_segment_received c = con_time_since_last_seg_received c"

definition TCPConnection_inbound_stream :: "TCPConnection \<Rightarrow> ByteStream" where
  "TCPConnection_inbound_stream c = TCPReceiver_stream_out (con_receiver c)"

text \<open>\<open>stream_in().set_error()\<close> and \<open>stream_out().set_error()\<close> through the references the accessors return.\<close>

definition TCPSender_set_error :: "TCPSender \<Rightarrow> TCPSender" where
  "TCPSender_set_error s = s\<lparr>snd_stream := ByteStream_set_error (snd_stream s)\<rparr>"

definition TCPReceiver_set_error :: "TCPReceiver \<Rightarrow> TCPReceiver" where
  "TCPReceiver_set_error r =
     r\<lparr>rcv_reassembler := (rcv_reassembler r)
         \<lparr>sr_output := ByteStream_set_error (sr_output (rcv_reassembler r))\<rparr>\<rparr>"

definition set_errors :: "TCPConnection \<Rightarrow> TCPConnection" where
  "set_errors c =
     (let c = c\<lparr>con_sender := TCPSender_set_error (con_sender c)\<rparr>
      in c\<lparr>con_receiver := TCPReceiver_set_error (con_receiver c)\<rparr>)"

definition TCPConnection_active :: "TCPConnection \<Rightarrow> bool" where
  "TCPConnection_active c =
     (if ByteStream_error (snd_stream (con_sender c)) \<or>
         ByteStream_error (TCPReceiver_stream_out (con_receiver c)) then False
      else if con_linger_after_streams_finish c \<and>
         con_time_since_last_seg_received c < 10 * ucast (cfg_rt_timeout (con_cfg c)) then True
      else if TCPSender_bytes_in_flight (con_sender c) \<noteq> 0 then True
      else if ByteStream_input_ended (snd_stream (con_sender c)) \<and>
         ByteStream_input_ended (TCPReceiver_stream_out (con_receiver c)) then False
      else True)"

definition TCPConnection_state :: "TCPConnection \<Rightarrow> TCPState" where
  "TCPConnection_state c =
     TCPState_new (con_sender c) (con_receiver c) (TCPConnection_active c) (con_linger_after_streams_finish c)"

text \<open>
  \<open>_send_all_outbounding_segments\<close>: the loop takes the segments off the sender's queue and
  adds the receiver's fields to each.
\<close>

definition stamp_segment :: "TCPReceiver \<Rightarrow> TCPSegment \<Rightarrow> TCPSegment" where
  "stamp_segment receiver seg_out =
     (let seg_out =
            (case TCPReceiver_ackno receiver of
               None \<Rightarrow> seg_out
             | Some ackno \<Rightarrow>
                 seg_out\<lparr>ts_header := (ts_header seg_out)\<lparr>th_ack := True, th_ackno := ackno\<rparr>\<rparr>)
      in seg_out\<lparr>ts_header := (ts_header seg_out)
                   \<lparr>th_win := ucast (min (TCPReceiver_window_size receiver) 0xFFFF)\<rparr>\<rparr>)"

fun send_loop :: "TCPReceiver \<Rightarrow> TCPSegment list \<Rightarrow> TCPSegment list \<Rightarrow> TCPSegment list" where
  "send_loop receiver [] segments_out = segments_out"
| "send_loop receiver (seg # queue) segments_out =
     send_loop receiver queue (segments_out @ [stamp_segment receiver seg])"

definition send_all_outbounding_segments :: "TCPConnection \<Rightarrow> TCPConnection" where
  "send_all_outbounding_segments c =
     c\<lparr>con_segments_out :=
         send_loop (con_receiver c) (snd_segments_out (con_sender c)) (con_segments_out c),
       con_sender := (con_sender c)\<lparr>snd_segments_out := []\<rparr>\<rparr>"

definition send_rst_segment :: "TCPConnection \<Rightarrow> TCPConnection" where
  "send_rst_segment c =
     (let c = c\<lparr>con_sender := TCPSender_send_empty_segment (con_sender c)\<rparr>;
          seg_out = hd (snd_segments_out (con_sender c));
          c = c\<lparr>con_sender := (con_sender c)\<lparr>snd_segments_out := tl (snd_segments_out (con_sender c))\<rparr>\<rparr>;
          seg_out = seg_out\<lparr>ts_header := (ts_header seg_out)\<lparr>th_rst := True\<rparr>\<rparr>
      in c\<lparr>con_segments_out := con_segments_out c @ [seg_out]\<rparr>)"

definition is_keep_alive :: "TCPReceiver \<Rightarrow> TCPSegment \<Rightarrow> bool" where
  "is_keep_alive receiver seg =
     (case TCPReceiver_ackno receiver of
        None \<Rightarrow> False
      | Some ackno \<Rightarrow>
          TCPSegment_length_in_sequence_space seg = 0 \<and> th_seqno (ts_header seg) = wi_sub ackno 1)"

text \<open>The part of \<open>segment_received\<close> after the receiver has taken the segment.\<close>

definition after_receiver :: "TCPConnection \<Rightarrow> TCPSegment \<Rightarrow> TCPConnection" where
  "after_receiver c seg =
     (let c = (if th_ack (ts_header seg)
               then c\<lparr>con_sender := TCPSender_ack_received (con_sender c)
                        (th_ackno (ts_header seg)) (th_win (ts_header seg))\<rparr>
               else c);
          c = (if ByteStream_input_ended (TCPReceiver_stream_out (con_receiver c)) \<and>
                  \<not> ByteStream_eof (snd_stream (con_sender c))
               then c\<lparr>con_linger_after_streams_finish := False\<rparr>
               else c);
          c = c\<lparr>con_sender := TCPSender_fill_window (con_sender c)\<rparr>
      in if snd_segments_out (con_sender c) = [] then
           if TCPSegment_length_in_sequence_space seg \<noteq> 0
           then send_all_outbounding_segments
                  (c\<lparr>con_sender := TCPSender_send_empty_segment (con_sender c)\<rparr>)
           else c
         else send_all_outbounding_segments c)"

definition TCPConnection_segment_received :: "TCPConnection \<Rightarrow> TCPSegment \<Rightarrow> exn + TCPConnection" where
  "TCPConnection_segment_received c seg =
     (let c = c\<lparr>con_time_since_last_seg_received := 0\<rparr>
      in if th_rst (ts_header seg) then Inr (set_errors c)
         else if is_keep_alive (con_receiver c) seg
         then Inr (send_all_outbounding_segments
                     (c\<lparr>con_sender := TCPSender_send_empty_segment (con_sender c)\<rparr>))
         else if TCPState_eq (TCPConnection_state c) (TCPState_of_State LISTEN) \<and>
                 \<not> th_syn (ts_header seg)
         then Inr c
         else
           (case TCPReceiver_segment_received (con_receiver c) seg of
              Inl e \<Rightarrow> Inl e
            | Inr receiver \<Rightarrow> Inr (after_receiver (c\<lparr>con_receiver := receiver\<rparr>) seg)))"

definition TCPConnection_write :: "TCPConnection \<Rightarrow> bytes \<Rightarrow> TCPConnection \<times> u64" where
  "TCPConnection_write c data =
     (let (stream, ret) = ByteStream_write (snd_stream (con_sender c)) data;
          c = c\<lparr>con_sender := (con_sender c)\<lparr>snd_stream := stream\<rparr>\<rparr>;
          c = c\<lparr>con_sender := TCPSender_fill_window (con_sender c)\<rparr>
      in (send_all_outbounding_segments c, ret))"

definition TCPConnection_tick :: "TCPConnection \<Rightarrow> u64 \<Rightarrow> TCPConnection" where
  "TCPConnection_tick c ms_since_last_tick =
     (let c = c\<lparr>con_time_since_last_seg_received :=
                  con_time_since_last_seg_received c + ms_since_last_tick\<rparr>;
          c = c\<lparr>con_sender := TCPSender_tick (con_sender c) ms_since_last_tick\<rparr>
      in if MAX_RETX_ATTEMPTS < TCPSender_consecutive_retransmissions (con_sender c)
         then set_errors (send_rst_segment c)
         else send_all_outbounding_segments c)"

definition TCPConnection_end_input_stream :: "TCPConnection \<Rightarrow> TCPConnection" where
  "TCPConnection_end_input_stream c =
     (let c = c\<lparr>con_sender := (con_sender c)
                  \<lparr>snd_stream := ByteStream_end_input (snd_stream (con_sender c))\<rparr>\<rparr>;
          c = c\<lparr>con_sender := TCPSender_fill_window (con_sender c)\<rparr>
      in if snd_segments_out (con_sender c) = [] \<or>
            \<not> th_fin (ts_header (hd (snd_segments_out (con_sender c))))
         then c
         else send_all_outbounding_segments c)"

definition TCPConnection_connect :: "TCPConnection \<Rightarrow> TCPConnection" where
  "TCPConnection_connect c =
     send_all_outbounding_segments (c\<lparr>con_sender := TCPSender_fill_window (con_sender c)\<rparr>)"

text \<open>The destructor, without its message on the standard error stream.\<close>

definition TCPConnection_destroy :: "TCPConnection \<Rightarrow> TCPConnection" where
  "TCPConnection_destroy c = (if TCPConnection_active c then send_rst_segment c else c)"

section \<open>What a connection sends\<close>

lemma send_loop_eq: "send_loop r q out = out @ map (stamp_segment r) q"
  by (induction q arbitrary: out) simp_all

lemma send_all_fields [simp]:
  "con_segments_out (send_all_outbounding_segments c) =
     con_segments_out c @ map (stamp_segment (con_receiver c)) (snd_segments_out (con_sender c))"
  "con_sender (send_all_outbounding_segments c) = (con_sender c)\<lparr>snd_segments_out := []\<rparr>"
  "con_receiver (send_all_outbounding_segments c) = con_receiver c"
  "con_cfg (send_all_outbounding_segments c) = con_cfg c"
  "con_linger_after_streams_finish (send_all_outbounding_segments c) = con_linger_after_streams_finish c"
  "con_time_since_last_seg_received (send_all_outbounding_segments c) = con_time_since_last_seg_received c"
  by (simp_all add: send_all_outbounding_segments_def send_loop_eq)

lemma stamp_fields [simp]:
  "ts_payload (stamp_segment r seg) = ts_payload seg"
  "th_seqno (ts_header (stamp_segment r seg)) = th_seqno (ts_header seg)"
  "th_syn (ts_header (stamp_segment r seg)) = th_syn (ts_header seg)"
  "th_fin (ts_header (stamp_segment r seg)) = th_fin (ts_header seg)"
  "th_rst (ts_header (stamp_segment r seg)) = th_rst (ts_header seg)"
  "th_win (ts_header (stamp_segment r seg)) = ucast (min (TCPReceiver_window_size r) 0xFFFF)"
  by (simp_all add: stamp_segment_def split: option.split)

text \<open>
  A segment of the connection carries the payload, the sequence number and the SYN and FIN
  flags of a segment of its sender.
\<close>

definition con_seg :: "bytes \<Rightarrow> bool \<Rightarrow> WrappingInt32 \<Rightarrow> TCPSegment \<Rightarrow> bool" where
  "con_seg W e isn seg \<longleftrightarrow> (\<exists>seg0. out_seg W e isn seg0 \<and> ts_payload seg = ts_payload seg0 \<and>
     th_seqno (ts_header seg) = th_seqno (ts_header seg0) \<and>
     th_syn (ts_header seg) = th_syn (ts_header seg0) \<and> th_fin (ts_header seg) = th_fin (ts_header seg0))"

lemma con_seg_mono:
  "con_seg W e isn seg \<Longrightarrow> (e \<Longrightarrow> X = []) \<Longrightarrow> (e \<Longrightarrow> e') \<Longrightarrow> con_seg (W @ X) e' isn seg"
  unfolding con_seg_def by (blast intro: out_seg_mono)

definition con_inv :: "bytes \<Rightarrow> TCPConnection \<Rightarrow> bool" where
  "con_inv W c \<longleftrightarrow> snd_inv W (con_sender c) \<and>
     (snd_next_seqno (con_sender c) = 0 \<longrightarrow>
        unat (snd_window_size (con_sender c)) \<le> 1 \<and> bs_str (snd_stream (con_sender c)) = []) \<and>
     (\<forall>seg \<in> set (con_segments_out c).
        con_seg W (bs_input_is_end (snd_stream (con_sender c))) (snd_isn (con_sender c)) seg)"

lemma con_inv_new: "con_inv [] (TCPConnection_new cfg random)"
  unfolding con_inv_def TCPConnection_new_def
  by (simp add: snd_inv_new) (simp add: TCPSender_new_def ByteStream_new_def)

definition unsent_ok :: "TCPSender \<Rightarrow> bool" where
  "unsent_ok s \<longleftrightarrow> (snd_next_seqno s = 0 \<longrightarrow> unat (snd_window_size s) \<le> 1 \<and> bs_str (snd_stream s) = [])"

definition outs_ok :: "bytes \<Rightarrow> TCPSender \<Rightarrow> TCPSegment list \<Rightarrow> bool" where
  "outs_ok W s out \<longleftrightarrow> (\<forall>seg \<in> set out. con_seg W (bs_input_is_end (snd_stream s)) (snd_isn s) seg)"

lemma con_inv_eq:
  "con_inv W c \<longleftrightarrow> snd_inv W (con_sender c) \<and> unsent_ok (con_sender c) \<and>
     outs_ok W (con_sender c) (con_segments_out c)"
  by (simp add: con_inv_def unsent_ok_def outs_ok_def)

lemma outs_ok_queue:
  assumes "snd_inv W s" and "outs_ok W s out"
  shows "outs_ok W s (out @ map (stamp_segment r) (snd_segments_out s))"
  using assms by (auto simp: outs_ok_def snd_inv_def con_seg_def)

lemma con_inv_send:
  assumes "con_inv W c"
  shows "con_inv W (send_all_outbounding_segments c)"
proof -
  have "outs_ok W (con_sender c) (con_segments_out c @ map (stamp_segment (con_receiver c)) (snd_segments_out (con_sender c)))"
    using assms by (intro outs_ok_queue) (simp_all add: con_inv_eq)
  then show ?thesis using assms
    by (simp add: con_inv_eq unsent_ok_def outs_ok_def) (simp add: snd_inv_def)
qed

lemma empty_segment_fields [simp]:
  "snd_next_seqno (TCPSender_send_empty_segment s) = snd_next_seqno s"
  "snd_window_size (TCPSender_send_empty_segment s) = snd_window_size s"
  "snd_stream (TCPSender_send_empty_segment s) = snd_stream s"
  "snd_isn (TCPSender_send_empty_segment s) = snd_isn s"
  "snd_segments_out (TCPSender_send_empty_segment s) =
     snd_segments_out s @ [empty_seg (snd_isn s) (unat (snd_next_seqno s))]"
  by (simp_all add: TCPSender_send_empty_segment_def Let_def empty_seg_def)

lemma con_inv_empty:
  "con_inv W c \<Longrightarrow> con_inv W (c\<lparr>con_sender := TCPSender_send_empty_segment (con_sender c)\<rparr>)"
  by (simp add: con_inv_eq snd_inv_empty unsent_ok_def outs_ok_def)

lemma con_inv_fill:
  assumes "snd_inv W s" and "outs_ok W s (con_segments_out c)"
  shows "con_inv W (c\<lparr>con_sender := TCPSender_fill_window s\<rparr>)"
proof -
  note f = fill_window_ok [OF assms(1)]
  obtain new where "snd_sends s new (TCPSender_fill_window s)" using f(2) by blast
  with assms(2) f(1,5) show ?thesis by (simp add: con_inv_eq unsent_ok_def outs_ok_def snd_sends_def)
qed

lemma con_inv_receiver [simp]:
  "con_inv W (c\<lparr>con_receiver := r\<rparr>) = con_inv W c"
  "con_inv W (c\<lparr>con_time_since_last_seg_received := t\<rparr>) = con_inv W c"
  "con_inv W (c\<lparr>con_linger_after_streams_finish := b\<rparr>) = con_inv W c"
  by (simp_all add: con_inv_def)

lemma con_inv_errors: "con_inv W c \<Longrightarrow> con_inv W (set_errors c)"
  by (simp add: set_errors_def TCPSender_set_error_def con_inv_eq snd_inv_error unsent_ok_def outs_ok_def)

lemma con_inv_rst:
  assumes "con_inv W c"
  shows "con_inv W (send_rst_segment c)"
proof -
  let ?s = "TCPSender_send_empty_segment (con_sender c)"
  obtain seg q where q: "snd_segments_out ?s = seg # q"
    by (cases "snd_segments_out ?s") auto
  have inv: "snd_inv W ?s" using assms by (simp add: con_inv_eq snd_inv_empty)
  then have "\<forall>x \<in> set (snd_segments_out ?s). out_seg W (bs_input_is_end (snd_stream ?s)) (snd_isn ?s) x"
    unfolding snd_inv_def by blast
  then have "out_seg W (bs_input_is_end (snd_stream (con_sender c))) (snd_isn (con_sender c)) seg"
    unfolding q by simp
  with assms snd_inv_pop [OF inv q] q show ?thesis
    by (auto simp: send_rst_segment_def Let_def con_inv_eq unsent_ok_def outs_ok_def con_seg_def)
qed

lemma ack_fields [simp]:
  "snd_stream (TCPSender_ack_received s a w) = snd_stream s"
  "snd_isn (TCPSender_ack_received s a w) = snd_isn s"
  by (simp_all add: TCPSender_ack_received_def Let_def split_def)

lemma tick_fields [simp]:
  "snd_stream (TCPSender_tick s ms) = snd_stream s"
  "snd_isn (TCPSender_tick s ms) = snd_isn s"
  "snd_next_seqno (TCPSender_tick s ms) = snd_next_seqno s"
  "snd_window_size (TCPSender_tick s ms) = snd_window_size s"
  "snd_bytes_in_flight (TCPSender_tick s ms) = snd_bytes_in_flight s"
  "snd_outstanding_segments (TCPSender_tick s ms) = snd_outstanding_segments s"
  by (simp_all add: tick_eq Let_def)

text \<open>Each operation keeps the invariant, whatever the peer sends.\<close>

abbreviation take_ack :: "TCPSegment \<Rightarrow> TCPSender \<Rightarrow> TCPSender" where
  "take_ack seg s \<equiv> (if th_ack (ts_header seg)
     then TCPSender_ack_received s (th_ackno (ts_header seg)) (th_win (ts_header seg)) else s)"

lemma after_receiver_eq:
  "after_receiver c seg =
     (let s = TCPSender_fill_window (take_ack seg (con_sender c));
          l = con_linger_after_streams_finish c \<and>
              \<not> (ByteStream_input_ended (TCPReceiver_stream_out (con_receiver c)) \<and>
                 \<not> ByteStream_eof (snd_stream (con_sender c)));
          c' = c\<lparr>con_linger_after_streams_finish := l, con_sender := s\<rparr>
      in if snd_segments_out s = [] then
           if TCPSegment_length_in_sequence_space seg \<noteq> 0
           then send_all_outbounding_segments (c'\<lparr>con_sender := TCPSender_send_empty_segment s\<rparr>)
           else c'
         else send_all_outbounding_segments c')"
  by (cases c) (simp add: after_receiver_def Let_def)

lemma con_inv_after:
  assumes inv: "con_inv W c"
  shows "con_inv W (after_receiver c seg)"
proof -
  have ack: "snd_inv W (take_ack seg (con_sender c))" "outs_ok W (take_ack seg (con_sender c)) (con_segments_out c)"
    using inv by (auto simp: con_inv_eq unsent_ok_def outs_ok_def intro: snd_inv_ack)
  let ?c = "\<lambda>l. c\<lparr>con_linger_after_streams_finish := l, con_sender := TCPSender_fill_window (take_ack seg (con_sender c))\<rparr>"
  have c: "con_inv W (?c l)" for l
    using con_inv_fill [OF ack(1), of "c\<lparr>con_linger_after_streams_finish := l\<rparr>"] ack(2) by simp
  from con_inv_send [OF c] con_inv_send [OF con_inv_empty [OF c]] c show ?thesis
    by (simp add: after_receiver_eq Let_def)
qed

lemma con_inv_recv:
  assumes "con_inv W c" and "TCPConnection_segment_received c seg = Inr c'"
  shows "con_inv W c'"
proof -
  let ?c = "c\<lparr>con_time_since_last_seg_received := 0\<rparr>"
  have "con_inv W ?c" using assms(1) by simp
  from con_inv_errors [OF this] con_inv_send [OF con_inv_empty [OF this]] this con_inv_after assms(2)
  show ?thesis unfolding TCPConnection_segment_received_def Let_def
    by (auto split: if_splits sum.splits)
qed

lemma con_inv_write:
  assumes inv: "con_inv W c" and "\<not> bs_input_is_end (snd_stream (con_sender c))"
    and "length W + length d + 2 < 2 ^ 64" and w: "TCPConnection_write c d = (c', n)"
  shows "con_inv (W @ take (unat n) d) c'"
proof -
  let ?st = "fst (ByteStream_write (snd_stream (con_sender c)) d)"
  have n: "n = snd (ByteStream_write (snd_stream (con_sender c)) d)"
    and c': "c' = send_all_outbounding_segments
      (c\<lparr>con_sender := TCPSender_fill_window ((con_sender c)\<lparr>snd_stream := ?st\<rparr>)\<rparr>)"
    using w by (auto simp: TCPConnection_write_def Let_def split_def)
  have "snd_inv (W @ take (unat n) d) ((con_sender c)\<lparr>snd_stream := ?st\<rparr>)"
    unfolding n using assms by (intro snd_inv_write) (auto simp: con_inv_eq unsent_ok_def)
  moreover have "outs_ok (W @ take (unat n) d) ((con_sender c)\<lparr>snd_stream := ?st\<rparr>) (con_segments_out c)"
    using assms(1,2) by (auto simp: con_inv_eq outs_ok_def intro: con_seg_mono)
  ultimately show ?thesis unfolding c' by (intro con_inv_send con_inv_fill)
qed

lemma con_inv_connect: "con_inv W c \<Longrightarrow> con_inv W (TCPConnection_connect c)"
  unfolding TCPConnection_connect_def by (intro con_inv_send con_inv_fill) (simp_all add: con_inv_eq)

lemma con_inv_end:
  assumes inv: "con_inv W c"
  shows "con_inv W (TCPConnection_end_input_stream c)"
proof -
  let ?s = "(con_sender c)\<lparr>snd_stream := ByteStream_end_input (snd_stream (con_sender c))\<rparr>"
  have "snd_inv W ?s" using inv by (intro snd_inv_end) (simp add: con_inv_eq)
  moreover have "outs_ok W ?s (con_segments_out c)"
    using inv con_seg_mono [of W _ _ _ "[]" True] by (auto simp: con_inv_eq outs_ok_def)
  ultimately have "con_inv W (c\<lparr>con_sender := TCPSender_fill_window ?s\<rparr>)" by (rule con_inv_fill)
  with con_inv_send [OF this] show ?thesis by (simp add: TCPConnection_end_input_stream_def Let_def)
qed

lemma con_inv_tick:
  assumes "con_inv W c"
  shows "con_inv W (TCPConnection_tick c ms)"
proof -
  let ?c = "c\<lparr>con_time_since_last_seg_received := con_time_since_last_seg_received c + ms,
      con_sender := TCPSender_tick (con_sender c) ms\<rparr>"
  have "con_inv W ?c" using assms by (simp add: con_inv_eq tick_inv unsent_ok_def outs_ok_def)
  from con_inv_send [OF this] con_inv_errors [OF con_inv_rst [OF this]] show ?thesis
    by (simp add: TCPConnection_tick_def Let_def)
qed

section \<open>Reachable connections\<close>

text \<open>
  The calls the owner of a connection makes, with every segment the network may deliver.
  The only obligation of the owner is not to write after closing the outbound stream.
\<close>

inductive con_step :: "bytes \<times> TCPConnection \<Rightarrow> bytes \<times> TCPConnection \<Rightarrow> bool" where
  con_connect: "con_step (W, c) (W, TCPConnection_connect c)"
| con_write: "\<not> bs_input_is_end (snd_stream (con_sender c)) \<Longrightarrow> length W + length d + 2 < 2 ^ 64 \<Longrightarrow>
    TCPConnection_write c d = (c', n) \<Longrightarrow> con_step (W, c) (W @ take (unat n) d, c')"
| con_end: "con_step (W, c) (W, TCPConnection_end_input_stream c)"
| con_tick: "con_step (W, c) (W, TCPConnection_tick c ms)"
| con_recv: "TCPConnection_segment_received c seg = Inr c' \<Longrightarrow> con_step (W, c) (W, c')"
| con_read: "con_step (W, c) (W, c\<lparr>con_receiver := fst (rcv_read (con_receiver c) n)\<rparr>)"
| con_pop: "con_segments_out c = seg # q \<Longrightarrow> con_step (W, c) (W, c\<lparr>con_segments_out := q\<rparr>)"

definition con_reach :: "TCPConfig \<Rightarrow> u32 \<Rightarrow> bytes \<Rightarrow> TCPConnection \<Rightarrow> bool" where
  "con_reach cfg random W c \<longleftrightarrow> con_step\<^sup>*\<^sup>* ([], TCPConnection_new cfg random) (W, c)"

lemma con_step_inv: "con_step (W, c) (W', c') \<Longrightarrow> con_inv W c \<Longrightarrow> con_inv W' c'"
proof (induction "(W, c)" "(W', c')" rule: con_step.induct)
  case con_pop
  then show ?case by (auto simp: con_inv_def)
qed (auto intro: con_inv_connect con_inv_write con_inv_end con_inv_tick con_inv_recv)

lemma con_steps_inv: "con_step\<^sup>*\<^sup>* (W, c) (W', c') \<Longrightarrow> con_inv W c \<Longrightarrow> con_inv W' c'"
  by (induction rule: rtranclp_induct2) (auto intro: con_step_inv)

lemma con_reach_inv: "con_reach cfg random W c \<Longrightarrow> con_inv W c"
  unfolding con_reach_def by (erule con_steps_inv) (rule con_inv_new)

section \<open>Errors are final\<close>

abbreviation con_error :: "TCPConnection \<Rightarrow> bool" where
  "con_error c \<equiv> ByteStream_error (snd_stream (con_sender c))"

lemma con_error_inactive: "con_error c \<Longrightarrow> \<not> TCPConnection_active c"
  by (simp add: TCPConnection_active_def)

lemma fill_error:
  assumes "snd_inv W s"
  shows "bs_error (snd_stream (TCPSender_fill_window s)) = bs_error (snd_stream s)"
  using fill_window_ok(2) [OF assms] by (auto simp: snd_sends_def)

lemma send_rst_fields [simp]:
  "snd_stream (con_sender (send_rst_segment c)) = snd_stream (con_sender c)"
  "con_receiver (send_rst_segment c) = con_receiver c"
  by (simp_all add: send_rst_segment_def Let_def)

lemma set_errors_fields [simp]:
  "bs_error (snd_stream (con_sender (set_errors c)))"
  "bs_error (TCPReceiver_stream_out (con_receiver (set_errors c)))"
  "con_segments_out (set_errors c) = con_segments_out c"
  by (simp_all add: set_errors_def TCPSender_set_error_def TCPReceiver_set_error_def
      TCPReceiver_stream_out_def)

lemma reset_state: "TCPState_eq (TCPConnection_state (set_errors c)) (TCPState_of_State RESET)"
  using con_error_inactive [of "set_errors c"]
  by (simp add: TCPConnection_state_def TCPState_new_def TCPState_default_def state_summary_receiver_def
      state_summary_sender_def ByteStream_error_def)

lemma con_error_after:
  assumes "con_inv W c"
  shows "con_error (after_receiver c seg) = con_error c"
proof -
  have "snd_inv W (take_ack seg (con_sender c))"
    using assms by (auto simp: con_inv_eq unsent_ok_def intro: snd_inv_ack)
  from fill_error [OF this] show ?thesis
    by (cases "th_ack (ts_header seg)") (simp_all add: after_receiver_eq Let_def ByteStream_error_def)
qed

lemma con_error_recv:
  assumes "con_inv W c" and "TCPConnection_segment_received c seg = Inr c'" and "con_error c"
  shows "con_error c'"
proof -
  let ?c = "c\<lparr>con_time_since_last_seg_received := 0\<rparr>"
  have "con_error (after_receiver (?c\<lparr>con_receiver := r\<rparr>) seg)" for r
    using con_error_after [of W "?c\<lparr>con_receiver := r\<rparr>" seg] assms(1,3) by simp
  with assms(2,3) show ?thesis unfolding TCPConnection_segment_received_def Let_def
    by (auto simp: ByteStream_error_def split: if_splits sum.splits)
qed

lemma con_error_step:
  assumes "con_step (W, c) (W', c')" and "con_inv W c" and "con_error c"
  shows "con_error c'"
  using assms
proof (induction "(W, c)" "(W', c')" rule: con_step.induct)
  case con_connect
  then show ?case
    using fill_error [of W "con_sender c"] by (auto simp: TCPConnection_connect_def ByteStream_error_def con_inv_eq)
next
  case (con_write d n)
  let ?s = "(con_sender c)\<lparr>snd_stream := fst (ByteStream_write (snd_stream (con_sender c)) d)\<rparr>"
  have "snd_inv (W @ take (unat (snd (ByteStream_write (snd_stream (con_sender c)) d))) d) ?s"
    using con_write by (intro snd_inv_write) (auto simp: con_inv_eq unsent_ok_def)
  from fill_error [OF this] con_write show ?case
    by (auto simp: TCPConnection_write_def Let_def split_def ByteStream_error_def)
next
  case con_end
  let ?s = "(con_sender c)\<lparr>snd_stream := ByteStream_end_input (snd_stream (con_sender c))\<rparr>"
  have "snd_inv W ?s" using con_end by (intro snd_inv_end) (simp add: con_inv_eq)
  from fill_error [OF this] con_end show ?case
    by (auto simp: TCPConnection_end_input_stream_def Let_def ByteStream_error_def)
next
  case con_tick
  then show ?case by (auto simp: TCPConnection_tick_def Let_def ByteStream_error_def)
next
  case (con_recv seg)
  then show ?case by (blast intro: con_error_recv)
qed auto

lemma con_error_steps:
  assumes "con_step\<^sup>*\<^sup>* (W, c) (W', c')" and "con_inv W c" and "con_error c"
  shows "con_error c'"
proof -
  have "con_inv W' c' \<and> con_error c'"
    using assms by (induction rule: rtranclp_induct2) (auto intro: con_step_inv con_error_step)
  then show ?thesis ..
qed

section \<open>Time\<close>

definition con_tick_all :: "TCPConnection \<Rightarrow> u64 list \<Rightarrow> TCPConnection" where
  "con_tick_all c mss = foldl TCPConnection_tick c mss"

text \<open>Both streams are over and nothing is in flight: all that is left is to linger.\<close>

definition con_finished :: "TCPConnection \<Rightarrow> bool" where
  "con_finished c \<longleftrightarrow> \<not> ByteStream_error (snd_stream (con_sender c)) \<and>
     \<not> ByteStream_error (TCPReceiver_stream_out (con_receiver c)) \<and>
     ByteStream_input_ended (snd_stream (con_sender c)) \<and>
     ByteStream_input_ended (TCPReceiver_stream_out (con_receiver c)) \<and>
     TCPConnection_bytes_in_flight c = 0 \<and> snd_outstanding_segments (con_sender c) = [] \<and>
     TCPSender_consecutive_retransmissions (con_sender c) \<le> MAX_RETX_ATTEMPTS"

lemma finished_tick:
  assumes "con_finished c"
  shows "con_finished (TCPConnection_tick c ms)"
    and "con_time_since_last_seg_received (TCPConnection_tick c ms) = con_time_since_last_seg_received c + ms"
    and "con_linger_after_streams_finish (TCPConnection_tick c ms) = con_linger_after_streams_finish c"
    and "con_cfg (TCPConnection_tick c ms) = con_cfg c"
proof -
  have "snd_consecutive_retrans_times (TCPSender_tick (con_sender c) ms) = snd_consecutive_retrans_times (con_sender c)"
    using assms by (simp add: con_finished_def tick_eq Let_def)
  then have t: "TCPConnection_tick c ms = send_all_outbounding_segments
      (c\<lparr>con_time_since_last_seg_received := con_time_since_last_seg_received c + ms,
         con_sender := TCPSender_tick (con_sender c) ms\<rparr>)"
    using assms by (auto simp: TCPConnection_tick_def con_finished_def Let_def sponge_defs)
  show "con_finished (TCPConnection_tick c ms)"
    and "con_time_since_last_seg_received (TCPConnection_tick c ms) = con_time_since_last_seg_received c + ms"
    and "con_linger_after_streams_finish (TCPConnection_tick c ms) = con_linger_after_streams_finish c"
    and "con_cfg (TCPConnection_tick c ms) = con_cfg c"
    using assms \<open>snd_consecutive_retrans_times _ = _\<close>
    by (simp_all add: t con_finished_def sponge_defs TCPConnection_bytes_in_flight_def)
qed

lemma finished_tick_all:
  assumes "con_finished c"
    and "unat (con_time_since_last_seg_received c) + sum_list (map unat mss) < 2 ^ 64"
  shows "con_finished (con_tick_all c mss) \<and>
    unat (con_time_since_last_seg_received (con_tick_all c mss)) =
      unat (con_time_since_last_seg_received c) + sum_list (map unat mss) \<and>
    con_linger_after_streams_finish (con_tick_all c mss) = con_linger_after_streams_finish c \<and>
    con_cfg (con_tick_all c mss) = con_cfg c"
  using assms
proof (induction mss arbitrary: c)
  case Nil
  then show ?case by (simp add: con_tick_all_def)
next
  case (Cons ms mss)
  note t = finished_tick [OF Cons.prems(1), of ms]
  have "unat (con_time_since_last_seg_received c + ms) = unat (con_time_since_last_seg_received c) + unat ms"
    using Cons.prems(2) by (intro unat_add64) simp
  with Cons.IH [OF t(1)] Cons.prems(2) t show ?case by (simp add: con_tick_all_def)
qed

lemma linger_time: "unat (10 * ucast (t :: u16) :: u64) = 10 * unat t"
proof -
  have "unat t \<le> 65535" using unat_lt16 [of t] by linarith
  then show ?thesis by (simp add: unat_word_ariths unat_ucast_widen)
qed

lemma stamp_ack:
  "TCPReceiver_ackno r = Some a \<Longrightarrow> th_ack (ts_header (stamp_segment r seg)) \<and>
     th_ackno (ts_header (stamp_segment r seg)) = a"
  by (simp add: stamp_segment_def)

lemma after_receiver_sends:
  assumes inv: "con_inv W c" and "TCPSegment_length_in_sequence_space seg \<noteq> 0"
  shows "\<exists>q. q \<noteq> [] \<and> con_segments_out (after_receiver c seg) =
      con_segments_out c @ map (stamp_segment (con_receiver c)) q"
    and "con_receiver (after_receiver c seg) = con_receiver c"
  using assms(2) by (auto simp: after_receiver_eq Let_def)

lemma listening_ackno:
  "TCPState_eq (TCPConnection_state c) (TCPState_of_State LISTEN) \<Longrightarrow> TCPReceiver_ackno (con_receiver c) = None"
  using summaries_distinct
  by (auto simp: TCPConnection_state_def TCPState_new_def TCPState_default_def state_summary_receiver_def
      split: if_splits)

section \<open>The handshake\<close>

text \<open>The initial sequence number a sender uses.\<close>

definition isn_of :: "WrappingInt32 option \<Rightarrow> u32 \<Rightarrow> WrappingInt32" where
  "isn_of i r = (case i of Some isn \<Rightarrow> isn | None \<Rightarrow> WrappingInt32 r)"

lemma ucast_ucast16: "(ucast (ucast (t :: u16) :: u32) :: u64) = ucast t"
  by (rule unsigned_word_eqI [where ?'a = nat]) (simp add: unat_ucast_widen)

lemma fresh_fill:
  "TCPSender_fill_window (TCPSender_new c t i r) = (TCPSender_new c t i r)
     \<lparr>snd_next_seqno := 1, snd_bytes_in_flight := 1,
      snd_segments_out := [the_seg (isn_of i r) 0 [] False],
      snd_outstanding_segments := [the_seg (isn_of i r) 0 [] False],
      snd_timer := \<lparr>rt_ddl = ucast t, rt_cur = 0, rt_is_start = True\<rparr>\<rparr>"
  by (simp add: snd_eval the_seg_def isn_of_def)

lemma push_empty: "StreamReassembler_push_substring (StreamReassembler_new c) [] 0 False = Inr (StreamReassembler_new c)"
  by (simp add: sr_eval StreamReassembler_new_def)

lemma receiver_syn:
  assumes "th_syn (ts_header seg)" "\<not> th_fin (ts_header seg)" "Buffer_str (ts_payload seg) = []"
  shows "TCPReceiver_segment_received (TCPReceiver_new cap) seg =
     Inr ((TCPReceiver_new cap)\<lparr>rcv_isn := Some (th_seqno (ts_header seg))\<rparr>)"
proof -
  let ?q = "th_seqno (ts_header seg)"
  have w: "wi_add ?q 1 = wrap 1 ?q" by (simp add: wi_add_def wrap_eq)
  have "unwrap (wrap 1 ?q) ?q 0 = 1" by (rule unwrap_wrap) simp_all
  moreover have "wrap 1 ?q \<noteq> ?q" by (cases ?q) (simp add: wrap_eq)
  ultimately show ?thesis using assms push_empty
    by (simp add: TCPReceiver_segment_received_def TCPReceiver_new_def w Let_def)
      (simp add: StreamReassembler_new_def)
qed

lemma receiver_pure_ack:
  assumes "\<not> th_syn (ts_header seg)" "\<not> th_fin (ts_header seg)" "Buffer_str (ts_payload seg) = []"
    and "th_seqno (ts_header seg) = wrap 1 isn"
  shows "TCPReceiver_segment_received ((TCPReceiver_new cap)\<lparr>rcv_isn := Some isn\<rparr>) seg =
     Inr ((TCPReceiver_new cap)\<lparr>rcv_isn := Some isn\<rparr>)"
proof -
  have "unwrap (wrap 1 isn) isn 0 = 1" by (rule unwrap_wrap) simp_all
  moreover have "wrap 1 isn \<noteq> isn" by (cases isn) (simp add: wrap_eq)
  ultimately show ?thesis using assms push_empty
    by (simp add: TCPReceiver_segment_received_def TCPReceiver_new_def Let_def)
      (simp add: StreamReassembler_new_def)
qed

lemma read_empty:
  assumes "bs_str st = []" "bs_cur_cap st = 0"
  shows "ByteStream_read st n = (st, [])"
proof -
  have "min x 0 = (0 :: u64)" for x by (simp add: min_def)
  with assms show ?thesis
    by (cases st) (simp add: ByteStream_read_def ByteStream_peek_output_def ByteStream_pop_output_def Let_def sponge_defs)
qed

text \<open>With nothing to send, \<open>fill_window\<close> does nothing.\<close>

lemma fill_idle:
  assumes "snd_next_seqno s \<noteq> 0" "bs_str (snd_stream s) = []" "bs_cur_cap (snd_stream s) = 0"
    "\<not> bs_input_is_end (snd_stream s)"
  shows "TCPSender_fill_window s = s"
proof -
  have rd: "round_read w s = (snd_stream s, [])" for w
    unfolding round_read_def using assms(2,3) by (rule read_empty)
  then have r: "round_len w s = 0" "\<not> round_fin w s" for w
    using assms(4) by (simp_all add: round_len_def round_fin_def sponge_defs)
  have "round_state w s = s" for w
    using assms(1) r rd [of w] by (cases s) (simp add: round_state_def round_next_def round_bif_def)
  moreover have "\<not> th_syn (ts_header (round_seg w s TCPSegment_default))"
    "\<not> th_fin (ts_header (round_seg w s TCPSegment_default))" for w
    using assms(1) r by (simp_all add: round_seg_def TCPSegment_default_def TCPHeader_default_def)
  ultimately have "fst (fill_round w s TCPSegment_default) = s" for w
    using r by (simp add: fill_round_eq fill_push_def)
  then have "fill_loop w s TCPSegment_default = s" for w
    using assms(3) by (subst fill_loop.simps) (simp add: Let_def sponge_defs)
  then show ?thesis by (simp add: TCPSender_fill_window_def Let_def)
qed

lemma syn_acked:
  fixes w :: u16
  assumes "s = (TCPSender_new c t i r)
     \<lparr>snd_next_seqno := 1, snd_bytes_in_flight := 1, snd_segments_out := [],
      snd_outstanding_segments := [the_seg (isn_of i r) 0 [] False],
      snd_timer := \<lparr>rt_ddl = ucast t, rt_cur = 0, rt_is_start = True\<rparr>\<rparr>"
  shows "TCPSender_fill_window (TCPSender_ack_received s (wrap 1 (isn_of i r)) w) =
      (TCPSender_new c t i r)\<lparr>snd_next_seqno := 1, snd_window_size := ucast w, snd_una_seqno := 1\<rparr>"
proof -
  have isn: "snd_isn s = isn_of i r" using assms by (simp add: TCPSender_new_def isn_of_def)
  have u: "unwrap (wrap 1 (isn_of i r)) (isn_of i r) 1 = 1" "unwrap (wrap 0 (isn_of i r)) (isn_of i r) 1 = 0"
    by (rule unwrap_wrap; simp)+
  have "TCPSender_ack_received s (wrap 1 (isn_of i r)) w =
      (TCPSender_new c t i r)\<lparr>snd_next_seqno := 1, snd_window_size := ucast w, snd_una_seqno := 1\<rparr>"
    unfolding TCPSender_ack_received_def isn
    by (simp add: assms u TCPSender_new_def isn_of_def [symmetric] TCPSegment_length_in_sequence_space_def
        RetransmissionTimer_defs ucast_ucast16)
  moreover have "TCPSender_fill_window ((TCPSender_new c t i r)
      \<lparr>snd_next_seqno := 1, snd_window_size := ucast w, snd_una_seqno := 1\<rparr>) =
      (TCPSender_new c t i r)\<lparr>snd_next_seqno := 1, snd_window_size := ucast w, snd_una_seqno := 1\<rparr>"
    by (rule fill_idle) (simp_all add: TCPSender_new_def ByteStream_new_def)
  ultimately show ?thesis by simp
qed


text \<open>The states of the two endpoints on the way.\<close>

abbreviation sent_sender :: "TCPConfig \<Rightarrow> u32 \<Rightarrow> TCPSender" where
  "sent_sender cfg r \<equiv> (TCPSender_new (cfg_send_capacity cfg) (cfg_rt_timeout cfg) (cfg_fixed_isn cfg) r)
     \<lparr>snd_next_seqno := 1, snd_bytes_in_flight := 1, snd_segments_out := [],
      snd_outstanding_segments := [the_seg (isn_of (cfg_fixed_isn cfg) r) 0 [] False],
      snd_timer := \<lparr>rt_ddl = ucast (cfg_rt_timeout cfg), rt_cur = 0, rt_is_start = True\<rparr>\<rparr>"

abbreviation acked_sender :: "TCPConfig \<Rightarrow> u32 \<Rightarrow> u16 \<Rightarrow> TCPSender" where
  "acked_sender cfg r w \<equiv> (TCPSender_new (cfg_send_capacity cfg) (cfg_rt_timeout cfg) (cfg_fixed_isn cfg) r)
     \<lparr>snd_next_seqno := 1, snd_window_size := ucast w, snd_una_seqno := 1\<rparr>"

abbreviation synced :: "TCPConfig \<Rightarrow> WrappingInt32 \<Rightarrow> TCPReceiver" where
  "synced cfg isn \<equiv> (TCPReceiver_new (cfg_recv_capacity cfg))\<lparr>rcv_isn := Some isn\<rparr>"

lemma synced_ackno: "TCPReceiver_ackno (synced cfg isn) = Some (wrap 1 isn)"
  by (simp add: TCPReceiver_ackno_def TCPReceiver_new_def StreamReassembler_new_def TCPReceiver_stream_out_def
      ByteStream_new_def sponge_defs)

lemma new_ackno: "TCPReceiver_ackno (TCPReceiver_new cap) = None"
  by (simp add: TCPReceiver_ackno_def TCPReceiver_new_def)

lemmas state_eval = TCPConnection_state_def TCPConnection_active_def TCPState_new_def TCPState_default_def
  state_summary_receiver_def state_summary_sender_def TCPReceiver_new_def StreamReassembler_new_def
  TCPReceiver_stream_out_def ByteStream_new_def TCPSender_new_def sponge_defs TCPReceiver_ackno_def

lemma client_connects:
  "TCPConnection_connect (TCPConnection_new cfg r) = (TCPConnection_new cfg r)
     \<lparr>con_sender := sent_sender cfg r,
      con_segments_out := [stamp_segment (TCPReceiver_new (cfg_recv_capacity cfg))
        (the_seg (isn_of (cfg_fixed_isn cfg) r) 0 [] False)]\<rparr>"
  by (simp add: TCPConnection_connect_def TCPConnection_new_def fresh_fill
      send_all_outbounding_segments_def)

lemma server_answers:
  assumes "th_syn (ts_header seg)" "\<not> th_fin (ts_header seg)" "\<not> th_rst (ts_header seg)"
    "\<not> th_ack (ts_header seg)" "Buffer_str (ts_payload seg) = []"
  shows "TCPConnection_segment_received (TCPConnection_new cfg r) seg = Inr ((TCPConnection_new cfg r)
     \<lparr>con_sender := sent_sender cfg r, con_receiver := synced cfg (th_seqno (ts_header seg)),
      con_segments_out := [stamp_segment (synced cfg (th_seqno (ts_header seg)))
        (the_seg (isn_of (cfg_fixed_isn cfg) r) 0 [] False)]\<rparr>)"
proof -
  have "ByteStream_input_ended (TCPReceiver_stream_out (synced cfg q)) = False" for q
    by (simp add: TCPReceiver_new_def StreamReassembler_new_def TCPReceiver_stream_out_def ByteStream_new_def sponge_defs)
  then show ?thesis using assms
    by (simp add: TCPConnection_segment_received_def TCPConnection_new_def is_keep_alive_def new_ackno
      receiver_syn after_receiver_def fresh_fill send_all_outbounding_segments_def Let_def)
qed

lemma established_state:
  "TCPState_eq (TCPConnection_state ((TCPConnection_new cfg r)
     \<lparr>con_sender := acked_sender cfg r w, con_receiver := synced cfg isn, con_segments_out := q\<rparr>))
     (TCPState_of_State ESTABLISHED)"
  by (simp add: TCPConnection_new_def state_eval)

lemma synced_open: "\<not> ByteStream_input_ended (TCPReceiver_stream_out (synced cfg q))"
  by (simp add: TCPReceiver_new_def StreamReassembler_new_def TCPReceiver_stream_out_def ByteStream_new_def sponge_defs)

lemma sending_states:
  "TCPState_eq (TCPConnection_state ((TCPConnection_new cfg r)
     \<lparr>con_sender := sent_sender cfg r, con_segments_out := q\<rparr>)) (TCPState_of_State SYN_SENT)"
  "TCPState_eq (TCPConnection_state ((TCPConnection_new cfg r)
     \<lparr>con_sender := sent_sender cfg r, con_receiver := synced cfg isn, con_segments_out := q\<rparr>))
     (TCPState_of_State SYN_RCVD)"
  by (simp_all add: TCPConnection_new_def state_eval)

lemma client_establishes:
  assumes seg: "th_syn (ts_header seg)" "\<not> th_fin (ts_header seg)" "\<not> th_rst (ts_header seg)"
    "th_ack (ts_header seg)" "Buffer_str (ts_payload seg) = []"
    and ack: "th_ackno (ts_header seg) = wrap 1 (isn_of (cfg_fixed_isn cfg) r)"
  shows "TCPConnection_segment_received
      ((TCPConnection_new cfg r)\<lparr>con_sender := sent_sender cfg r, con_segments_out := q\<rparr>) seg =
    Inr ((TCPConnection_new cfg r)\<lparr>con_sender := acked_sender cfg r (th_win (ts_header seg)),
      con_receiver := synced cfg (th_seqno (ts_header seg)),
      con_segments_out := q @ [stamp_segment (synced cfg (th_seqno (ts_header seg)))
        (empty_seg (isn_of (cfg_fixed_isn cfg) r) 1)]\<rparr>)"
proof -
  have "TCPSegment_length_in_sequence_space seg = 1"
    using seg by (simp add: TCPSegment_length_in_sequence_space_def)
  moreover have "TCPSender_send_empty_segment (acked_sender cfg r w) = (acked_sender cfg r w)
      \<lparr>snd_segments_out := [empty_seg (isn_of (cfg_fixed_isn cfg) r) 1]\<rparr>" for w
    by (simp add: TCPSender_send_empty_segment_def empty_seg_def TCPSender_new_def isn_of_def Let_def)
  moreover have "snd_segments_out (acked_sender cfg r w) = []" for w by (simp add: TCPSender_new_def)
  ultimately show ?thesis using seg ack synced_open
    by (simp add: TCPConnection_segment_received_def TCPConnection_new_def is_keep_alive_def new_ackno
      receiver_syn after_receiver_def syn_acked send_all_outbounding_segments_def Let_def)
qed

lemma server_establishes:
  assumes seg: "\<not> th_syn (ts_header seg)" "\<not> th_fin (ts_header seg)" "\<not> th_rst (ts_header seg)"
    "th_ack (ts_header seg)" "Buffer_str (ts_payload seg) = []" "th_seqno (ts_header seg) = wrap 1 isn"
    and ack: "th_ackno (ts_header seg) = wrap 1 (isn_of (cfg_fixed_isn cfg) r)"
  shows "TCPConnection_segment_received ((TCPConnection_new cfg r)
      \<lparr>con_sender := sent_sender cfg r, con_receiver := synced cfg isn, con_segments_out := q\<rparr>) seg =
    Inr ((TCPConnection_new cfg r)\<lparr>con_sender := acked_sender cfg r (th_win (ts_header seg)),
      con_receiver := synced cfg isn, con_segments_out := q\<rparr>)"
proof -
  have k: "wrap 1 isn \<noteq> wi_sub (wrap 1 isn) 1" by (cases isn) (simp add: wrap_eq wi_sub_def wi_add_def)
  have "TCPSegment_length_in_sequence_space seg = 0"
    using seg by (simp add: TCPSegment_length_in_sequence_space_def)
  moreover have "snd_segments_out (acked_sender cfg r w) = []" for w by (simp add: TCPSender_new_def)
  moreover have "\<not> TCPState_eq (TCPConnection_state ((TCPConnection_new cfg r)\<lparr>con_sender := sent_sender cfg r,
      con_receiver := synced cfg isn, con_segments_out := q\<rparr>)) (TCPState_of_State LISTEN)"
    using listening_ackno synced_ackno by fastforce
  ultimately show ?thesis using seg ack synced_open k
    by (simp add: TCPConnection_segment_received_def TCPConnection_new_def is_keep_alive_def synced_ackno
      receiver_pure_ack after_receiver_def syn_acked send_all_outbounding_segments_def Let_def
      del: TCPState_eq_iff)
qed

section \<open>Properties\<close>

text \<open>C7. Whatever the owner does (short of writing after closing) and whatever segments the
  network delivers, everything a connection sends carries the right bytes of its outbound
  stream under the right sequence number, and its count of bytes in flight is the total
  length of the segments kept for retransmission.\<close>

theorem connection_sends_stream:
  assumes "con_reach cfg random W c"
  shows "(\<forall>seg \<in> set (con_segments_out c).
            con_seg W (ByteStream_input_ended (snd_stream (con_sender c))) (snd_isn (con_sender c)) seg) \<and>
         unat (TCPConnection_bytes_in_flight c) =
           sum_list (map seg_len (snd_outstanding_segments (con_sender c))) \<and>
         unat (TCPConnection_bytes_in_flight c) \<le> 65535"
proof -
  have inv: "con_inv W c" by (rule con_reach_inv [OF assms])
  then have s: "snd_inv W (con_sender c)" by (simp add: con_inv_def)
  have "unat (snd_next_seqno (con_sender c)) =
      snd_base (con_sender c) + sum_list (map seg_len (snd_outstanding_segments (con_sender c)))"
    using s by (intro seg_chain_sum [of W "bs_input_is_end (snd_stream (con_sender c))" "snd_isn (con_sender c)"])
      (simp add: snd_inv_def snd_flight_inv_def)
  with inv s show ?thesis
    by (auto simp: con_inv_def snd_inv_def snd_flight_inv_def sponge_defs TCPConnection_bytes_in_flight_def)
qed

theorem connection_sends_stream_witness:
  "con_reach TCPConfig_default 7 [] (TCPConnection_connect (TCPConnection_new TCPConfig_default 7)) \<and>
   unat (TCPConnection_bytes_in_flight (TCPConnection_connect (TCPConnection_new TCPConfig_default 7))) = 1"
proof -
  let ?c = "TCPConnection_connect (TCPConnection_new TCPConfig_default 7)"
  have r: "con_reach TCPConfig_default 7 [] ?c"
    unfolding con_reach_def by (rule r_into_rtranclp) (rule con_connect)
  have "snd_outstanding_segments (con_sender ?c) = [the_seg (WrappingInt32 7) 0 [] False]"
    by (simp add: TCPConnection_connect_def TCPConnection_new_def TCPConfig_default_def snd_eval the_seg_def)
  with connection_sends_stream [OF r] r show ?thesis by (simp add: seg_len_def)
qed

text \<open>C14. Every segment that occupies sequence numbers is answered: unless it resets the
  connection, once the peer's SYN is known the call queues at least one segment, and each
  new segment carries the receiver's current acknowledgment number and its window, cut to
  16 bits.\<close>

theorem connection_acknowledges:
  assumes "con_inv W c" and "TCPConnection_segment_received c seg = Inr c'"
    and "\<not> th_rst (ts_header seg)" and "TCPSegment_length_in_sequence_space seg \<noteq> 0"
    and "TCPReceiver_ackno (con_receiver c') = Some a"
  shows "\<exists>new. new \<noteq> [] \<and> con_segments_out c' = con_segments_out c @ new \<and>
    (\<forall>s \<in> set new. th_ack (ts_header s) \<and> th_ackno (ts_header s) = a \<and>
       unat (th_win (ts_header s)) = min (unat (TCPReceiver_window_size (con_receiver c'))) 65535)"
proof -
  let ?c = "c\<lparr>con_time_since_last_seg_received := 0\<rparr>"
  have "\<not> is_keep_alive (con_receiver ?c) seg" using assms(4) by (simp add: is_keep_alive_def split: option.split)
  moreover have "\<not> (TCPState_eq (TCPConnection_state ?c) (TCPState_of_State LISTEN) \<and> \<not> th_syn (ts_header seg))"
  proof
    assume l: "TCPState_eq (TCPConnection_state ?c) (TCPState_of_State LISTEN) \<and> \<not> th_syn (ts_header seg)"
    with calculation assms(2,3) have "c' = ?c" by (simp add: TCPConnection_segment_received_def Let_def)
    with listening_ackno [of ?c] l assms(5) show False by simp
  qed
  ultimately obtain r where c': "c' = after_receiver (?c\<lparr>con_receiver := r\<rparr>) seg"
    using assms(2,3) by (auto simp: TCPConnection_segment_received_def Let_def split: sum.splits if_splits)
  have "con_inv W (?c\<lparr>con_receiver := r\<rparr>)" using assms(1) by simp
  from after_receiver_sends [OF this assms(4)] obtain q where
    q: "q \<noteq> []" "con_segments_out c' = con_segments_out c @ map (stamp_segment r) q" "con_receiver c' = r"
    by (auto simp: c')
  have win: "unat (ucast (min w 0xFFFF) :: u16) = min (unat w) 65535" for w :: u64
    by (auto simp: unat_ucast min_def word_le_nat_alt)
  from q assms(5) stamp_ack [of r a] win show ?thesis
    by (intro exI [of _ "map (stamp_segment r) q"]) auto
qed

theorem connection_acknowledges_witness:
  "\<exists>c' new. TCPConnection_segment_received (TCPConnection_new TCPConfig_default 7)
       (the_seg (WrappingInt32 100) 0 [] False) = Inr c' \<and> new \<noteq> [] \<and>
     con_segments_out c' = new \<and> (\<forall>s \<in> set new. th_ack (ts_header s) \<and> th_ackno (ts_header s) = WrappingInt32 101)"
proof -
  let ?seg = "the_seg (WrappingInt32 100) 0 [] False" and ?c = "TCPConnection_new TCPConfig_default 7"
  have ack: "\<not> th_ack (ts_header ?seg)" by (simp add: the_seg_def TCPHeader_default_def)
  obtain c' where c': "TCPConnection_segment_received ?c ?seg = Inr c'"
    "con_receiver c' = synced TCPConfig_default (th_seqno (ts_header ?seg))"
    using server_answers [of ?seg TCPConfig_default 7] ack by auto
  have "TCPReceiver_ackno (con_receiver c') = Some (WrappingInt32 101)"
    by (simp only: c'(2) synced_ackno) (simp add: wrap_eq)
  moreover have "TCPSegment_length_in_sequence_space ?seg \<noteq> 0"
    by (simp add: TCPSegment_length_in_sequence_space_def)
  moreover have "con_segments_out ?c = []" by (simp add: TCPConnection_new_def)
  ultimately show ?thesis
    using connection_acknowledges [OF con_inv_new c'(1), of "WrappingInt32 101"] c'(1) by auto
qed

text \<open>C13. A reset is final: a segment with the RST flag puts the connection into the official
  RESET state without an answer, and no later call or segment makes it active again. The code
  does so in every state and for any sequence number: it does not check that the RST lies in the
  window, nor does it ignore one in LISTEN or, without an acknowledgment, in SYN-SENT, as the
  repository's tests of the state machine ask for.\<close>

theorem connection_reset_final:
  assumes "con_reach cfg random W c" and "th_rst (ts_header seg)"
  shows "\<exists>c'. TCPConnection_segment_received c seg = Inr c' \<and> con_segments_out c' = con_segments_out c \<and>
    TCPState_eq (TCPConnection_state c') (TCPState_of_State RESET) \<and>
    (\<forall>W'' c''. con_step\<^sup>*\<^sup>* (W, c') (W'', c'') \<longrightarrow> \<not> TCPConnection_active c'')"
proof -
  let ?c = "set_errors (c\<lparr>con_time_since_last_seg_received := 0\<rparr>)"
  have r: "TCPConnection_segment_received c seg = Inr ?c"
    using assms(2) by (simp add: TCPConnection_segment_received_def Let_def)
  have inv: "con_inv W ?c" by (rule con_inv_errors) (simp add: con_reach_inv [OF assms(1)])
  have err: "con_error ?c" by (simp add: ByteStream_error_def)
  have q: "con_segments_out ?c = con_segments_out c" by (simp add: set_errors_def)
  have "\<not> TCPConnection_active c''" if "con_step\<^sup>*\<^sup>* (W, ?c) (W'', c'')" for W'' c''
    by (rule con_error_inactive [OF con_error_steps [OF that inv err]])
  with r reset_state q show ?thesis by (intro exI [of _ ?c] conjI) simp_all
qed

text \<open>A server that has answered a SYN, and an RST far outside its window.\<close>

theorem connection_reset_final_witness:
  "\<exists>c c'. TCPConnection_segment_received (TCPConnection_new TCPConfig_default 7)
       (the_seg (WrappingInt32 100) 0 [] False) = Inr c \<and> length (con_segments_out c) = 1 \<and>
     TCPConnection_segment_received c (TCPSegment_default\<lparr>ts_header :=
       TCPHeader_default\<lparr>th_rst := True, th_seqno := WrappingInt32 0x80000000\<rparr>\<rparr>) = Inr c' \<and>
     \<not> TCPConnection_active (TCPConnection_connect c')"
proof -
  let ?seg = "the_seg (WrappingInt32 100) 0 [] False" and ?c = "TCPConnection_new TCPConfig_default 7"
  let ?rst = "TCPSegment_default\<lparr>ts_header := TCPHeader_default\<lparr>th_rst := True, th_seqno := WrappingInt32 0x80000000\<rparr>\<rparr>"
  have "\<not> th_ack (ts_header ?seg)" "\<not> th_rst (ts_header ?seg)" by (simp_all add: the_seg_def TCPHeader_default_def)
  then obtain c where c: "TCPConnection_segment_received ?c ?seg = Inr c" "length (con_segments_out c) = 1"
    using server_answers [of ?seg TCPConfig_default 7] by auto
  then have "con_reach TCPConfig_default 7 [] c" unfolding con_reach_def by (blast intro: con_recv r_into_rtranclp)
  from connection_reset_final [OF this, of ?rst] obtain c' where "TCPConnection_segment_received c ?rst = Inr c'"
    "\<forall>W'' c''. con_step\<^sup>*\<^sup>* ([], c') (W'', c'') \<longrightarrow> \<not> TCPConnection_active c''" by auto
  with c show ?thesis by (blast intro: con_connect r_into_rtranclp)
qed

text \<open>C16. Giving up: when the timeout expires for the ninth time in a row, the connection is
  reset. The RST flag is put on the segment at the front of the sender's queue, which is
  the one being retransmitted, while the empty segment made for the RST stays in that
  queue.\<close>

theorem connection_gives_up:
  assumes "con_inv W c" and "snd_segments_out (con_sender c) = []"
    and "snd_outstanding_segments (con_sender c) = seg # segs" and "snd_window_size (con_sender c) \<noteq> 0"
    and "snd_consecutive_retrans_times (con_sender c) = MAX_RETX_ATTEMPTS"
    and "unat (rt_ddl (snd_timer (con_sender c))) \<le> unat (rt_cur (snd_timer (con_sender c))) + unat ms"
    and "unat (rt_cur (snd_timer (con_sender c))) + unat ms < 2 ^ 64"
  shows "con_segments_out (TCPConnection_tick c ms) =
      con_segments_out c @ [seg\<lparr>ts_header := (ts_header seg)\<lparr>th_rst := True\<rparr>\<rparr>] \<and>
    snd_segments_out (con_sender (TCPConnection_tick c ms)) =
      [empty_seg (snd_isn (con_sender c)) (unat (snd_next_seqno (con_sender c)))] \<and>
    TCPState_eq (TCPConnection_state (TCPConnection_tick c ms)) (TCPState_of_State RESET)"
proof -
  let ?s = "TCPSender_tick (con_sender c) ms"
  have start: "rt_is_start (snd_timer (con_sender c))"
    using assms(1,3) by (simp add: con_inv_def snd_inv_def snd_flight_inv_def)
  have "rt_ddl (snd_timer (con_sender c)) \<le> rt_cur (snd_timer (con_sender c)) + ms"
    using assms(6,7) by (simp add: word_le_nat_alt unat_add64)
  with start assms(2-5) have s: "snd_segments_out ?s = [seg]"
    "MAX_RETX_ATTEMPTS < TCPSender_consecutive_retransmissions ?s"
    by (simp_all add: tick_eq Let_def RetransmissionTimer_expired_def RetransmissionTimer_tick_def
        MAX_RETX_ATTEMPTS_def sponge_defs)
  let ?c = "c\<lparr>con_time_since_last_seg_received := con_time_since_last_seg_received c + ms, con_sender := ?s\<rparr>"
  have t: "TCPConnection_tick c ms = set_errors (send_rst_segment ?c)"
    using s(2) by (simp add: TCPConnection_tick_def Let_def)
  have "TCPState_eq (TCPConnection_state (TCPConnection_tick c ms)) (TCPState_of_State RESET)"
    unfolding t by (rule reset_state)
  moreover have "con_segments_out (TCPConnection_tick c ms) =
      con_segments_out c @ [seg\<lparr>ts_header := (ts_header seg)\<lparr>th_rst := True\<rparr>\<rparr>]"
    "snd_segments_out (con_sender (TCPConnection_tick c ms)) =
      [empty_seg (snd_isn (con_sender c)) (unat (snd_next_seqno (con_sender c)))]"
    by (simp_all add: t set_errors_def TCPSender_set_error_def send_rst_segment_def Let_def s(1))
  ultimately show ?thesis by blast
qed

theorem connection_gives_up_witness:
  "con_segments_out (TCPConnection_tick ((TCPConnection_connect (TCPConnection_new TCPConfig_default 7))
      \<lparr>con_sender := (sent_sender TCPConfig_default 7)\<lparr>snd_consecutive_retrans_times := 8\<rparr>,
       con_segments_out := []\<rparr>) 1000) =
   [(the_seg (WrappingInt32 7) 0 [] False)\<lparr>ts_header :=
      (ts_header (the_seg (WrappingInt32 7) 0 [] False))\<lparr>th_rst := True\<rparr>\<rparr>]"
proof -
  let ?d = "TCPConnection_connect (TCPConnection_new TCPConfig_default 7)"
  let ?c = "?d\<lparr>con_sender := (sent_sender TCPConfig_default 7)\<lparr>snd_consecutive_retrans_times := 8\<rparr>, con_segments_out := []\<rparr>"
  have "con_inv [] ?d" by (rule con_inv_connect [OF con_inv_new])
  then have inv: "con_inv [] ?c"
    by (simp add: client_connects con_inv_def snd_inv_def snd_pos_inv_def snd_flight_inv_def)
  have o': "snd_outstanding_segments (con_sender ?c) = [the_seg (WrappingInt32 7) 0 [] False]"
    by (simp add: isn_of_def TCPConfig_default_def)
  have "snd_segments_out (con_sender ?c) = []" "snd_window_size (con_sender ?c) \<noteq> 0"
    "snd_consecutive_retrans_times (con_sender ?c) = MAX_RETX_ATTEMPTS"
    "snd_timer (con_sender ?c) = \<lparr>rt_ddl = 1000, rt_cur = 0, rt_is_start = True\<rparr>"
    by (simp_all add: TCPSender_new_def MAX_RETX_ATTEMPTS_def TCPConfig_default_def TIMEOUT_DFLT_def)
  with connection_gives_up [OF inv _ o', of 1000] show ?thesis by simp
qed

text \<open>C12. Clean shutdown: once both streams have ended and nothing is in flight, the passing of
  time alone closes the connection, exactly ten retransmission timeouts after the last
  segment was received if it must linger, and at once if it need not.\<close>

theorem connection_closes:
  assumes "con_finished c"
    and "unat (con_time_since_last_seg_received c) + sum_list (map unat mss) < 2 ^ 64"
  shows "TCPConnection_active (con_tick_all c mss) \<longleftrightarrow>
    con_linger_after_streams_finish c \<and>
    unat (con_time_since_last_seg_received c) + sum_list (map unat mss) < 10 * unat (cfg_rt_timeout (con_cfg c))"
proof -
  from finished_tick_all [OF assms] have f: "con_finished (con_tick_all c mss)"
    "unat (con_time_since_last_seg_received (con_tick_all c mss)) =
      unat (con_time_since_last_seg_received c) + sum_list (map unat mss)"
    "con_linger_after_streams_finish (con_tick_all c mss) = con_linger_after_streams_finish c"
    "con_cfg (con_tick_all c mss) = con_cfg c" by simp_all
  then show ?thesis
    by (auto simp: con_finished_def TCPConnection_active_def word_less_nat_alt linger_time
        TCPConnection_bytes_in_flight_def)
qed

theorem connection_closes_witness:
  "\<exists>c. con_finished c \<and> TCPConnection_active (con_tick_all c [5000, 4999]) \<and>
     \<not> TCPConnection_active (con_tick_all c [5000, 5000])"
proof -
  let ?c = "TCPConnection_new TCPConfig_default 7"
  let ?s = "(con_sender ?c)\<lparr>snd_stream := ByteStream_end_input (ByteStream_new 10)\<rparr>"
  let ?r = "(con_receiver ?c)\<lparr>rcv_reassembler := (StreamReassembler_new 10)
    \<lparr>sr_output := ByteStream_end_input (ByteStream_new 10)\<rparr>\<rparr>"
  let ?d = "?c\<lparr>con_sender := ?s, con_receiver := ?r\<rparr>"
  have f: "con_finished ?d"
    by (simp add: con_finished_def TCPConnection_new_def TCPSender_new_def TCPReceiver_stream_out_def
        TCPConnection_bytes_in_flight_def sponge_defs) (simp add: ByteStream_new_def)
  have "con_time_since_last_seg_received ?d = 0" "con_linger_after_streams_finish ?d"
    "cfg_rt_timeout (con_cfg ?d) = 1000"
    by (simp_all add: TCPConnection_new_def TCPConfig_default_def TIMEOUT_DFLT_def)
  with connection_closes [OF f, of "[5000, 4999]"] connection_closes [OF f, of "[5000, 5000]"] f
  show ?thesis by (intro exI [of _ ?d]) simp
qed

text \<open>C15. The three-way handshake, for any two configurations and initial sequence numbers: the
  segments that the two endpoints send in answer to each other take the client through
  SYN_SENT to ESTABLISHED and the server from LISTEN through SYN_RCVD to ESTABLISHED.\<close>

theorem three_way_handshake:
  "TCPState_eq (TCPConnection_state (TCPConnection_new cfgB rB)) (TCPState_of_State LISTEN) \<and>
   (\<exists>syn client synack server ack client' server'.
      client = TCPConnection_connect (TCPConnection_new cfgA rA) \<and> con_segments_out client = [syn] \<and>
      TCPState_eq (TCPConnection_state client) (TCPState_of_State SYN_SENT) \<and>
      TCPConnection_segment_received (TCPConnection_new cfgB rB) syn = Inr server \<and>
      con_segments_out server = [synack] \<and>
      TCPState_eq (TCPConnection_state server) (TCPState_of_State SYN_RCVD) \<and>
      TCPConnection_segment_received client synack = Inr client' \<and>
      con_segments_out client' = [syn, ack] \<and>
      TCPState_eq (TCPConnection_state client') (TCPState_of_State ESTABLISHED) \<and>
      TCPConnection_segment_received server ack = Inr server' \<and> con_segments_out server' = [synack] \<and>
      TCPState_eq (TCPConnection_state server') (TCPState_of_State ESTABLISHED))"
proof -
  let ?iA = "isn_of (cfg_fixed_isn cfgA) rA" and ?iB = "isn_of (cfg_fixed_isn cfgB) rB"
  let ?syn = "stamp_segment (TCPReceiver_new (cfg_recv_capacity cfgA)) (the_seg ?iA 0 [] False)"
  have syn: "\<not> th_ack (ts_header ?syn)" "th_seqno (ts_header ?syn) = ?iA"
    by (simp_all add: stamp_segment_def new_ackno) (simp_all add: the_seg_def TCPHeader_default_def wrap_eq)
  let ?synack = "stamp_segment (synced cfgB ?iA) (the_seg ?iB 0 [] False)"
  have synack: "th_seqno (ts_header ?synack) = ?iB" by (simp add: wrap_eq)
  let ?ack = "stamp_segment (synced cfgA ?iB) (empty_seg ?iA 1)"
  have ack: "\<not> th_syn (ts_header ?ack)" "\<not> th_fin (ts_header ?ack)" "\<not> th_rst (ts_header ?ack)"
    "Buffer_str (ts_payload ?ack) = []" "th_seqno (ts_header ?ack) = wrap 1 ?iA"
    by (simp_all add: empty_seg_def TCPSegment_default_def TCPHeader_default_def)
  have "TCPState_eq (TCPConnection_state (TCPConnection_new cfgB rB)) (TCPState_of_State LISTEN)"
    by (simp add: TCPConnection_new_def state_eval)
  moreover note client_connects [of cfgA rA] sending_states(1) [where cfg = cfgA and r = rA and q = "[?syn]"]
  moreover have "TCPConnection_segment_received (TCPConnection_new cfgB rB) ?syn = Inr ((TCPConnection_new cfgB rB)
      \<lparr>con_sender := sent_sender cfgB rB, con_receiver := synced cfgB ?iA, con_segments_out := [?synack]\<rparr>)"
    using server_answers [where seg = ?syn and cfg = cfgB and r = rB] syn by simp
  moreover note sending_states(2) [where cfg = cfgB and r = rB and isn = ?iA and q = "[?synack]"]
  moreover have "TCPConnection_segment_received
      ((TCPConnection_new cfgA rA)\<lparr>con_sender := sent_sender cfgA rA, con_segments_out := [?syn]\<rparr>) ?synack =
    Inr ((TCPConnection_new cfgA rA)\<lparr>con_sender := acked_sender cfgA rA (th_win (ts_header ?synack)),
      con_receiver := synced cfgA ?iB, con_segments_out := [?syn, ?ack]\<rparr>)"
    using client_establishes [where seg = ?synack and cfg = cfgA and r = rA and q = "[?syn]"] synack stamp_ack [OF synced_ackno [where cfg = cfgB and isn = ?iA]] by simp
  moreover note established_state [where cfg = cfgA and r = rA and w = "th_win (ts_header ?synack)" and isn = ?iB and q = "[?syn, ?ack]"]
  moreover have "TCPConnection_segment_received ((TCPConnection_new cfgB rB)\<lparr>con_sender := sent_sender cfgB rB,
      con_receiver := synced cfgB ?iA, con_segments_out := [?synack]\<rparr>) ?ack =
    Inr ((TCPConnection_new cfgB rB)\<lparr>con_sender := acked_sender cfgB rB (th_win (ts_header ?ack)),
      con_receiver := synced cfgB ?iA, con_segments_out := [?synack]\<rparr>)"
    using server_establishes [where seg = ?ack and isn = ?iA and cfg = cfgB and r = rB and q = "[?synack]"] ack stamp_ack [OF synced_ackno [where cfg = cfgA and isn = ?iB]] by simp
  moreover note established_state [where cfg = cfgB and r = rB and w = "th_win (ts_header ?ack)" and isn = ?iA and q = "[?synack]"]
  ultimately show ?thesis
    by (intro conjI exI) (assumption | simp del: TCPState_eq_iff)+
qed

text \<open>
  Closing a connection that was never opened: the SYN that \<open>fill_window\<close> makes is left in
  the sender's queue, because the function only sends when the front of the queue carries FIN.
\<close>

lemma end_input_leaves_syn:
  "con_segments_out (TCPConnection_end_input_stream (TCPConnection_new TCPConfig_default 7)) = [] \<and>
   map (\<lambda>seg. th_syn (ts_header seg)) (snd_segments_out (con_sender
     (TCPConnection_end_input_stream (TCPConnection_new TCPConfig_default 7)))) = [True]"
  by (simp add: TCPConnection_end_input_stream_def TCPConnection_new_def TCPConfig_default_def
      ByteStream_end_input_def snd_eval)

end
