(* ===== verification/TCP_End_To_End.thy ===== *)
theory TCP_End_To_End
  imports TCP_Sender TCP_Receiver
begin

text \<open>
  A \<open>TCPSender\<close> and a \<open>TCPReceiver\<close> joined by a network: what the sender queues can be
  delivered to the receiver in any order, any number of times, or never; acknowledgments
  travel back, may be lost or duplicated, and arrive in the order they were sent. A FIN
  without payload does not overtake the data before it. The theory shows that the
  receiver's reader only ever sees a prefix of what was written to the sender, that no
  segment makes the receiver throw, and that the sender has everything acknowledged only
  when everything was delivered; and what happens when a FIN does overtake the data.
\<close>

section \<open>The system\<close>

record tcp_system =
  sys_snd :: TCPSender
  sys_rcv :: TCPReceiver
  sys_net :: "TCPSegment list"
  sys_acks :: "(WrappingInt32 \<times> u16) list"
  sys_out :: bytes

text \<open>\<open>sys_net\<close> holds every segment that was ever sent, \<open>sys_out\<close> what the reader has taken.\<close>

definition tcp_system_new :: "u64 \<Rightarrow> u16 \<Rightarrow> WrappingInt32 option \<Rightarrow> u32 \<Rightarrow> u64 \<Rightarrow> tcp_system" where
  "tcp_system_new c t i r cap =
     \<lparr>sys_snd = TCPSender_new c t i r, sys_rcv = TCPReceiver_new cap, sys_net = [], sys_acks = [],
      sys_out = []\<rparr>"

text \<open>
  A FIN without payload must not arrive before the data it follows: the reassembler would
  end the stream at once (see the last property of this theory).
\<close>

definition fin_in_order :: "TCPReceiver \<Rightarrow> TCPSegment \<Rightarrow> bool" where
  "fin_in_order r seg \<longleftrightarrow>
     (th_fin (ts_header seg) \<and> Buffer_str (ts_payload seg) = [] \<and> \<not> th_syn (ts_header seg) \<longrightarrow>
        TCPReceiver_ackno r = Some (th_seqno (ts_header seg)) \<or>
        ByteStream_input_ended (TCPReceiver_stream_out r))"

text \<open>
  \<open>T\<close> is the stream the application is going to write (all of it, once it closes the
  stream), \<open>W\<close> the part written so far.
\<close>

inductive sys_step :: "bytes \<Rightarrow> bytes \<times> tcp_system \<Rightarrow> bytes \<times> tcp_system \<Rightarrow> bool" for T where
  sys_write: "\<not> bs_input_is_end (snd_stream (sys_snd x)) \<Longrightarrow>
    ByteStream_write (snd_stream (sys_snd x)) d = (st, n) \<Longrightarrow> T = W @ take (unat n) d @ Z \<Longrightarrow>
    length W + length d + 2 < 2 ^ 64 \<Longrightarrow>
    sys_step T (W, x) (W @ take (unat n) d, x\<lparr>sys_snd := (sys_snd x)\<lparr>snd_stream := st\<rparr>\<rparr>)"
| sys_close: "sys_step T (T, x)
    (T, x\<lparr>sys_snd := (sys_snd x)\<lparr>snd_stream := ByteStream_end_input (snd_stream (sys_snd x))\<rparr>\<rparr>)"
| sys_fill: "sys_step T (W, x) (W, x\<lparr>sys_snd := TCPSender_fill_window (sys_snd x)\<rparr>)"
| sys_tick: "sys_step T (W, x) (W, x\<lparr>sys_snd := TCPSender_tick (sys_snd x) ms\<rparr>)"
| sys_send: "snd_segments_out (sys_snd x) = seg # q \<Longrightarrow>
    sys_step T (W, x) (W, x\<lparr>sys_snd := (sys_snd x)\<lparr>snd_segments_out := q\<rparr>, sys_net := seg # sys_net x\<rparr>)"
| sys_deliver: "seg \<in> set (sys_net x) \<Longrightarrow> fin_in_order (sys_rcv x) seg \<Longrightarrow>
    TCPReceiver_segment_received (sys_rcv x) seg = Inr r' \<Longrightarrow> sys_step T (W, x) (W, x\<lparr>sys_rcv := r'\<rparr>)"
| sys_read: "rcv_read (sys_rcv x) n = (r', d) \<Longrightarrow>
    sys_step T (W, x) (W, x\<lparr>sys_rcv := r', sys_out := sys_out x @ d\<rparr>)"
| sys_ack: "TCPReceiver_ackno (sys_rcv x) = Some a \<Longrightarrow>
    w = ucast (min (TCPReceiver_window_size (sys_rcv x)) 0xFFFF) \<Longrightarrow>
    sys_step T (W, x) (W, x\<lparr>sys_acks := sys_acks x @ [(a, w)]\<rparr>)"
| sys_take_ack: "sys_acks x = lost @ (a, w) # rest \<Longrightarrow>
    sys_step T (W, x) (W, x\<lparr>sys_snd := TCPSender_ack_received (sys_snd x) a w, sys_acks := (a, w) # rest\<rparr>)"

definition sys_reach :: "u64 \<Rightarrow> u16 \<Rightarrow> WrappingInt32 option \<Rightarrow> u32 \<Rightarrow> u64 \<Rightarrow> bytes \<Rightarrow> bytes \<Rightarrow> tcp_system \<Rightarrow> bool" where
  "sys_reach c t i r cap T W x \<longleftrightarrow> (sys_step T)\<^sup>*\<^sup>* ([], tcp_system_new c t i r cap) (W, x)"

section \<open>The invariant\<close>

text \<open>The absolute number the receiver acknowledges: what is assembled, the SYN, and the FIN at the end.\<close>

definition rcv_abs :: "TCPReceiver \<Rightarrow> nat" where
  "rcv_abs r = unat (sr_cur_index (rcv_reassembler r)) + 1 + (if sr_ended (rcv_reassembler r) then 1 else 0)"

abbreviation rcv_limit :: "TCPReceiver \<Rightarrow> nat" where
  "rcv_limit r \<equiv> sr_limit (rcv_reassembler r)"

text \<open>
  The receiving half: the reassembler is right about the stream, the reader has the
  beginning of it, and nothing was received that the sender has not sent.
\<close>

definition sys_rcv_inv :: "bytes \<Rightarrow> bytes \<Rightarrow> u64 \<Rightarrow> tcp_system \<Rightarrow> bool" where
  "sys_rcv_inv T W cap x \<longleftrightarrow>
     (let r = sys_rcv x; s = rcv_reassembler r
      in sr_inv ((!) T) s \<and> sr_eof_inv (length T) s \<and> sr_capacity s = cap \<and> rcv_capacity r = cap \<and>
         rcv_isn_ok (snd_isn (sys_snd x)) r \<and>
         sys_out x = sslice ((!) T) 0 (unat (bs_bytes_read (sr_output s))) \<and>
         (rcv_isn r \<noteq> None \<longrightarrow> snd_next_seqno (sys_snd x) \<noteq> 0) \<and>
         received s \<subseteq> {..<unat (bs_bytes_read (snd_stream (sys_snd x)))} \<and>
         (sr_eof s \<longrightarrow> snd_is_transmission_ended (sys_snd x)))"

text \<open>
  The segments: each is a piece of the stream that was sent, and starts inside the window
  of the receiver.
\<close>

definition net_seg :: "bytes \<Rightarrow> TCPSender \<Rightarrow> TCPReceiver \<Rightarrow> TCPSegment \<Rightarrow> bool" where
  "net_seg W s r seg \<longleftrightarrow>
     (\<exists>a. stream_seg W (bs_input_is_end (snd_stream s)) (snd_isn s) a seg \<and>
        a + seg_len seg \<le> unat (snd_next_seqno s) \<and> a \<le> rcv_limit r + 1)"

text \<open>
  Acknowledgments, oldest first: each stands for an absolute number that the receiver had
  reached, and its window ends inside the receiver's window.
\<close>

definition ack_ok :: "nat \<Rightarrow> TCPSender \<Rightarrow> TCPReceiver \<Rightarrow> nat \<Rightarrow> WrappingInt32 \<times> u16 \<Rightarrow> bool" where
  "ack_ok N s r A aw \<longleftrightarrow> fst aw = wrap (of_nat A) (snd_isn s) \<and> A \<le> rcv_abs r \<and>
     A + unat (snd aw) \<le> rcv_limit r + 1 + (if A = N + 2 then 1 else 0)"

fun acks_ok :: "nat \<Rightarrow> TCPSender \<Rightarrow> TCPReceiver \<Rightarrow> nat \<Rightarrow> (WrappingInt32 \<times> u16) list \<Rightarrow> bool" where
  "acks_ok N s r B [] \<longleftrightarrow> True"
| "acks_ok N s r B (aw # aws) \<longleftrightarrow> (\<exists>A \<ge> B. ack_ok N s r A aw \<and> acks_ok N s r A aws)"

definition sys_flow_inv :: "bytes \<Rightarrow> bytes \<Rightarrow> tcp_system \<Rightarrow> bool" where
  "sys_flow_inv T W x \<longleftrightarrow>
     (let s = sys_snd x; r = sys_rcv x; una = unat (snd_una_seqno s)
      in (\<forall>seg \<in> set (sys_net x) \<union> set (snd_segments_out s) \<union> set (snd_outstanding_segments s). net_seg W s r seg) \<and>
         una \<le> rcv_abs r \<and> (sys_acks x \<noteq> [] \<longrightarrow> rcv_isn r \<noteq> None) \<and> (0 < una \<longrightarrow> rcv_isn r \<noteq> None) \<and>
         (snd_next_seqno s = 0 \<longrightarrow> unat (snd_window_size s) \<le> 1) \<and>
         una + unat (snd_window_size s) \<le> rcv_limit r + 1 + (if una = length T + 2 then 1 else 0) \<and>
         acks_ok (length T) s r una (sys_acks x))"

definition sys_inv :: "bytes \<Rightarrow> u64 \<Rightarrow> bytes \<Rightarrow> tcp_system \<Rightarrow> bool" where
  "sys_inv T cap W x \<longleftrightarrow> snd_inv W (sys_snd x) \<and> (\<exists>Z. T = W @ Z) \<and>
     (bs_input_is_end (snd_stream (sys_snd x)) \<longrightarrow> W = T) \<and> sys_rcv_inv T W cap x \<and> sys_flow_inv T W x"

section \<open>Pieces of the stream\<close>

lemma slice_take_drop:
  assumes "k + n \<le> length W"
  shows "sslice ((!) (W @ Z)) k n = take n (drop k W)"
  using assms by (intro nth_equalityI) (simp_all add: sslice_def nth_append)

lemma seg_chain_mem:
  "seg_chain W e isn a segs b \<Longrightarrow> seg \<in> set segs \<Longrightarrow>
     \<exists>a'. stream_seg W e isn a' seg \<and> a \<le> a' \<and> a' + seg_len seg \<le> b"
proof (induction segs arbitrary: a)
  case (Cons x segs)
  show ?case
  proof (cases "seg = x")
    case True
    with Cons.prems(1) show ?thesis by (auto dest: seg_chain_le)
  next
    case False
    with Cons show ?thesis by fastforce
  qed
qed simp

lemma net_seg_mono:
  assumes "net_seg W s r seg" and "snd_isn s' = snd_isn s"
    and "unat (snd_next_seqno s) \<le> unat (snd_next_seqno s')" and "rcv_limit r \<le> rcv_limit r'"
    and "bs_input_is_end (snd_stream s) \<Longrightarrow> X = []"
    and "bs_input_is_end (snd_stream s) \<Longrightarrow> bs_input_is_end (snd_stream s')"
  shows "net_seg (W @ X) s' r' seg"
proof -
  obtain a where "stream_seg W (bs_input_is_end (snd_stream s)) (snd_isn s) a seg"
    "a + seg_len seg \<le> unat (snd_next_seqno s)" "a \<le> rcv_limit r + 1"
    using assms(1) by (auto simp: net_seg_def)
  moreover from this(1) have "stream_seg (W @ X) (bs_input_is_end (snd_stream s')) (snd_isn s') a seg"
    unfolding assms(2) by (rule stream_seg_mono) (use assms(5,6) in auto)
  ultimately show ?thesis using assms(3,4) unfolding net_seg_def by (intro exI [of _ a]) simp
qed

lemma ack_ok_mono:
  "ack_ok N s r A aw \<Longrightarrow> snd_isn s' = snd_isn s \<Longrightarrow> rcv_abs r \<le> rcv_abs r' \<Longrightarrow> rcv_limit r \<le> rcv_limit r' \<Longrightarrow>
     ack_ok N s' r' A aw"
  unfolding ack_ok_def by auto

lemma acks_ok_mono:
  assumes "snd_isn s' = snd_isn s" and "rcv_abs r \<le> rcv_abs r'" and "rcv_limit r \<le> rcv_limit r'"
  shows "acks_ok N s r B aws \<Longrightarrow> acks_ok N s' r' B aws"
  by (induction aws arbitrary: B) (auto intro: ack_ok_mono [OF _ assms])

lemma acks_ok_snoc:
  assumes "ack_ok N s r (rcv_abs r) aw"
  shows "acks_ok N s r B aws \<Longrightarrow> B \<le> rcv_abs r \<Longrightarrow> acks_ok N s r B (aws @ [aw])"
proof (induction aws arbitrary: B)
  case Nil
  with assms show ?case by auto
next
  case (Cons x xs)
  then obtain A where "B \<le> A" "ack_ok N s r A x" "acks_ok N s r A xs" by auto
  moreover from this(2) have "A \<le> rcv_abs r" by (simp add: ack_ok_def)
  ultimately show ?case using Cons.IH by auto
qed

lemma acks_ok_drop:
  "acks_ok N s r B (xs @ aw # ys) \<Longrightarrow> \<exists>A \<ge> B. ack_ok N s r A aw \<and> acks_ok N s r A ys"
proof (induction xs arbitrary: B)
  case (Cons x xs)
  then obtain A where "B \<le> A" "acks_ok N s r A (xs @ aw # ys)" by auto
  with Cons.IH show ?case by (meson order_trans)
qed simp

section \<open>Delivering a segment\<close>

lemma sr_limit_bound:
  assumes "sr_inv S s" and "unat (sr_cur_index s) \<le> N" and "N < 2 ^ 31" and "unat (sr_capacity s) < 2 ^ 32"
  shows "sr_limit s + 1 < 2 ^ 64"
  using assms by (simp add: sr_inv_def sr_limit_def)

lemma deliver_carries:
  assumes seg: "stream_seg W e isn a seg" and T: "T = W @ Z" and N: "length T + 4 \<le> 2 ^ 31"
    and cur: "unat (sr_cur_index s) \<le> length T" and lim: "a \<le> sr_limit s + 1" "sr_limit s + 1 < 2 ^ 64"
  shows "carries isn s seg (of_nat (a - 1))"
    and "push_pre ((!) T) s (Buffer_str (ts_payload seg)) (of_nat (a - 1))"
    and "a - 1 + length (Buffer_str (ts_payload seg)) \<le> length W" and "unat (of_nat (a - 1) :: u64) = a - 1"
proof -
  obtain p f where p: "seg = the_seg isn a p f" "a - 1 + length p \<le> length W"
    "p = take (length p) (drop (a - 1) W)"
    using seg by (auto simp: stream_seg_def)
  then show le: "a - 1 + length (Buffer_str (ts_payload seg)) \<le> length W" by simp
  have a: "a - 1 \<le> length T" using p(2) T by simp
  with N show u: "unat (of_nat (a - 1) :: u64) = a - 1" by (simp add: unat_of_nat64)
  have w: "of_nat (a - 1) + 1 = (of_nat (if a = 0 then 1 else a) :: u64)" by (cases a) simp_all
  have "wi_add (wrap 0 isn) 1 = wrap 1 isn" by (simp add: wi_add_def wrap_eq)
  then have ds: "seg_data_start seg = wrap (of_nat (a - 1) + 1) isn"
    unfolding w by (simp add: p(1) seg_data_start_def)
  have u1: "unat (of_nat (a - 1) + 1 :: u64) = a - 1 + 1" using a N u by (subst unat_succ64) simp_all
  have "wrap (of_nat (a - 1) + 1) isn \<noteq> isn"
  proof
    assume "wrap (of_nat (a - 1) + 1) isn = isn"
    then have "(a - 1 + 1) mod 2 ^ 32 = 0" using u1 by (simp add: wrap_iff)
    with a N show False by simp
  qed
  moreover have "th_syn (ts_header seg) \<longrightarrow> th_seqno (ts_header seg) = isn"
    by (cases isn) (simp add: p(1) wrap_eq)
  ultimately show "carries isn s seg (of_nat (a - 1))"
    unfolding carries_def using u ds a cur N by simp
  have "p = sslice ((!) T) (a - 1) (length p)" unfolding T using slice_take_drop [OF p(2)] p(3) by simp
  with u p(1) le a N lim show "push_pre ((!) T) s (Buffer_str (ts_payload seg)) (of_nat (a - 1))"
    unfolding push_pre_def using T by simp
qed

lemma received_mono_cur:
  assumes "sr_inv S s" and "sr_inv S s'" and "received s \<subseteq> received s'"
  shows "unat (sr_cur_index s) \<le> unat (sr_cur_index s')"
proof (rule ccontr)
  assume "\<not> ?thesis"
  then have "unat (sr_cur_index s') \<in> received s" by (simp add: received_def)
  with assms(3) cur_index_least_missing [OF assms(2)] show False by blast
qed

text \<open>How far the sent part of the stream reaches, for a segment that was sent.\<close>

lemma sent_seg_bounds:
  assumes inv: "snd_inv W s" and seg: "stream_seg W (bs_input_is_end (snd_stream s)) (snd_isn s) a seg"
    and sent: "a + seg_len seg \<le> unat (snd_next_seqno s)"
  shows "a - 1 + length (Buffer_str (ts_payload seg)) \<le> unat (bs_bytes_read (snd_stream s))"
    and "th_fin (ts_header seg) \<Longrightarrow> snd_is_transmission_ended s"
    and "th_fin (ts_header seg) \<Longrightarrow> a - 1 + length (Buffer_str (ts_payload seg)) = length W"
    and "snd_next_seqno s \<noteq> 0"
proof -
  obtain p f where p: "seg = the_seg (snd_isn s) a p f" "a - 1 + length p \<le> length W"
    "f \<longrightarrow> a - 1 + length p = length W" "p \<noteq> [] \<or> a = 0 \<or> f"
    using seg by (auto simp: stream_seg_def)
  have pos: "0 < seg_len seg" by (rule stream_seg_pos [OF seg])
  with sent show nz: "snd_next_seqno s \<noteq> 0" by auto
  let ?rd = "unat (bs_bytes_read (snd_stream s))"
  have rd: "?rd \<le> length W" using inv by (simp add: snd_inv_def snd_stream_inv_def)
  have nx: "unat (snd_next_seqno s) = 1 + ?rd + (if snd_is_transmission_ended s then 1 else 0)"
    "snd_is_transmission_ended s \<longrightarrow> ?rd = length W"
    using inv nz by (auto simp: snd_inv_def snd_pos_inv_def snd_stream_inv_def)
  have len: "seg_len seg = length p + (if a = 0 then 1 else 0) + (if f then 1 else 0)"
    by (simp add: p(1) seg_len_def)
  show "a - 1 + length (Buffer_str (ts_payload seg)) \<le> ?rd"
    using p sent nx rd len by (auto split: if_splits)
  show "snd_is_transmission_ended s" if "th_fin (ts_header seg)"
    using that p sent nx rd len by (auto split: if_splits)
  show "a - 1 + length (Buffer_str (ts_payload seg)) = length W" if "th_fin (ts_header seg)"
    using that p by simp
qed

lemma fin_in_order_pre:
  assumes seg: "stream_seg W e isn a seg" and N: "length T + 4 \<le> 2 ^ 31" and eof: "sr_eof_inv (length T) (rcv_reassembler r)"
    and isn: "rcv_isn r = Some isn \<or> a = 0" and ord: "fin_in_order r seg" and f: "th_fin (ts_header seg)"
    and p: "Buffer_str (ts_payload seg) = []" and a: "a - 1 = length T"
  shows "a - 1 \<le> unat (sr_cur_index (rcv_reassembler r))"
proof (cases "a = 0 \<or> sr_ended (rcv_reassembler r)")
  case True
  with eof a show ?thesis by (auto simp: sr_eof_inv_def)
next
  case False
  let ?cur = "sr_cur_index (rcv_reassembler r)"
  have cur: "unat ?cur \<le> length T" using eof cur_index_le by (auto simp: sr_eof_inv_def)
  have q: "th_seqno (ts_header seg) = wrap (of_nat a) isn" "\<not> th_syn (ts_header seg)"
    using seg False by (auto simp: stream_seg_def)
  have ne: "\<not> ByteStream_input_ended (TCPReceiver_stream_out r)"
    using False by (simp add: sr_ended_def TCPReceiver_stream_out_def)
  with ord f p q have "TCPReceiver_ackno r = Some (wrap (of_nat a) isn)" by (simp add: fin_in_order_def)
  with ne False isn have w: "wrap (?cur + 1) isn = wrap (of_nat a) isn" by (simp add: TCPReceiver_ackno_def)
  have u: "unat (?cur + 1) = unat ?cur + 1" "unat (of_nat a :: u64) = a"
    using cur N a by (simp_all add: unat_succ64 unat_of_nat64)
  have "?cur + 1 = of_nat a"
    using u cur N a by (intro seqno.to_rel_inj_near [OF w, of 0]) simp_all
  then have "unat ?cur + 1 = a" using u by metis
  then show ?thesis by simp
qed

text \<open>The flow part of the invariant survives when the receiver moves forward.\<close>

lemma sys_flow_receiver:
  assumes "sys_flow_inv T W x" and "rcv_abs (sys_rcv x) \<le> rcv_abs r'" and "rcv_limit (sys_rcv x) \<le> rcv_limit r'"
    and "rcv_isn (sys_rcv x) \<noteq> None \<Longrightarrow> rcv_isn r' \<noteq> None"
  shows "sys_flow_inv T W (x\<lparr>sys_rcv := r'\<rparr>)"
proof -
  have "net_seg W (sys_snd x) r' seg" if "net_seg W (sys_snd x) (sys_rcv x) seg" for seg
    using net_seg_mono [OF that refl order_refl assms(3), of "[]"] by simp
  with assms acks_ok_mono [OF refl assms(2,3)] show ?thesis
    unfolding sys_flow_inv_def Let_def by fastforce
qed

lemma deliver_push:
  assumes rinv: "sys_rcv_inv T W cap x" and sinv: "snd_inv W (sys_snd x)" and T: "T = W @ Z"
    and e: "bs_input_is_end (snd_stream (sys_snd x)) \<longrightarrow> W = T"
    and N: "length T + 4 \<le> 2 ^ 31" and cap: "unat cap < 2 ^ 32"
    and net: "net_seg W (sys_snd x) (sys_rcv x) seg" and ord: "fin_in_order (sys_rcv x) seg"
    and ign: "\<not> rcv_ignores (sys_rcv x) seg"
  shows "\<exists>r'. TCPReceiver_segment_received (sys_rcv x) seg = Inr r' \<and> sys_rcv_inv T W cap (x\<lparr>sys_rcv := r'\<rparr>) \<and>
     rcv_abs (sys_rcv x) \<le> rcv_abs r' \<and> rcv_limit r' = rcv_limit (sys_rcv x) \<and> rcv_isn r' \<noteq> None"
proof -
  let ?r = "sys_rcv x" let ?s = "rcv_reassembler ?r" let ?isn = "snd_isn (sys_snd x)"
  let ?p = "Buffer_str (ts_payload seg)" let ?f = "th_fin (ts_header seg)"
  obtain a where seg: "stream_seg W (bs_input_is_end (snd_stream (sys_snd x))) ?isn a seg"
    and sent: "a + seg_len seg \<le> unat (snd_next_seqno (sys_snd x))" and lim: "a \<le> rcv_limit ?r + 1"
    using net by (auto simp: net_seg_def)
  let ?i = "of_nat (a - 1) :: u64"
  have r: "sr_inv ((!) T) ?s" "sr_eof_inv (length T) ?s" "rcv_isn_ok ?isn ?r" "sr_capacity ?s = cap"
    using rinv by (simp_all add: sys_rcv_inv_def Let_def)
  have cur: "unat (sr_cur_index ?s) \<le> length T" using r(2) cur_index_le by (auto simp: sr_eof_inv_def)
  have "sr_limit ?s + 1 < 2 ^ 64" using N cap r(4) by (intro sr_limit_bound [OF r(1) cur]) simp_all
  note d = deliver_carries [OF seg T N cur lim this]
  note b = sent_seg_bounds [OF sinv seg sent]
  have isn: "rcv_isn ?r = Some ?isn \<or> th_syn (ts_header seg)"
    using ign r(3) by (auto simp: rcv_ignores_def rcv_isn_ok_def)
  have syn: "th_syn (ts_header seg) \<longleftrightarrow> a = 0" using seg by (auto simp: stream_seg_def)
  have "fin_pre (length T) ?s ?p ?i ?f"
  proof -
    have "?p \<noteq> [] \<or> ?i \<le> sr_cur_index ?s" if f: "?f"
    proof (rule disjCI)
      assume "\<not> ?i \<le> sr_cur_index ?s"
      moreover have "a - 1 = length T" if "?p = []"
        using b(3) [OF f] that e b(2) [OF f] sinv by (auto simp: snd_inv_def snd_pos_inv_def)
      ultimately show "?p \<noteq> []"
        using fin_in_order_pre [OF seg N r(2) _ ord f] isn syn d(4) by (auto simp: word_le_nat_alt)
    qed
    moreover have "?f \<Longrightarrow> W = T" using b(2) e sinv by (auto simp: snd_inv_def snd_pos_inv_def)
    ultimately show ?thesis unfolding fin_pre_def using d(3,4) b(3) T by auto
  qed
  note eof = push_eof_inv [OF r(1,2) d(2) this]
  obtain s' where s': "StreamReassembler_push_substring ?s ?p ?i ?f = Inr s'" "sr_inv ((!) T) s'"
    "sr_limit s' = sr_limit ?s" "sr_capacity s' = sr_capacity ?s"
    "received s' = received ?s \<union> ({unat ?i..<unat ?i + length ?p} \<inter> {..<sr_limit ?s})"
    "sr_eof s' \<longrightarrow> sr_eof ?s \<or> ?f" "sr_ended ?s \<longrightarrow> sr_ended s'"
    by (rule push_substring_result [OF r(1) d(2), of ?f]) blast
  let ?r' = "?r\<lparr>rcv_isn := Some ?isn, rcv_reassembler := s'\<rparr>"
  have eq: "TCPReceiver_segment_received ?r seg = Inr ?r'"
    using segment_received_push [OF d(1) isn] s'(1) by (simp add: rcv_push_def)
  have rd: "unat (bs_bytes_read (sr_output s')) = unat (bs_bytes_read (sr_output ?s))"
    using s'(3,4) by (simp add: sr_limit_def)
  have "received s' \<subseteq> {..<unat (bs_bytes_read (snd_stream (sys_snd x)))}"
    using rinv b(1) s'(5) d(4) by (auto simp: sys_rcv_inv_def Let_def)
  moreover have "sr_eof s' \<longrightarrow> snd_is_transmission_ended (sys_snd x)"
    using rinv b(2) s'(6) by (auto simp: sys_rcv_inv_def Let_def)
  ultimately have "sys_rcv_inv T W cap (x\<lparr>sys_rcv := ?r'\<rparr>)"
    using rinv s'(2,4) eof [OF s'(1)] rd b(4) by (simp add: sys_rcv_inv_def Let_def rcv_isn_ok_def)
  moreover have "rcv_abs ?r \<le> rcv_abs ?r'"
    using received_mono_cur [OF r(1) s'(2)] s'(5,7) by (auto simp: rcv_abs_def)
  ultimately show ?thesis using eq s'(3) by (intro exI [of _ ?r']) simp
qed

lemma deliver_ok:
  assumes inv: "sys_inv T cap W x" and N: "length T + 4 \<le> 2 ^ 31" and cap: "unat cap < 2 ^ 32"
    and seg: "seg \<in> set (sys_net x)" and ord: "fin_in_order (sys_rcv x) seg"
  shows "\<exists>r'. TCPReceiver_segment_received (sys_rcv x) seg = Inr r' \<and> sys_inv T cap W (x\<lparr>sys_rcv := r'\<rparr>)"
proof (cases "rcv_ignores (sys_rcv x) seg")
  case True
  then have "TCPReceiver_segment_received (sys_rcv x) seg = Inr (sys_rcv x)"
    by (simp add: rcv_ignores_def segment_before_syn)
  with inv show ?thesis by simp
next
  case False
  obtain Z where Z: "T = W @ Z" using inv by (auto simp: sys_inv_def)
  have net: "net_seg W (sys_snd x) (sys_rcv x) seg"
    using inv seg by (simp add: sys_inv_def sys_flow_inv_def Let_def)
  have i: "sys_rcv_inv T W cap x" "snd_inv W (sys_snd x)" "bs_input_is_end (snd_stream (sys_snd x)) \<longrightarrow> W = T"
    "sys_flow_inv T W x"
    using inv by (simp_all add: sys_inv_def)
  from deliver_push [OF i(1,2) Z i(3) N cap net ord False] obtain r' where
    r': "TCPReceiver_segment_received (sys_rcv x) seg = Inr r'" "sys_rcv_inv T W cap (x\<lparr>sys_rcv := r'\<rparr>)"
    "rcv_abs (sys_rcv x) \<le> rcv_abs r'" "rcv_limit r' = rcv_limit (sys_rcv x)" "rcv_isn r' \<noteq> None"
    by blast
  have "sys_flow_inv T W (x\<lparr>sys_rcv := r'\<rparr>)"
    using r' by (intro sys_flow_receiver [OF i(4)]) simp_all
  with inv r'(1,2) show ?thesis by (auto simp: sys_inv_def)
qed

section \<open>The other steps\<close>

text \<open>
  A step of the sender that moves forward: the segments it holds afterwards are old ones
  or new ones that start inside the window.
\<close>

lemma sys_sender_step:
  assumes inv: "sys_inv T cap W x" and s': "snd_inv (W @ X) s'" and T: "T = (W @ X) @ Z"
    and e: "bs_input_is_end (snd_stream (sys_snd x)) \<Longrightarrow> X = []"
      "bs_input_is_end (snd_stream (sys_snd x)) \<Longrightarrow> bs_input_is_end (snd_stream s')"
      "bs_input_is_end (snd_stream s') \<Longrightarrow> W @ X = T"
    and fwd: "snd_isn s' = snd_isn (sys_snd x)" "unat (snd_next_seqno (sys_snd x)) \<le> unat (snd_next_seqno s')"
      "unat (bs_bytes_read (snd_stream (sys_snd x))) \<le> unat (bs_bytes_read (snd_stream s'))"
      "snd_is_transmission_ended (sys_snd x) \<Longrightarrow> snd_is_transmission_ended s'"
    and una: "snd_una_seqno s' = snd_una_seqno (sys_snd x)" "snd_window_size s' = snd_window_size (sys_snd x)"
    and segs: "\<forall>seg \<in> set (snd_segments_out s') \<union> set (snd_outstanding_segments s').
      seg \<in> set (snd_segments_out (sys_snd x)) \<union> set (snd_outstanding_segments (sys_snd x)) \<or>
      net_seg (W @ X) s' (sys_rcv x) seg"
  shows "sys_inv T cap (W @ X) (x\<lparr>sys_snd := s'\<rparr>)"
proof -
  have "net_seg (W @ X) s' (sys_rcv x) seg" if "net_seg W (sys_snd x) (sys_rcv x) seg" for seg
    by (rule net_seg_mono [OF that fwd(1,2) order_refl e(1,2)])
  moreover have "acks_ok N (sys_snd x) (sys_rcv x) B aws \<Longrightarrow> acks_ok N s' (sys_rcv x) B aws" for N B aws
    by (rule acks_ok_mono [OF fwd(1)]) simp_all
  moreover have "sys_flow_inv T W x" using inv by (simp add: sys_inv_def)
  moreover have nz: "snd_next_seqno (sys_snd x) \<noteq> 0 \<Longrightarrow> snd_next_seqno s' \<noteq> 0"
    using fwd(2) by (auto simp: unat_eq_0 [symmetric])
  ultimately have "sys_flow_inv T (W @ X) (x\<lparr>sys_snd := s'\<rparr>)"
    using segs una unfolding sys_flow_inv_def Let_def by simp blast
  moreover have "sys_rcv_inv T (W @ X) cap (x\<lparr>sys_snd := s'\<rparr>)"
    using inv fwd nz by (auto simp: sys_inv_def sys_rcv_inv_def Let_def)
  ultimately show ?thesis using s' T e(3) by (auto simp: sys_inv_def)
qed

text \<open>The new segments of \<open>fill_window\<close> start inside the window of the receiver.\<close>

lemma fill_net_seg:
  assumes inv: "sys_inv T cap W x" and new: "snd_sends (sys_snd x) new s'" and s': "s' = TCPSender_fill_window (sys_snd x)"
    and chain: "seg_chain W (bs_input_is_end (snd_stream (sys_snd x))) (snd_isn (sys_snd x))
      (unat (snd_next_seqno (sys_snd x))) new (unat (snd_next_seqno s'))"
    and seg: "seg \<in> set new" and N: "length T + 4 \<le> 2 ^ 31" and cap: "unat cap < 2 ^ 32"
  shows "net_seg W s' (sys_rcv x) seg"
proof -
  let ?s = "sys_snd x" let ?r = "sys_rcv x" let ?una = "unat (snd_una_seqno (sys_snd x))"
  have sinv: "snd_inv W ?s" using inv by (simp add: sys_inv_def)
  note f = fill_window_ok [OF sinv, folded s']
  obtain a where a: "stream_seg W (bs_input_is_end (snd_stream ?s)) (snd_isn ?s) a seg"
    "unat (snd_next_seqno ?s) \<le> a" "a + seg_len seg \<le> unat (snd_next_seqno s')"
    using seg_chain_mem [OF chain seg] by blast
  have pos: "0 < seg_len seg" by (rule stream_seg_pos [OF a(1)])
  have fl: "unat (snd_bytes_in_flight ?s) \<le> unat (snd_next_seqno ?s)" "snd_base ?s \<le> ?una"
    "?una \<le> unat (snd_next_seqno ?s)" "unat (snd_bytes_in_flight s') \<le> unat (snd_next_seqno s')"
    using sinv f(1) by (simp_all add: snd_inv_def snd_flight_inv_def)
  have "snd_base s' = snd_base ?s" using new by (simp add: snd_sends_def)
  with fl a pos f(3) have le: "unat (snd_next_seqno s') \<le> ?una + unat (actual_window ?s)" by linarith
  have b: "unat (snd_next_seqno s') \<le> length W + 2" by (rule snd_inv_next_bound [OF f(1)])
  have nz: "?una \<noteq> length T + 2"
    using a pos b fl(3) inv by (auto simp: sys_inv_def)
  have flow: "?una + unat (snd_window_size ?s) \<le> rcv_limit ?r + 1" "?una \<le> rcv_abs ?r"
    using inv nz by (simp_all add: sys_inv_def sys_flow_inv_def Let_def)
  have "rcv_abs ?r \<le> rcv_limit ?r + 1 \<or> ?una \<le> rcv_limit ?r + 1" using flow by simp
  then have "a \<le> rcv_limit ?r + 1" using le flow a pos by (auto split: if_splits)
  moreover have "bs_input_is_end (snd_stream s') = bs_input_is_end (snd_stream ?s)" "snd_isn s' = snd_isn ?s"
    using new by (simp_all add: snd_sends_def)
  ultimately show ?thesis using a unfolding net_seg_def by auto
qed

lemma fill_ok:
  assumes inv: "sys_inv T cap W x" and N: "length T + 4 \<le> 2 ^ 31" and cap: "unat cap < 2 ^ 32"
  shows "sys_inv T cap W (x\<lparr>sys_snd := TCPSender_fill_window (sys_snd x)\<rparr>)"
proof -
  let ?s = "sys_snd x" let ?s' = "TCPSender_fill_window (sys_snd x)"
  have sinv: "snd_inv W ?s" using inv by (simp add: sys_inv_def)
  obtain new where new: "snd_sends ?s new ?s'" and chain: "seg_chain W (bs_input_is_end (snd_stream ?s))
      (snd_isn ?s) (unat (snd_next_seqno ?s)) new (unat (snd_next_seqno ?s'))"
    using fill_window_new [OF sinv] by blast
  obtain Z where Z: "T = W @ Z" using inv by (auto simp: sys_inv_def)
  have "sys_inv T cap (W @ []) (x\<lparr>sys_snd := ?s'\<rparr>)"
  proof (rule sys_sender_step [OF inv])
    show "\<forall>seg \<in> set (snd_segments_out ?s') \<union> set (snd_outstanding_segments ?s').
        seg \<in> set (snd_segments_out ?s) \<union> set (snd_outstanding_segments ?s) \<or> net_seg (W @ []) ?s' (sys_rcv x) seg"
      using new fill_net_seg [OF inv new refl chain _ N cap] by (auto simp: snd_sends_def)
    show "bs_input_is_end (snd_stream ?s') \<Longrightarrow> W @ [] = T"
      using new inv by (auto simp: snd_sends_def sys_inv_def)
  qed (use new sinv fill_window_ok(1) [OF sinv] Z seg_chain_le [OF chain] in \<open>auto simp: snd_sends_def\<close>)
  then show ?thesis by simp
qed

lemma tick_ok:
  assumes inv: "sys_inv T cap W x"
  shows "sys_inv T cap W (x\<lparr>sys_snd := TCPSender_tick (sys_snd x) ms\<rparr>)"
proof -
  let ?s = "sys_snd x" let ?s' = "TCPSender_tick (sys_snd x) ms"
  have sinv: "snd_inv W ?s" using inv by (simp add: sys_inv_def)
  obtain Z where Z: "T = W @ Z" using inv by (auto simp: sys_inv_def)
  have "sys_inv T cap (W @ []) (x\<lparr>sys_snd := ?s'\<rparr>)"
  proof (rule sys_sender_step [OF inv])
    show "bs_input_is_end (snd_stream ?s') \<Longrightarrow> W @ [] = T"
      using inv by (simp add: tick_eq Let_def sys_inv_def split: if_splits)
  qed (use tick_inv [OF sinv] Z in \<open>auto simp: tick_eq Let_def\<close>)
  then show ?thesis by simp
qed

lemma write_ok:
  assumes inv: "sys_inv T cap W x" and op: "\<not> bs_input_is_end (snd_stream (sys_snd x))"
    and wr: "ByteStream_write (snd_stream (sys_snd x)) d = (st, n)" and T: "T = W @ take (unat n) d @ Z"
    and small: "length W + length d + 2 < 2 ^ 64"
  shows "sys_inv T cap (W @ take (unat n) d) (x\<lparr>sys_snd := (sys_snd x)\<lparr>snd_stream := st\<rparr>\<rparr>)"
proof (rule sys_sender_step [OF inv])
  have sinv: "snd_inv W (sys_snd x)" using inv by (simp add: sys_inv_def)
  have win: "snd_next_seqno (sys_snd x) \<noteq> 0 \<or> unat (snd_window_size (sys_snd x)) \<le> 1"
    using inv by (auto simp: sys_inv_def sys_flow_inv_def Let_def)
  show "snd_inv (W @ take (unat n) d) ((sys_snd x)\<lparr>snd_stream := st\<rparr>)"
    using snd_inv_write [OF sinv op win small] wr by simp
  have "st = fst (ByteStream_write (snd_stream (sys_snd x)) d)" using wr by simp
  then have st: "bs_input_is_end st = bs_input_is_end (snd_stream (sys_snd x))"
    "bs_bytes_read st = bs_bytes_read (snd_stream (sys_snd x))" by simp_all
  show "bs_input_is_end (snd_stream ((sys_snd x)\<lparr>snd_stream := st\<rparr>)) \<Longrightarrow> W @ take (unat n) d = T"
    using st op by simp
  show "unat (bs_bytes_read (snd_stream (sys_snd x))) \<le> unat (bs_bytes_read (snd_stream ((sys_snd x)\<lparr>snd_stream := st\<rparr>)))"
    using st by simp
qed (use op T in auto)

lemma close_ok:
  assumes inv: "sys_inv T cap T x"
  shows "sys_inv T cap T (x\<lparr>sys_snd := (sys_snd x)\<lparr>snd_stream := ByteStream_end_input (snd_stream (sys_snd x))\<rparr>\<rparr>)"
proof -
  have "sys_inv T cap (T @ []) (x\<lparr>sys_snd := (sys_snd x)\<lparr>snd_stream := ByteStream_end_input (snd_stream (sys_snd x))\<rparr>\<rparr>)"
    by (rule sys_sender_step [OF inv]) (use snd_inv_end [of T "sys_snd x"] inv in \<open>auto simp: sys_inv_def\<close>)
  then show ?thesis by simp
qed

lemma send_ok:
  assumes inv: "sys_inv T cap W x" and q: "snd_segments_out (sys_snd x) = seg # q"
  shows "sys_inv T cap W (x\<lparr>sys_snd := (sys_snd x)\<lparr>snd_segments_out := q\<rparr>, sys_net := seg # sys_net x\<rparr>)"
proof -
  have "net_seg W ((sys_snd x)\<lparr>snd_segments_out := q\<rparr>) (sys_rcv x) s \<longleftrightarrow> net_seg W (sys_snd x) (sys_rcv x) s" for s
    by (simp add: net_seg_def)
  moreover have "acks_ok N ((sys_snd x)\<lparr>snd_segments_out := q\<rparr>) (sys_rcv x) B aws \<longleftrightarrow>
      acks_ok N (sys_snd x) (sys_rcv x) B aws" for N B aws
    by (rule iffI; erule acks_ok_mono [rotated -1]) simp_all
  moreover have "snd_inv W ((sys_snd x)\<lparr>snd_segments_out := q\<rparr>)"
    using inv q snd_inv_pop by (auto simp: sys_inv_def)
  ultimately show ?thesis using inv q
    by (auto simp: sys_inv_def sys_flow_inv_def sys_rcv_inv_def Let_def)
qed

lemma sys_read_ok:
  assumes inv: "sys_inv T cap W x" and rd: "rcv_read (sys_rcv x) n = (r', d)"
  shows "sys_inv T cap W (x\<lparr>sys_rcv := r', sys_out := sys_out x @ d\<rparr>)"
proof -
  let ?s = "rcv_reassembler (sys_rcv x)"
  have rinv: "sys_rcv_inv T W cap x" and fl: "sys_flow_inv T W x" using inv by (simp_all add: sys_inv_def)
  then have s: "sr_inv ((!) T) ?s" by (simp add: sys_rcv_inv_def Let_def)
  obtain s' where s': "StreamReassembler_read ?s n = (s', d)" "r' = (sys_rcv x)\<lparr>rcv_reassembler := s'\<rparr>"
    using rd by (cases "StreamReassembler_read ?s n") (simp add: rcv_read_def)
  note k = read_ok [OF s, of n, unfolded s'(1), simplified]
  have out: "d = sslice ((!) T) (unat (bs_bytes_read (sr_output ?s))) (length d)"
  proof -
    have "bs_str (sr_output ?s) = sslice ((!) T) (unat (bs_bytes_read (sr_output ?s))) (length (bs_str (sr_output ?s)))"
      using s by (simp add: sr_inv_def)
    moreover have "d = take (length d) (bs_str (sr_output ?s))" using k(4) by (metis append_eq_conv_conj)
    moreover have "length d \<le> length (bs_str (sr_output ?s))" using k(4) by (metis length_append le_add1)
    ultimately show ?thesis using take_slice by metis
  qed
  have "sys_out x @ d = sslice ((!) T) 0 (unat (bs_bytes_read (sr_output s')))"
  proof -
    have "sys_out x = sslice ((!) T) 0 (unat (bs_bytes_read (sr_output ?s)))"
      using rinv by (simp add: sys_rcv_inv_def Let_def)
    with out k(9) slice_append [of "(!) T" 0 "unat (bs_bytes_read (sr_output ?s))" "length d"] show ?thesis
      by simp
  qed
  moreover have "sr_eof_inv (length T) s'" using rinv k by (simp add: sys_rcv_inv_def sr_eof_inv_def Let_def)
  ultimately have "sys_rcv_inv T W cap (x\<lparr>sys_rcv := r', sys_out := sys_out x @ d\<rparr>)"
    using rinv k s'(2) by (simp add: sys_rcv_inv_def Let_def rcv_isn_ok_def)
  moreover have "sys_flow_inv T W (x\<lparr>sys_rcv := r', sys_out := sys_out x @ d\<rparr>) \<longleftrightarrow> sys_flow_inv T W (x\<lparr>sys_rcv := r'\<rparr>)"
    by (simp add: sys_flow_inv_def)
  moreover have "sys_flow_inv T W (x\<lparr>sys_rcv := r'\<rparr>)"
    using k s'(2) by (intro sys_flow_receiver [OF fl]) (simp_all add: rcv_abs_def)
  ultimately show ?thesis using inv by (simp add: sys_inv_def)
qed

text \<open>What the receiver says about itself.\<close>

lemma rcv_facts:
  assumes inv: "sys_inv T cap W x" and N: "length T + 4 \<le> 2 ^ 31"
  defines "r \<equiv> sys_rcv x" and "s \<equiv> sys_snd x"
  shows "unat (sr_cur_index (rcv_reassembler r)) \<le> length T" and "rcv_abs r \<le> length T + 2"
    and "sr_ended (rcv_reassembler r) \<Longrightarrow> rcv_abs r = length T + 2"
    and "rcv_isn r \<noteq> None \<Longrightarrow> rcv_abs r \<le> unat (snd_next_seqno s)"
    and "rcv_isn r \<noteq> None \<Longrightarrow> TCPReceiver_ackno r = Some (wrap (of_nat (rcv_abs r)) (snd_isn s))"
    and "unat (sr_cur_index (rcv_reassembler r)) \<le> unat (bs_bytes_read (snd_stream s))"
proof -
  let ?s = "rcv_reassembler r"
  have i: "sr_eof_inv (length T) ?s" "received ?s \<subseteq> {..<unat (bs_bytes_read (snd_stream s))}"
    "sr_eof ?s \<longrightarrow> snd_is_transmission_ended s" "rcv_isn_ok (snd_isn s) r"
    "rcv_isn r \<noteq> None \<longrightarrow> snd_next_seqno s \<noteq> 0" "snd_inv W s"
    using inv by (simp_all add: sys_inv_def sys_rcv_inv_def Let_def r_def s_def)
  show cur: "unat (sr_cur_index ?s) \<le> length T" using i(1) cur_index_le by (auto simp: sr_eof_inv_def)
  show rd: "unat (sr_cur_index ?s) \<le> unat (bs_bytes_read (snd_stream s))" by (rule cur_index_le [OF i(2)])
  have e: "sr_ended ?s \<Longrightarrow> sr_eof ?s \<and> unat (sr_cur_index ?s) = length T" using i(1) by (simp add: sr_eof_inv_def)
  show "rcv_abs r \<le> length T + 2" using cur by (simp add: rcv_abs_def)
  show "sr_ended ?s \<Longrightarrow> rcv_abs r = length T + 2" using e by (simp add: rcv_abs_def)
  show "rcv_isn r \<noteq> None \<Longrightarrow> rcv_abs r \<le> unat (snd_next_seqno s)"
    using i(3,5,6) rd e by (auto simp: rcv_abs_def snd_inv_def snd_pos_inv_def)
  assume "rcv_isn r \<noteq> None"
  then have "rcv_isn r = Some (snd_isn s)" using i(4) by (auto simp: rcv_isn_ok_def)
  then show "TCPReceiver_ackno r = Some (wrap (of_nat (rcv_abs r)) (snd_isn s))"
    by (simp add: TCPReceiver_ackno_def rcv_abs_def sr_ended_def TCPReceiver_stream_out_def add.commute)
qed

lemma ack_window_le: "unat (ucast (min w 0xFFFF :: u64) :: u16) \<le> unat w"
proof -
  have "unat (ucast (min w 0xFFFF :: u64) :: u16) \<le> unat (min w 0xFFFF)"
    by (simp add: unsigned_ucast_eq take_bit_eq_mod)
  also have "\<dots> \<le> unat w" by (simp add: word_le_nat_alt [symmetric])
  finally show ?thesis .
qed

lemma sys_ack_ok:
  assumes inv: "sys_inv T cap W x" and N: "length T + 4 \<le> 2 ^ 31"
    and a: "TCPReceiver_ackno (sys_rcv x) = Some a" and w: "w = ucast (min (TCPReceiver_window_size (sys_rcv x)) 0xFFFF)"
  shows "sys_inv T cap W (x\<lparr>sys_acks := sys_acks x @ [(a, w)]\<rparr>)"
proof -
  let ?r = "sys_rcv x"
  note f = rcv_facts [OF inv N]
  have isn: "rcv_isn ?r \<noteq> None" using a by (auto simp: TCPReceiver_ackno_def split: option.splits)
  have i: "sr_inv ((!) T) (rcv_reassembler ?r)" "rcv_capacity ?r = sr_capacity (rcv_reassembler ?r)"
    "sys_flow_inv T W x"
    using inv by (simp_all add: sys_inv_def sys_rcv_inv_def Let_def)
  have "unat (sr_cur_index (rcv_reassembler ?r)) + unat w \<le> rcv_limit ?r"
    using receiver_window [OF i(1,2)] ack_window_le [of "TCPReceiver_window_size ?r"] w by simp
  then have "rcv_abs ?r + unat w \<le> rcv_limit ?r + 1 + (if rcv_abs ?r = length T + 2 then 1 else 0)"
    using f(3) by (auto simp: rcv_abs_def)
  then have "ack_ok (length T) (sys_snd x) ?r (rcv_abs ?r) (a, w)"
    using f(5) [OF isn] a by (simp add: ack_ok_def)
  from acks_ok_snoc [OF this] i(3) isn have "sys_flow_inv T W (x\<lparr>sys_acks := sys_acks x @ [(a, w)]\<rparr>)"
    by (simp add: sys_flow_inv_def Let_def)
  with inv show ?thesis by (simp add: sys_inv_def sys_rcv_inv_def Let_def)
qed

text \<open>
  What an acknowledgment from the network does to the sender: it moves the acknowledged
  point to the number it stands for and takes over the window.
\<close>

lemma take_ack_sender:
  fixes w :: u16
  assumes inv: "snd_inv W s" and A: "unat (snd_una_seqno s) \<le> A" "A \<le> unat (snd_next_seqno s)"
    and a: "a = wrap (of_nat A) (snd_isn s)"
  defines "s' \<equiv> TCPSender_ack_received s a w"
  shows "unat (snd_una_seqno s') = A" and "snd_window_size s' = ucast w" and "snd_next_seqno s' = snd_next_seqno s"
    and "snd_segments_out s' = snd_segments_out s" and "snd_stream s' = snd_stream s" and "snd_isn s' = snd_isn s"
    and "set (snd_outstanding_segments s') \<subseteq> set (snd_outstanding_segments s)"
    and "snd_is_transmission_ended s' = snd_is_transmission_ended s"
proof -
  have uA: "unat (of_nat A :: u64) = A" by (intro unat_of_nat64 le_less_trans [OF A(2)]) simp
  have near: "unat (snd_next_seqno s) < unat (snd_una_seqno s) + 2 ^ 31"
    using inv by (auto simp: snd_inv_def snd_flight_inv_def)
  have uw: "unwrap a (snd_isn s) (snd_next_seqno s) = of_nat A"
    unfolding a using A near uA by (intro seqno.from_to) linarith+
  show "snd_is_transmission_ended s' = snd_is_transmission_ended s"
    by (simp add: s'_def TCPSender_ack_received_def Let_def split_def)
  have "unat (snd_una_seqno s') = A \<and> snd_window_size s' = ucast w \<and> snd_next_seqno s' = snd_next_seqno s \<and>
     snd_segments_out s' = snd_segments_out s \<and> snd_stream s' = snd_stream s \<and> snd_isn s' = snd_isn s \<and>
     set (snd_outstanding_segments s') \<subseteq> set (snd_outstanding_segments s)"
  proof (cases "snd_una_seqno s < of_nat A")
    case True
    moreover have "of_nat A \<le> snd_next_seqno s" using A(2) uA by (simp add: word_le_nat_alt)
    ultimately show ?thesis
      using ack_acceptable(1,2) [OF inv uw [symmetric], of w] uA unfolding s'_def snd_acked_def by auto
  next
    case False
    then have eq: "unat (snd_una_seqno s) = A" using A(1) uA by (simp add: word_less_nat_alt)
    have "s' = s\<lparr>snd_window_size := ucast w\<rparr>"
      unfolding s'_def using False uw by (intro ack_unacceptable) (simp add: not_less)
    with eq show ?thesis by simp
  qed
  then show "unat (snd_una_seqno s') = A" "snd_window_size s' = ucast w" "snd_next_seqno s' = snd_next_seqno s"
    "snd_segments_out s' = snd_segments_out s" "snd_stream s' = snd_stream s" "snd_isn s' = snd_isn s"
    "set (snd_outstanding_segments s') \<subseteq> set (snd_outstanding_segments s)" by simp_all
qed

lemma sys_take_ack_ok:
  assumes inv: "sys_inv T cap W x" and N: "length T + 4 \<le> 2 ^ 31" and q: "sys_acks x = lost @ (a, w) # rest"
  shows "sys_inv T cap W (x\<lparr>sys_snd := TCPSender_ack_received (sys_snd x) a w, sys_acks := (a, w) # rest\<rparr>)"
proof -
  let ?s = "sys_snd x" let ?r = "sys_rcv x" let ?s' = "TCPSender_ack_received (sys_snd x) a w"
  have i: "snd_inv W ?s" "sys_flow_inv T W x" "sys_rcv_inv T W cap x" using inv by (simp_all add: sys_inv_def)
  have isn: "rcv_isn ?r \<noteq> None" using i(2) q by (simp add: sys_flow_inv_def Let_def)
  obtain A where A: "unat (snd_una_seqno ?s) \<le> A" "ack_ok (length T) ?s ?r A (a, w)" "acks_ok (length T) ?s ?r A rest"
    using i(2) acks_ok_drop [of "length T" ?s ?r _ lost "(a, w)" rest] q by (auto simp: sys_flow_inv_def Let_def)
  have le: "A \<le> rcv_abs ?r" "A \<le> unat (snd_next_seqno ?s)" "a = wrap (of_nat A) (snd_isn ?s)"
    using A(2) rcv_facts(4) [OF inv N isn] by (simp_all add: ack_ok_def)
  note t = take_ack_sender [OF i(1) A(1) le(2,3), of w]
  have nz: "snd_next_seqno ?s \<noteq> 0" using i(3) isn by (simp add: sys_rcv_inv_def Let_def)
  have s': "snd_inv W ?s'" using nz by (intro snd_inv_ack [OF i(1)]) simp
  have u: "unat (snd_window_size ?s') = unat w" unfolding t(2) by (simp add: unat_ucast_widen)
  have n: "net_seg W ?s' ?r seg \<longleftrightarrow> net_seg W ?s ?r seg" for seg by (simp add: net_seg_def t)
  have segs: "\<forall>seg \<in> set (sys_net x) \<union> set (snd_segments_out ?s') \<union> set (snd_outstanding_segments ?s'). net_seg W ?s' ?r seg"
    using i(2) n t(7) unfolding t(4) sys_flow_inv_def Let_def by blast
  have k: "acks_ok (length T) ?s' ?r A rest" by (rule acks_ok_mono [OF t(6) _ _ A(3)]) simp_all
  have "ack_ok (length T) ?s' ?r A (a, w)" using A(2) by (simp only: ack_ok_def t(6))
  with k have "acks_ok (length T) ?s' ?r A ((a, w) # rest)" by auto
  moreover have "A + unat w \<le> rcv_limit ?r + 1 + (if A = length T + 2 then 1 else 0)"
    using A(2) by (simp add: ack_ok_def)
  ultimately have "sys_flow_inv T W (x\<lparr>sys_snd := ?s', sys_acks := (a, w) # rest\<rparr>)"
    using i(2) isn le(1) segs nz unfolding sys_flow_inv_def Let_def by (simp add: t(1,3) u del: acks_ok.simps)
  moreover have "sys_rcv_inv T W cap (x\<lparr>sys_snd := ?s', sys_acks := (a, w) # rest\<rparr>)"
    using i(3) by (simp add: sys_rcv_inv_def Let_def t)
  ultimately show ?thesis using inv s' by (simp add: sys_inv_def t)
qed

section \<open>Reachable states\<close>

lemma sys_inv_new: "sys_inv T cap [] (tcp_system_new c t i r cap)"
  by (simp add: sys_inv_def snd_inv_new tcp_system_new_def sys_rcv_inv_def sys_flow_inv_def Let_def
      TCPReceiver_new_def sr_inv_new rcv_isn_ok_def)
     (simp add: TCPSender_new_def ByteStream_new_def StreamReassembler_new_def sr_eof_inv_def received_def sr_limit_def
      sr_ended_def ByteStream_input_ended_def)

lemma sys_step_inv:
  assumes "sys_step T (W, x) (W', x')" and "length T + 4 \<le> 2 ^ 31" and "unat cap < 2 ^ 32" and "sys_inv T cap W x"
  shows "sys_inv T cap W' x'"
  using assms
proof (cases rule: sys_step.cases)
  case (sys_deliver seg r')
  with deliver_ok [OF assms(4,2,3)] show ?thesis by fastforce
qed (use assms write_ok close_ok fill_ok tick_ok send_ok sys_read_ok sys_ack_ok sys_take_ack_ok in \<open>simp_all\<close>)

lemma sys_reach_inv:
  assumes "sys_reach c t i r cap T W x" and "length T + 4 \<le> 2 ^ 31" and "unat cap < 2 ^ 32"
  shows "sys_inv T cap W x"
  using assms(1) unfolding sys_reach_def
proof (induction rule: rtranclp_induct2)
  case refl
  show ?case by (rule sys_inv_new)
next
  case (step W x W' x')
  show ?case by (rule sys_step_inv [OF step(2) assms(2,3) step(3)])
qed

text \<open>What the reader has and what waits for it, together.\<close>

definition sys_delivered :: "tcp_system \<Rightarrow> bytes" where
  "sys_delivered x = sys_out x @ bs_str (TCPReceiver_stream_out (sys_rcv x))"

lemma sys_delivered_take:
  assumes inv: "sys_inv T cap W x" and N: "length T + 4 \<le> 2 ^ 31"
  shows "sys_delivered x = take (unat (sr_cur_index (rcv_reassembler (sys_rcv x)))) W"
    and "unat (sr_cur_index (rcv_reassembler (sys_rcv x))) \<le> length W"
proof -
  let ?s = "rcv_reassembler (sys_rcv x)"
  let ?rd = "unat (bs_bytes_read (sr_output ?s))" let ?b = "bs_str (sr_output ?s)"
  have i: "sr_inv ((!) T) ?s" "sys_out x = sslice ((!) T) 0 ?rd" "snd_inv W (sys_snd x)"
    using inv by (simp_all add: sys_inv_def sys_rcv_inv_def Let_def)
  obtain Z where Z: "T = W @ Z" using inv by (auto simp: sys_inv_def)
  have s: "?rd + length ?b = unat (sr_cur_index ?s)" "?b = sslice ((!) T) ?rd (length ?b)"
    using i(1) by (simp_all add: sr_inv_def)
  show le: "unat (sr_cur_index ?s) \<le> length W"
    using rcv_facts(6) [OF inv N] i(3) by (simp add: snd_inv_def snd_stream_inv_def)
  have "sys_delivered x = sslice ((!) T) 0 (unat (sr_cur_index ?s))"
    unfolding sys_delivered_def i(2) TCPReceiver_stream_out_def s(1) [symmetric]
    using s(2) slice_append [of "(!) T" 0 ?rd "length ?b"] by simp
  then show "sys_delivered x = take (unat (sr_cur_index ?s)) W"
    unfolding Z using slice_take_drop [of 0 _ W Z] le by simp
qed

section \<open>Examples\<close>

text \<open>A run that transfers one byte.\<close>

abbreviation e2e_syn :: TCPSegment where
  "e2e_syn \<equiv> the_seg (WrappingInt32 5) 0 [] False"

abbreviation e2e_data :: TCPSegment where
  "e2e_data \<equiv> the_seg (WrappingInt32 5) 1 [7] True"

definition e2e_closed :: TCPSender where
  "e2e_closed = fresh_sender\<lparr>snd_stream := ByteStream_end_input (fst (ByteStream_write (ByteStream_new 10) [7]))\<rparr>"

lemma e2e_fill_syn:
  "TCPSender_fill_window e2e_closed = e2e_closed\<lparr>snd_next_seqno := 1, snd_bytes_in_flight := 1,
     snd_segments_out := [e2e_syn], snd_outstanding_segments := [e2e_syn],
     snd_timer := \<lparr>rt_ddl = 1000, rt_cur = 0, rt_is_start = True\<rparr>\<rparr>"
  by (simp add: snd_eval the_seg_def e2e_closed_def)

definition e2e_acked :: TCPSender where
  "e2e_acked = e2e_closed\<lparr>snd_next_seqno := 1, snd_una_seqno := 1, snd_window_size := 10\<rparr>"

lemma e2e_take_ack:
  "TCPSender_ack_received ((TCPSender_fill_window e2e_closed)\<lparr>snd_segments_out := []\<rparr>) (WrappingInt32 6) 10 = e2e_acked"
  by (simp add: e2e_fill_syn TCPSender_ack_received_def unwrap_def wi_minus_def e2e_acked_def e2e_closed_def snd_eval
        TCPSegment_length_in_sequence_space_def the_seg_def)

lemma e2e_fill_data:
  "snd_segments_out (TCPSender_fill_window e2e_acked) = [e2e_data]"
  by (simp add: snd_eval the_seg_def e2e_closed_def e2e_acked_def)

definition e2e_synced :: TCPReceiver where
  "e2e_synced = (TCPReceiver_new 10)\<lparr>rcv_isn := Some (WrappingInt32 5)\<rparr>"

lemma e2e_rcv_syn: "TCPReceiver_segment_received (TCPReceiver_new 10) e2e_syn = Inr e2e_synced"
  by (simp add: TCPReceiver_segment_received_def TCPReceiver_new_def e2e_synced_def the_seg_def sr_eval wrap_eq
    unwrap_def wi_minus_def wi_add_def)

lemma e2e_rcv_ack: "TCPReceiver_ackno e2e_synced = Some (WrappingInt32 6)"
  "ucast (min (TCPReceiver_window_size e2e_synced) 0xFFFF) = (10 :: u16)"
  by (simp_all add: TCPReceiver_ackno_def TCPReceiver_window_size_def TCPReceiver_new_def e2e_synced_def sr_eval wrap_eq TCPReceiver_stream_out_def)

definition e2e_received :: TCPReceiver where
  "e2e_received = e2e_synced\<lparr>rcv_reassembler := projr (StreamReassembler_push_substring (rcv_reassembler e2e_synced) [7] 0 True)\<rparr>"

lemma e2e_rcv_data: "TCPReceiver_segment_received e2e_synced e2e_data = Inr e2e_received"
  by (simp add: TCPReceiver_segment_received_def TCPReceiver_new_def e2e_synced_def e2e_received_def the_seg_def sr_eval wrap_eq
    unwrap_def wi_minus_def wi_add_def)

lemma e2e_read: "snd (rcv_read e2e_received 1) = [7]"
  by (simp add: TCPReceiver_new_def e2e_synced_def e2e_received_def rcv_read_def sr_eval)

abbreviation e2e_pre :: "TCPSender \<Rightarrow> TCPReceiver \<Rightarrow> TCPSegment list \<Rightarrow> (WrappingInt32 \<times> u16) list \<Rightarrow> tcp_system" where
  "e2e_pre s r net acks \<equiv> \<lparr>sys_snd = s, sys_rcv = r, sys_net = net, sys_acks = acks, sys_out = []\<rparr>"

lemma e2e_handshake:
  "sys_reach 10 1000 (Some (WrappingInt32 5)) 0 10 [7] [7] (e2e_pre e2e_acked e2e_synced [e2e_syn] [(WrappingInt32 6, 10)])"
proof -
  let ?st = "fst (ByteStream_write (ByteStream_new 10) [7])"
  let ?s = "fresh_sender\<lparr>snd_stream := ?st\<rparr>" let ?r = "TCPReceiver_new 10" let ?q = "(WrappingInt32 6, 10 :: u16)"
  let ?f = "TCPSender_fill_window e2e_closed" let ?R = "(sys_step [7])\<^sup>*\<^sup>* ([], e2e_pre fresh_sender ?r [] [])"
  have "?R ([], e2e_pre fresh_sender ?r [] [])" by simp
  also have "sys_step [7] ([], e2e_pre fresh_sender ?r [] []) ([7], e2e_pre ?s ?r [] [])"
    using sys_write [of "e2e_pre fresh_sender ?r [] []" "[7]" ?st 1 "[7]" "[]" "[]"]
    by (simp add: TCPSender_new_def ByteStream_new_def ByteStream_write_def Let_def sponge_defs)
  also have "sys_step [7] ([7], e2e_pre ?s ?r [] []) ([7], e2e_pre e2e_closed ?r [] [])"
    using sys_close [of "[7]" "e2e_pre ?s ?r [] []"] by (simp add: e2e_closed_def)
  also have "sys_step [7] ([7], e2e_pre e2e_closed ?r [] []) ([7], e2e_pre ?f ?r [] [])"
    using sys_fill [of "[7]" "[7]" "e2e_pre e2e_closed ?r [] []"] by simp
  also have "sys_step [7] ([7], e2e_pre ?f ?r [] []) ([7], e2e_pre (?f\<lparr>snd_segments_out := []\<rparr>) ?r [e2e_syn] [])"
    using sys_send [of "e2e_pre ?f ?r [] []" e2e_syn "[]" "[7]" "[7]"] by (simp add: e2e_fill_syn)
  also have "sys_step [7] ([7], e2e_pre (?f\<lparr>snd_segments_out := []\<rparr>) ?r [e2e_syn] [])
      ([7], e2e_pre (?f\<lparr>snd_segments_out := []\<rparr>) e2e_synced [e2e_syn] [])"
    using sys_deliver [of e2e_syn "e2e_pre (?f\<lparr>snd_segments_out := []\<rparr>) ?r [e2e_syn] []" e2e_synced "[7]" "[7]"]
    by (simp add: e2e_rcv_syn fin_in_order_def)
  also have "sys_step [7] ([7], e2e_pre (?f\<lparr>snd_segments_out := []\<rparr>) e2e_synced [e2e_syn] [])
      ([7], e2e_pre (?f\<lparr>snd_segments_out := []\<rparr>) e2e_synced [e2e_syn] [?q])"
    using sys_ack [of "e2e_pre (?f\<lparr>snd_segments_out := []\<rparr>) e2e_synced [e2e_syn] []" "WrappingInt32 6" 10 "[7]" "[7]"]
    by (simp add: e2e_rcv_ack)
  also have "sys_step [7] ([7], e2e_pre (?f\<lparr>snd_segments_out := []\<rparr>) e2e_synced [e2e_syn] [?q])
      ([7], e2e_pre e2e_acked e2e_synced [e2e_syn] [?q])"
    using sys_take_ack [of "e2e_pre (?f\<lparr>snd_segments_out := []\<rparr>) e2e_synced [e2e_syn] [?q]" "[]" "WrappingInt32 6" 10 "[]" "[7]" "[7]"]
    by (simp add: e2e_take_ack)
  finally show ?thesis by (simp add: sys_reach_def tcp_system_new_def)
qed

definition e2e_final :: tcp_system where
  "e2e_final = \<lparr>sys_snd = (TCPSender_fill_window e2e_acked)\<lparr>snd_segments_out := []\<rparr>, sys_rcv = fst (rcv_read e2e_received 1),
     sys_net = [e2e_data, e2e_syn], sys_acks = [(WrappingInt32 6, 10)], sys_out = [7]\<rparr>"

lemma e2e_transfer: "sys_reach 10 1000 (Some (WrappingInt32 5)) 0 10 [7] [7] e2e_final"
proof -
  let ?a = "[(WrappingInt32 6, 10 :: u16)]" let ?f = "TCPSender_fill_window e2e_acked"
  let ?s = "?f\<lparr>snd_segments_out := []\<rparr>" let ?n = "[e2e_data, e2e_syn]"
  have "(sys_step [7])\<^sup>*\<^sup>* ([], tcp_system_new 10 1000 (Some (WrappingInt32 5)) 0 10)
      ([7], e2e_pre e2e_acked e2e_synced [e2e_syn] ?a)"
    using e2e_handshake by (simp add: sys_reach_def)
  also have "sys_step [7] ([7], e2e_pre e2e_acked e2e_synced [e2e_syn] ?a) ([7], e2e_pre ?f e2e_synced [e2e_syn] ?a)"
    using sys_fill [of "[7]" "[7]" "e2e_pre e2e_acked e2e_synced [e2e_syn] ?a"] by simp
  also have "sys_step [7] ([7], e2e_pre ?f e2e_synced [e2e_syn] ?a) ([7], e2e_pre ?s e2e_synced ?n ?a)"
    using sys_send [of "e2e_pre ?f e2e_synced [e2e_syn] ?a" e2e_data "[]" "[7]" "[7]"] by (simp add: e2e_fill_data)
  also have "sys_step [7] ([7], e2e_pre ?s e2e_synced ?n ?a) ([7], e2e_pre ?s e2e_received ?n ?a)"
    using sys_deliver [of e2e_data "e2e_pre ?s e2e_synced ?n ?a" e2e_received "[7]" "[7]"]
    by (simp add: e2e_rcv_data [simplified] fin_in_order_def)
  also have "sys_step [7] ([7], e2e_pre ?s e2e_received ?n ?a) ([7], e2e_final)"
    using sys_read [of "e2e_pre ?s e2e_received ?n ?a" 1 "fst (rcv_read e2e_received 1)" "[7]" "[7]" "[7]"] e2e_read
    by (simp add: e2e_final_def prod_eq_iff)
  finally show ?thesis by (simp add: sys_reach_def)
qed

lemma e2e_final_ended: "ByteStream_input_ended (TCPReceiver_stream_out (sys_rcv e2e_final))"
  by (simp add: e2e_final_def TCPReceiver_new_def e2e_synced_def e2e_received_def rcv_read_def sr_eval TCPReceiver_stream_out_def)

text \<open>A run in which the stream is closed after the last byte was sent, so that the FIN is a segment of its own.\<close>

abbreviation late_data :: TCPSegment where
  "late_data \<equiv> the_seg (WrappingInt32 5) 1 [7] False"

abbreviation bare_fin :: TCPSegment where
  "bare_fin \<equiv> the_seg (WrappingInt32 5) 2 [] True"

definition open_sender :: TCPSender where
  "open_sender = fresh_sender\<lparr>snd_stream := fst (ByteStream_write (ByteStream_new 10) [7])\<rparr>"

definition open_acked :: TCPSender where
  "open_acked = open_sender\<lparr>snd_next_seqno := 1, snd_una_seqno := 1, snd_window_size := 10\<rparr>"

definition data_sender :: "TCPSegment list \<Rightarrow> TCPSender" where
  "data_sender q = open_acked\<lparr>snd_next_seqno := 2, snd_bytes_in_flight := 1, snd_segments_out := q,
     snd_outstanding_segments := [late_data], snd_timer := \<lparr>rt_ddl = 1000, rt_cur = 0, rt_is_start = True\<rparr>,
     snd_stream := (ByteStream_new 10)\<lparr>bs_bytes_read := 1, bs_bytes_written := 1\<rparr>\<rparr>"

definition fin_sender :: "TCPSegment list \<Rightarrow> TCPSender" where
  "fin_sender q = (data_sender q)\<lparr>snd_next_seqno := 3, snd_bytes_in_flight := 2,
     snd_outstanding_segments := [late_data, bare_fin], snd_is_transmission_ended := True,
     snd_stream := (ByteStream_new 10)\<lparr>bs_bytes_read := 1, bs_bytes_written := 1, bs_input_is_end := True\<rparr>\<rparr>"

lemma overtaken_words: "min x 0 = (0 :: u64)" "\<not> (10 :: u64) \<le> 1"
  by (simp add: min_def) (simp add: word_le_nat_alt)

lemma overtaken_syn:
  "TCPSender_fill_window open_sender = open_sender\<lparr>snd_next_seqno := 1, snd_bytes_in_flight := 1,
     snd_segments_out := [e2e_syn], snd_outstanding_segments := [e2e_syn],
     snd_timer := \<lparr>rt_ddl = 1000, rt_cur = 0, rt_is_start = True\<rparr>\<rparr>"
  by (simp add: snd_eval the_seg_def open_sender_def)

lemma overtaken_ack:
  "TCPSender_ack_received ((TCPSender_fill_window open_sender)\<lparr>snd_segments_out := []\<rparr>) (WrappingInt32 6) 10 = open_acked"
  by (simp add: overtaken_syn TCPSender_ack_received_def unwrap_def wi_minus_def open_acked_def open_sender_def snd_eval
        TCPSegment_length_in_sequence_space_def the_seg_def)

lemma overtaken_data: "TCPSender_fill_window open_acked = data_sender [late_data]"
  by (simp add: snd_eval the_seg_def overtaken_words open_acked_def open_sender_def data_sender_def)

lemma overtaken_fin:
  "TCPSender_fill_window ((data_sender [])\<lparr>snd_stream := ByteStream_end_input (snd_stream (data_sender []))\<rparr>) =
     fin_sender [bare_fin]"
  by (simp add: snd_eval the_seg_def overtaken_words open_acked_def open_sender_def data_sender_def fin_sender_def
      ByteStream_end_input_def)

abbreviation overtaken :: tcp_system where
  "overtaken \<equiv> e2e_pre (fin_sender []) e2e_synced [bare_fin, late_data, e2e_syn] [(WrappingInt32 6, 10)]"

lemma overtaken_reach: "sys_reach 10 1000 (Some (WrappingInt32 5)) 0 10 [7] [7] overtaken"
proof -
  let ?st = "fst (ByteStream_write (ByteStream_new 10) [7])" let ?r = "TCPReceiver_new 10"
  let ?q = "(WrappingInt32 6, 10 :: u16)" let ?f = "TCPSender_fill_window open_sender"
  let ?g = "?f\<lparr>snd_segments_out := []\<rparr>" let ?n = "[late_data, e2e_syn]"
  let ?c = "(data_sender [])\<lparr>snd_stream := ByteStream_end_input (snd_stream (data_sender []))\<rparr>"
  have q: "snd_segments_out (data_sender q) = q" "(data_sender q)\<lparr>snd_segments_out := p\<rparr> = data_sender p"
    "snd_segments_out (fin_sender q) = q" "(fin_sender q)\<lparr>snd_segments_out := p\<rparr> = fin_sender p" for p q
    by (simp_all add: data_sender_def fin_sender_def)
  have "(sys_step [7])\<^sup>*\<^sup>* ([], e2e_pre fresh_sender ?r [] []) ([], e2e_pre fresh_sender ?r [] [])" by simp
  also have "sys_step [7] ([], e2e_pre fresh_sender ?r [] []) ([7], e2e_pre open_sender ?r [] [])"
    using sys_write [of "e2e_pre fresh_sender ?r [] []" "[7]" ?st 1 "[7]" "[]" "[]"]
    by (simp add: open_sender_def TCPSender_new_def ByteStream_new_def ByteStream_write_def Let_def sponge_defs)
  also have "sys_step [7] ([7], e2e_pre open_sender ?r [] []) ([7], e2e_pre ?f ?r [] [])"
    using sys_fill [of "[7]" "[7]" "e2e_pre open_sender ?r [] []"] by simp
  also have "sys_step [7] ([7], e2e_pre ?f ?r [] []) ([7], e2e_pre ?g ?r [e2e_syn] [])"
    using sys_send [of "e2e_pre ?f ?r [] []" e2e_syn "[]" "[7]" "[7]"] by (simp add: overtaken_syn)
  also have "sys_step [7] ([7], e2e_pre ?g ?r [e2e_syn] []) ([7], e2e_pre ?g e2e_synced [e2e_syn] [])"
    using sys_deliver [of e2e_syn "e2e_pre ?g ?r [e2e_syn] []" e2e_synced "[7]" "[7]"]
    by (simp add: e2e_rcv_syn fin_in_order_def)
  also have "sys_step [7] ([7], e2e_pre ?g e2e_synced [e2e_syn] []) ([7], e2e_pre ?g e2e_synced [e2e_syn] [?q])"
    using sys_ack [of "e2e_pre ?g e2e_synced [e2e_syn] []" "WrappingInt32 6" 10 "[7]" "[7]"] by (simp add: e2e_rcv_ack)
  also have "sys_step [7] ([7], e2e_pre ?g e2e_synced [e2e_syn] [?q]) ([7], e2e_pre open_acked e2e_synced [e2e_syn] [?q])"
    using sys_take_ack [of "e2e_pre ?g e2e_synced [e2e_syn] [?q]" "[]" "WrappingInt32 6" 10 "[]" "[7]" "[7]"]
    by (simp add: overtaken_ack)
  also have "sys_step [7] \<dots> ([7], e2e_pre (data_sender [late_data]) e2e_synced [e2e_syn] [?q])"
    using sys_fill [of "[7]" "[7]" "e2e_pre open_acked e2e_synced [e2e_syn] [?q]"] by (simp add: overtaken_data)
  also have "sys_step [7] \<dots> ([7], e2e_pre (data_sender []) e2e_synced ?n [?q])"
    using sys_send [of "e2e_pre (data_sender [late_data]) e2e_synced [e2e_syn] [?q]" late_data "[]" "[7]" "[7]"] by (simp add: q)
  also have "sys_step [7] \<dots> ([7], e2e_pre ?c e2e_synced ?n [?q])"
    using sys_close [of "[7]" "e2e_pre (data_sender []) e2e_synced ?n [?q]"] by simp
  also have "sys_step [7] \<dots> ([7], e2e_pre (fin_sender [bare_fin]) e2e_synced ?n [?q])"
    using sys_fill [of "[7]" "[7]" "e2e_pre ?c e2e_synced ?n [?q]"] by (simp add: overtaken_fin)
  also have "sys_step [7] \<dots> ([7], overtaken)"
    using sys_send [of "e2e_pre (fin_sender [bare_fin]) e2e_synced ?n [?q]" bare_fin "[]" "[7]" "[7]"] by (simp add: q)
  finally show ?thesis by (simp add: sys_reach_def tcp_system_new_def)
qed

section \<open>A FIN that overtakes data\<close>

lemma early_eof:
  assumes inv: "sr_inv S s" and l: "sr_list s = []" and i: "unat (sr_cur_index s) < unat i" "unat i \<le> sr_limit s"
    and b: "sr_limit s + 1 < 2 ^ 64"
  shows "StreamReassembler_push_substring s [] i True =
    Inr (s\<lparr>sr_list := [\<lparr>ln_s = [], ln_beg = i, ln_end = i - 1\<rparr>], sr_eof := True,
           sr_output := ByteStream_end_input (sr_output s)\<rparr>)"
proof -
  let ?f = "sr_cur_index s + ByteStream_remaining_capacity (sr_output s)"
  have f: "unat ?f = sr_limit s" using first_unavailable_unat(1) [OF inv] b by simp
  then have "\<not> i < sr_cur_index s" "?f \<noteq> sr_cur_index s" "i \<noteq> sr_cur_index s" "\<not> ?f < i"
    using i by (auto simp: word_less_nat_alt)
  then show ?thesis using l
    by (simp add: StreamReassembler_push_substring_def push_merge_def push_store_def push_out_def Let_def
        StreamReassembler_empty_def StreamReassembler_unassembled_bytes_def)
qed

lemma ack_drops_one:
  fixes win :: u16
  assumes inv: "snd_inv W s" and out: "snd_outstanding_segments s = data # segs" "seg_len data = 1"
    and A: "unat A = unat (snd_una_seqno s) + 1" and isn: "isn = snd_isn s"
  shows "snd_outstanding_segments (TCPSender_ack_received s (wrap A isn) win) = segs"
proof -
  let ?e = "bs_input_is_end (snd_stream s)" let ?s = "TCPSender_ack_received s (wrap A isn) win"
  have fl: "snd_flight_inv W s" using inv by (simp add: snd_inv_def)
  then have base: "snd_base s = unat (snd_una_seqno s)" and bif: "unat (snd_bytes_in_flight s) \<le> 65535"
    "unat (snd_bytes_in_flight s) \<le> unat (snd_next_seqno s)"
    and ch: "stream_seg W ?e (snd_isn s) (snd_base s) data"
      "seg_chain W ?e (snd_isn s) (snd_base s + 1) segs (unat (snd_next_seqno s))"
    using out by (auto simp: snd_flight_inv_def)
  have le: "unat A \<le> unat (snd_next_seqno s)" using seg_chain_le [OF ch(2)] base A by simp
  have "A = unwrap (wrap A isn) (snd_isn s) (snd_next_seqno s)"
    unfolding isn using le bif base A by (intro unwrap_wrap [symmetric]) simp_all
  from ack_acceptable(1) [OF inv this, of win] A le obtain acked where
    k: "snd_outstanding_segments s = acked @ snd_outstanding_segments ?s"
      "seg_chain W ?e (snd_isn s) (snd_base s) acked (snd_base ?s)" "snd_base ?s \<le> unat A"
      "snd_outstanding_segments ?s \<noteq> [] \<longrightarrow> unat A < snd_base ?s + seg_len (hd (snd_outstanding_segments ?s))"
    unfolding snd_acked_def by (auto simp: word_less_nat_alt word_le_nat_alt)
  show ?thesis
  proof (cases acked)
    case Nil
    with k(1) out have o: "snd_outstanding_segments ?s = data # segs" by simp
    with k(4) out(2) have "unat A < snd_base ?s + 1" by simp
    moreover have "snd_base ?s = snd_base s" using k(2) Nil by simp
    ultimately show ?thesis using base A by linarith
  next
    case (Cons y ys)
    with k out have y: "y = data" "segs = ys @ snd_outstanding_segments ?s"
      "seg_chain W ?e (snd_isn s) (snd_base s + 1) ys (snd_base ?s)" by simp_all
    have "ys = []" using seg_chain_less [OF y(3)] k(3) base A by (cases "ys = []") simp_all
    with y show ?thesis by simp
  qed
qed

lemma overtaking_fin:
  assumes inv: "sys_inv T cap W x" and N: "length T + 4 \<le> 2 ^ 31"
    and fin: "fin \<in> set (sys_net x)" "\<not> fin_in_order (sys_rcv x) fin" and syn: "rcv_isn (sys_rcv x) \<noteq> None"
  shows "\<exists>a. stream_seg W (bs_input_is_end (snd_stream (sys_snd x))) (snd_isn (sys_snd x)) a fin \<and>
     a \<le> rcv_limit (sys_rcv x) + 1 \<and> a = length T + 1 \<and> W = T \<and>
     unat (sr_cur_index (rcv_reassembler (sys_rcv x))) < length T \<and> \<not> sr_ended (rcv_reassembler (sys_rcv x))"
proof -
  let ?r = "sys_rcv x" let ?s = "rcv_reassembler ?r" let ?isn = "snd_isn (sys_snd x)"
  let ?e = "bs_input_is_end (snd_stream (sys_snd x))"
  from inv fin(1) have "net_seg W (sys_snd x) ?r fin" by (simp add: sys_inv_def sys_flow_inv_def Let_def)
  then obtain a where a: "stream_seg W ?e ?isn a fin" "a \<le> rcv_limit ?r + 1" by (auto simp: net_seg_def)
  have bare: "th_fin (ts_header fin)" "Buffer_str (ts_payload fin) = []" "\<not> th_syn (ts_header fin)"
    "TCPReceiver_ackno ?r \<noteq> Some (th_seqno (ts_header fin))" and ne: "\<not> sr_ended ?s"
    using fin(2) by (simp_all add: fin_in_order_def sr_ended_def TCPReceiver_stream_out_def)
  have w: "?e" "a \<noteq> 0" "a - 1 = length W" using a(1) bare by (auto simp: stream_seg_def)
  have T: "W = T" using inv w(1) by (simp add: sys_inv_def)
  with w have al: "a = length T + 1" by simp
  note f = rcv_facts [OF inv N]
  have "rcv_abs ?r = unat (sr_cur_index ?s) + 1" using ne by (simp add: rcv_abs_def)
  with f(5) [OF syn] bare(4) stream_seg_seqno [OF a(1)] al have "unat (sr_cur_index ?s) \<noteq> length T"
    by (intro notI) (simp del: of_nat_Suc of_nat_add)
  with f(1) have "unat (sr_cur_index ?s) < length T" by simp
  with a ne T al show ?thesis by blast
qed

section \<open>Properties\<close>

text \<open>C2. End to end, for a stream of less than \<open>2 ^ 31\<close> bytes and a receiver of less than \<open>2 ^ 32\<close>
  bytes of capacity. The network may lose, repeat and reorder the segments in any way, except
  that a bare FIN does not overtake the data (that transfer goes wrong, as a later property shows).
  Acknowledgments may be lost and repeated, but an older one does not arrive after a newer one:
  \<open>ack_received\<close> takes over the window of an acknowledgment before it looks at its number, so
  an old one can make the sender exceed the receiver's window. Then the reader of the receiver gets a
  prefix of what was written to the sender; what the sender counts as acknowledged was
  delivered; the receiver's stream ends only when the application closed the sender's
  stream and every byte of it has arrived; the whole stream and its FIN are acknowledged
  only when the receiver's stream has ended; and no segment from the network makes the
  receiver throw.\<close>

theorem end_to_end_delivery:
  assumes "sys_reach c t i r cap T W x" and "length T + 4 \<le> 2 ^ 31" and "unat cap < 2 ^ 32"
  shows "(\<exists>Y. W = sys_delivered x @ Y) \<and>
     unat (snd_una_seqno (sys_snd x)) \<le> length (sys_delivered x) + 1 +
       (if ByteStream_input_ended (TCPReceiver_stream_out (sys_rcv x)) then 1 else 0) \<and>
     (ByteStream_input_ended (TCPReceiver_stream_out (sys_rcv x)) \<longrightarrow>
        sys_delivered x = T \<and> W = T \<and> ByteStream_input_ended (snd_stream (sys_snd x))) \<and>
     (unat (snd_una_seqno (sys_snd x)) = length T + 2 \<longrightarrow>
        ByteStream_input_ended (TCPReceiver_stream_out (sys_rcv x))) \<and>
     (\<forall>seg \<in> set (sys_net x). fin_in_order (sys_rcv x) seg \<longrightarrow>
        (\<exists>r'. TCPReceiver_segment_received (sys_rcv x) seg = Inr r'))"
proof -
  have inv: "sys_inv T cap W x" by (rule sys_reach_inv [OF assms])
  let ?s = "rcv_reassembler (sys_rcv x)"
  note f = rcv_facts [OF inv assms(2)] and d = sys_delivered_take [OF inv assms(2)]
  have e: "ByteStream_input_ended (TCPReceiver_stream_out (sys_rcv x)) \<longleftrightarrow> sr_ended ?s"
    by (simp add: sr_ended_def TCPReceiver_stream_out_def)
  have una: "unat (snd_una_seqno (sys_snd x)) \<le> rcv_abs (sys_rcv x)"
    using inv by (simp add: sys_inv_def sys_flow_inv_def Let_def)
  have len: "length (sys_delivered x) = unat (sr_cur_index ?s)" using d by simp
  have "sys_delivered x = T \<and> W = T \<and> ByteStream_input_ended (snd_stream (sys_snd x))" if en: "sr_ended ?s"
  proof -
    have cur: "unat (sr_cur_index ?s) = length T" and eof: "sr_eof ?s"
      using inv en by (simp_all add: sys_inv_def sys_rcv_inv_def sr_eof_inv_def Let_def)
    then have cl: "bs_input_is_end (snd_stream (sys_snd x))"
      using inv by (simp add: sys_inv_def sys_rcv_inv_def Let_def snd_inv_def snd_pos_inv_def)
    then have "W = T" using inv by (simp add: sys_inv_def)
    with d cur cl show ?thesis by (simp add: ByteStream_input_ended_def)
  qed
  moreover have "\<exists>Y. W = sys_delivered x @ Y" unfolding d(1) by (metis append_take_drop_id)
  moreover have "unat (snd_una_seqno (sys_snd x)) = length T + 2 \<Longrightarrow> sr_ended ?s"
    using una f(1) by (auto simp: rcv_abs_def split: if_splits)
  ultimately show ?thesis
    using una len deliver_ok [OF inv assms(2,3)] unfolding e by (auto simp: rcv_abs_def)
qed

theorem end_to_end_delivery_witness:
  "sys_reach 10 1000 (Some (WrappingInt32 5)) 0 10 [7] [7] e2e_final \<and> sys_delivered e2e_final = [7] \<and>
   (\<exists>r'. TCPReceiver_segment_received (sys_rcv e2e_final) e2e_data = Inr r')"
proof -
  have "e2e_data \<in> set (sys_net e2e_final)" "fin_in_order (sys_rcv e2e_final) e2e_data"
    by (simp_all add: e2e_final_def fin_in_order_def)
  with end_to_end_delivery [OF e2e_transfer] e2e_transfer e2e_final_ended show ?thesis by auto
qed

text \<open>C38. Where the transfer goes wrong, in every reachable state of the system: when the bare FIN
  arrives while data is missing and nothing is stored behind the gap, the receiver ends
  its stream short of the end and acknowledges the first missing byte as if it were the FIN.
  If the sender is waiting for exactly that byte, in a segment of its own, the acknowledgment makes it
  drop the segment, so the byte is never sent again.\<close>

theorem fin_overtakes_data:
  assumes "sys_reach c t i r cap T W x" and "length T + 4 \<le> 2 ^ 31" and "unat cap < 2 ^ 32"
    and "fin \<in> set (sys_net x)" and "\<not> fin_in_order (sys_rcv x) fin"
    and "rcv_isn (sys_rcv x) \<noteq> None" and "sr_list (rcv_reassembler (sys_rcv x)) = []"
  shows "\<exists>r' a. TCPReceiver_segment_received (sys_rcv x) fin = Inr r' \<and>
     ByteStream_input_ended (TCPReceiver_stream_out r') \<and>
     sys_delivered (x\<lparr>sys_rcv := r'\<rparr>) = sys_delivered x \<and> length (sys_delivered x) < length T \<and>
     TCPReceiver_ackno r' = Some a \<and> a = wrap (of_nat (length (sys_delivered x) + 2)) (snd_isn (sys_snd x)) \<and>
     (\<forall>data segs win. snd_outstanding_segments (sys_snd x) = data # segs \<and> seg_len data = 1 \<and>
        unat (snd_una_seqno (sys_snd x)) = length (sys_delivered x) + 1 \<longrightarrow>
        snd_outstanding_segments (TCPSender_ack_received (sys_snd x) a win) = segs)"
proof -
  let ?r = "sys_rcv x" let ?s = "rcv_reassembler ?r" let ?isn = "snd_isn (sys_snd x)"
  have inv: "sys_inv T cap W x" by (rule sys_reach_inv [OF assms(1-3)])
  from overtaking_fin [OF inv assms(2,4-6)] obtain a where
    a: "stream_seg W (bs_input_is_end (snd_stream (sys_snd x))) ?isn a fin" "a \<le> rcv_limit ?r + 1"
      "a = length T + 1" "W = T" and cur: "unat (sr_cur_index ?s) < length T" and ne: "\<not> sr_ended ?s" by blast
  have si: "sr_inv ((!) T) ?s" "sr_capacity ?s = cap" "rcv_isn ?r = Some ?isn"
    using inv assms(6) by (auto simp: sys_inv_def sys_rcv_inv_def Let_def rcv_isn_ok_def)
  have lim: "sr_limit ?s + 1 < 2 ^ 64" using cur assms(2,3) si(2) by (intro sr_limit_bound [OF si(1), of "length T"]) simp_all
  have bare: "Buffer_str (ts_payload fin) = []" "th_fin (ts_header fin)" using assms(5) by (simp_all add: fin_in_order_def)
  note d = deliver_carries [OF a(1) _ assms(2) less_imp_le [OF cur] a(2) lim, of "[]"]
  let ?i = "of_nat (a - 1) :: u64"
  let ?o = "ByteStream_end_input (sr_output ?s)"
  let ?s' = "?s\<lparr>sr_list := [\<lparr>ln_s = [], ln_beg = ?i, ln_end = ?i - 1\<rparr>], sr_eof := True, sr_output := ?o\<rparr>"
  let ?r' = "?r\<lparr>rcv_isn := Some ?isn, rcv_reassembler := ?s'\<rparr>"
  have u: "unat ?i = length T" using d(4) a(3,4) by simp
  have push: "StreamReassembler_push_substring ?s [] ?i True = Inr ?s'"
    using u cur a(2,3) by (intro early_eof [OF si(1) assms(7) _ _ lim]) simp_all
  have r': "TCPReceiver_segment_received ?r fin = Inr ?r'"
    using segment_received_push [of ?isn ?r fin ?i] d(1) a(4) si(3) push bare by (simp add: rcv_push_def)
  have len: "length (sys_delivered x) = unat (sr_cur_index ?s)" using sys_delivered_take [OF inv assms(2)] by simp
  let ?A = "of_nat (unat (sr_cur_index ?s) + 2) :: u64"
  have A: "unat ?A = unat (sr_cur_index ?s) + 2" using cur assms(2) by (intro unat_of_nat64) simp
  have "TCPReceiver_ackno ?r' = Some (wrap ?A ?isn)"
    by (simp add: TCPReceiver_ackno_def TCPReceiver_stream_out_def ByteStream_end_input_def
        ByteStream_input_ended_def Let_def)
  moreover have "snd_outstanding_segments (TCPSender_ack_received (sys_snd x) (wrap ?A ?isn) win) = segs"
    if "snd_outstanding_segments (sys_snd x) = data # segs" "seg_len data = 1"
      "unat (snd_una_seqno (sys_snd x)) = unat (sr_cur_index ?s) + 1" for data segs win
    using inv that A by (intro ack_drops_one [of W]) (simp_all add: sys_inv_def del: of_nat_add)
  moreover have "sys_delivered (x\<lparr>sys_rcv := ?r'\<rparr>) = sys_delivered x"
    by (simp add: sys_delivered_def TCPReceiver_stream_out_def ByteStream_end_input_def)
  moreover have "ByteStream_input_ended (TCPReceiver_stream_out ?r')"
    by (simp add: TCPReceiver_stream_out_def ByteStream_end_input_def ByteStream_input_ended_def)
  ultimately show ?thesis using r' cur unfolding len by blast
qed

theorem fin_overtakes_data_witness:
  "\<exists>r' a. TCPReceiver_segment_received (sys_rcv overtaken) bare_fin = Inr r' \<and>
     ByteStream_input_ended (TCPReceiver_stream_out r') \<and> sys_delivered (overtaken\<lparr>sys_rcv := r'\<rparr>) = [] \<and>
     TCPReceiver_ackno r' = Some a \<and>
     snd_outstanding_segments (TCPSender_ack_received (sys_snd overtaken) a 10) = [bare_fin]"
proof -
  have d: "sys_delivered overtaken = []" "sr_list (rcv_reassembler (sys_rcv overtaken)) = []"
    "rcv_isn (sys_rcv overtaken) \<noteq> None"
    by (simp_all add: sys_delivered_def e2e_synced_def TCPReceiver_new_def TCPReceiver_stream_out_def
        StreamReassembler_new_def ByteStream_new_def)
  have "\<not> fin_in_order (sys_rcv overtaken) bare_fin"
    using e2e_rcv_ack(1) by (simp add: fin_in_order_def e2e_synced_def TCPReceiver_new_def
        TCPReceiver_stream_out_def StreamReassembler_new_def ByteStream_new_def sponge_defs wrap_eq)
  moreover have "snd_outstanding_segments (sys_snd overtaken) = [late_data, bare_fin]"
    "unat (snd_una_seqno (sys_snd overtaken)) = 1" "seg_len late_data = 1"
    by (simp_all add: fin_sender_def data_sender_def open_acked_def seg_len_def)
  ultimately show ?thesis
    using fin_overtakes_data [OF overtaken_reach, of bare_fin] d by auto
qed

end
