(* ===== verification/Sponge_Address.thy ===== *)
theory Sponge_Address
  imports Net_Parser
begin

text \<open>
  Internet addresses: the class \<open>Address\<close> of \<open>libsponge/util/address.hh\<close> and
  \<open>libsponge/util/address.cc\<close>. An address wraps a \<open>sockaddr_storage\<close>, a block of 128 bytes
  of which the first \<open>_size\<close> count. For IPv4 the block holds a \<open>sockaddr_in\<close>: the family in
  host byte order (little endian), the port and the address in network byte order, and
  eight zero bytes.

  The resolver of the C library is a parameter: \<open>getaddrinfo\<close> takes the node, the service
  and the hints and returns an error number or the first resolved address, if any, with its
  length; \<open>getnameinfo\<close> takes an address block and its length and returns an error number
  or the numeric host and service strings.
\<close>

definition SOCKADDR_STORAGE_SIZE :: u64 where
  "SOCKADDR_STORAGE_SIZE = 128"

definition SOCKADDR_IN_SIZE :: u32 where
  "SOCKADDR_IN_SIZE = 16"

definition AF_INET :: u16 where
  "AF_INET = 2"

definition AI_NUMERICHOST :: u32 where
  "AI_NUMERICHOST = 4"

definition AI_ALL :: u32 where
  "AI_ALL = 16"

definition AI_NUMERICSERV :: u32 where
  "AI_NUMERICSERV = 1024"

record Address =
  addr_size :: u32
  addr_storage :: bytes

record addrinfo_hints =
  ai_flags :: u32
  ai_family :: u16

record resolver =
  getaddrinfo :: "string \<Rightarrow> string \<Rightarrow> addrinfo_hints \<Rightarrow> int + (bytes \<times> u64) option"
  getnameinfo :: "bytes \<Rightarrow> u32 \<Rightarrow> int + (string \<times> string)"

text \<open>\<open>memcpy\<close> of a shorter block into zeroed storage of \<open>n\<close> bytes.\<close>

definition memcpy_into :: "nat \<Rightarrow> bytes \<Rightarrow> nat \<Rightarrow> bytes" where
  "memcpy_into n s k = take k s @ replicate (n - k) 0"

definition Address_of_sockaddr :: "bytes \<Rightarrow> u64 \<Rightarrow> exn + Address" where
  "Address_of_sockaddr addr sz =
     (if sz > SOCKADDR_STORAGE_SIZE then Inl (RuntimeError ''invalid sockaddr size'')
      else Inr \<lparr>addr_size = ucast sz,
                addr_storage = memcpy_into (unat SOCKADDR_STORAGE_SIZE) addr (unat sz)\<rparr>)"

definition make_hints :: "u32 \<Rightarrow> u16 \<Rightarrow> addrinfo_hints" where
  "make_hints flags family = \<lparr>ai_flags = flags, ai_family = family\<rparr>"

definition Address_resolve :: "resolver \<Rightarrow> string \<Rightarrow> string \<Rightarrow> addrinfo_hints \<Rightarrow> exn + Address" where
  "Address_resolve res node service hints =
     (case getaddrinfo res node service hints of
        Inl gai_ret \<Rightarrow> Inl (RuntimeError (''getaddrinfo('' @ node @ '', '' @ service @ '')''))
      | Inr None \<Rightarrow> Inl (RuntimeError ''getaddrinfo returned successfully but with no results'')
      | Inr (Some (ai_addr, ai_addrlen)) \<Rightarrow> Address_of_sockaddr ai_addr ai_addrlen)"

definition Address_of_host :: "resolver \<Rightarrow> string \<Rightarrow> string \<Rightarrow> exn + Address" where
  "Address_of_host res hostname service = Address_resolve res hostname service (make_hints AI_ALL AF_INET)"

text \<open>
  \<open>std::to_string\<close> of an unsigned integer, and \<open>std::stoi\<close>: white space, an optional sign,
  then digits up to the first other character. Without a digit \<open>stoi\<close> throws
  \<open>std::invalid_argument\<close>, beyond the range of \<open>int\<close> it throws \<open>std::out_of_range\<close>.
\<close>

definition digit :: "nat \<Rightarrow> char" where
  "digit n = char_of (48 + n)"

fun to_string_nat :: "nat \<Rightarrow> string" where
  "to_string_nat n = (if n < 10 then [digit n] else to_string_nat (n div 10) @ [digit (n mod 10)])"

declare to_string_nat.simps [simp del]

definition is_digit :: "char \<Rightarrow> bool" where
  "is_digit c \<longleftrightarrow> 48 \<le> (of_char c :: nat) \<and> (of_char c :: nat) \<le> 57"

definition is_space :: "char \<Rightarrow> bool" where
  "is_space c \<longleftrightarrow> (of_char c :: nat) = 32 \<or> 9 \<le> (of_char c :: nat) \<and> (of_char c :: nat) \<le> 13"

definition digits_value :: "string \<Rightarrow> nat" where
  "digits_value s = foldl (\<lambda>n c. 10 * n + (of_char c - 48)) 0 s"

definition stoi :: "string \<Rightarrow> exn + int" where
  "stoi s =
     (let s = dropWhile is_space s;
          neg = (s \<noteq> [] \<and> hd s = CHR ''-'');
          s = (if s \<noteq> [] \<and> (hd s = CHR ''-'' \<or> hd s = CHR ''+'') then tl s else s);
          ds = takeWhile is_digit s;
          v = (if neg then - int (digits_value ds) else int (digits_value ds))
      in if ds = [] then Inl (RuntimeError ''stoi'')
         else if v < - (2 ^ 31) \<or> 2 ^ 31 \<le> v then Inl (OutOfRange ''stoi'') else Inr v)"

definition Address_of_ip :: "resolver \<Rightarrow> string \<Rightarrow> u16 \<Rightarrow> exn + Address" where
  "Address_of_ip res ip port =
     Address_resolve res ip (to_string_nat (unat port)) (make_hints (AI_NUMERICHOST OR AI_NUMERICSERV) AF_INET)"

definition Address_ip_port :: "resolver \<Rightarrow> Address \<Rightarrow> exn + string \<times> u16" where
  "Address_ip_port res a =
     (case getnameinfo res (addr_storage a) (addr_size a) of
        Inl gni_ret \<Rightarrow> Inl (RuntimeError ''getnameinfo'')
      | Inr (ip, port) \<Rightarrow> (case stoi port of Inl e \<Rightarrow> Inl e | Inr n \<Rightarrow> Inr (ip, of_int n)))"

definition Address_ip :: "resolver \<Rightarrow> Address \<Rightarrow> exn + string" where
  "Address_ip res a = map_sum id fst (Address_ip_port res a)"

definition Address_port :: "resolver \<Rightarrow> Address \<Rightarrow> exn + u16" where
  "Address_port res a = map_sum id snd (Address_ip_port res a)"

definition Address_to_string :: "resolver \<Rightarrow> Address \<Rightarrow> exn + string" where
  "Address_to_string res a =
     (case Address_ip_port res a of
        Inl e \<Rightarrow> Inl e
      | Inr (ip, port) \<Rightarrow> Inr (ip @ '':'' @ to_string_nat (unat port)))"

text \<open>A \<open>sockaddr_in\<close> as it lies in memory.\<close>

definition sockaddr_in :: "u16 \<Rightarrow> u32 \<Rightarrow> bytes" where
  "sockaddr_in port ip = rev (u16_bytes AF_INET) @ u16_bytes port @ u32_bytes ip @ replicate 8 0"

definition be_word :: "bytes \<Rightarrow> nat" where
  "be_word s = foldl (\<lambda>n b. 256 * n + unat b) 0 s"

definition Address_ipv4_numeric :: "Address \<Rightarrow> exn + u32" where
  "Address_ipv4_numeric a =
     (if take 2 (addr_storage a) \<noteq> rev (u16_bytes AF_INET) \<or> addr_size a \<noteq> SOCKADDR_IN_SIZE
      then Inl (RuntimeError ''ipv4_numeric called on non-IPV4 address'')
      else Inr (of_nat (be_word (take 4 (drop 4 (addr_storage a))))))"

definition Address_from_ipv4_numeric :: "u32 \<Rightarrow> Address" where
  "Address_from_ipv4_numeric ip_address =
     \<lparr>addr_size = SOCKADDR_IN_SIZE,
      addr_storage = memcpy_into (unat SOCKADDR_STORAGE_SIZE) (sockaddr_in 0 ip_address) (unat SOCKADDR_IN_SIZE)\<rparr>"

definition Address_eq :: "Address \<Rightarrow> Address \<Rightarrow> bool" where
  "Address_eq a b \<longleftrightarrow> addr_size a = addr_size b \<and>
     take (unat (addr_size a)) (addr_storage a) = take (unat (addr_size b)) (addr_storage b)"

section \<open>Numbers as strings\<close>

lemma of_char_digit: "n < 10 \<Longrightarrow> (of_char (digit n) :: nat) = 48 + n"
  by (simp add: digit_def)

lemma is_digit_digit: "n < 10 \<Longrightarrow> is_digit (digit n)"
  by (simp add: is_digit_def of_char_digit)

lemma to_string_nat_digits: "\<forall>c \<in> set (to_string_nat n). is_digit c"
  by (induction n rule: to_string_nat.induct) (subst to_string_nat.simps, auto simp: is_digit_digit)

lemma to_string_nat_nonempty: "to_string_nat n \<noteq> []"
  by (subst to_string_nat.simps) simp

lemma digits_value_snoc: "digits_value (s @ [c]) = 10 * digits_value s + (of_char c - 48)"
  by (simp add: digits_value_def)

lemma digits_value_to_string: "digits_value (to_string_nat n) = n"
proof (induction n rule: to_string_nat.induct)
  case (1 n)
  show ?case
  proof (cases "n < 10")
    case True
    then show ?thesis by (simp add: to_string_nat.simps [of n] digits_value_def of_char_digit)
  next
    case False
    with 1 show ?thesis by (simp add: to_string_nat.simps [of n] digits_value_snoc of_char_digit)
  qed
qed

lemma digit_head:
  assumes "s \<noteq> []" and "\<forall>c \<in> set s. is_digit c"
  shows "\<not> is_space (hd s)" and "hd s \<noteq> CHR ''-''" and "hd s \<noteq> CHR ''+''"
proof -
  have "is_digit (hd s)" using assms by simp
  then show "\<not> is_space (hd s)" "hd s \<noteq> CHR ''-''" "hd s \<noteq> CHR ''+''"
    by (auto simp: is_digit_def is_space_def)
qed

lemma stoi_to_string:
  assumes "n < 2 ^ 31"
  shows "stoi (to_string_nat n) = Inr (int n)"
proof -
  note d = to_string_nat_digits [of n] and ne = to_string_nat_nonempty [of n]
  note h = digit_head [OF ne d]
  have "dropWhile is_space (to_string_nat n) = to_string_nat n"
    using h(1) by (cases "to_string_nat n") auto
  moreover have "takeWhile is_digit (to_string_nat n) = to_string_nat n" using d by (simp only: takeWhile_eq_all_conv)
  ultimately show ?thesis unfolding stoi_def Let_def using h(2,3) ne assms
    by (simp only: simp_thms if_False digits_value_to_string) simp
qed

section \<open>IPv4 addresses\<close>

lemma length_sockaddr_in [simp]: "length (sockaddr_in port ip) = 16"
  by (simp add: sockaddr_in_def)

lemma be_word_u32: "be_word (u32_bytes v) = unat v"
proof -
  have "unat v div 2 ^ 16 = 256 * (unat v div 2 ^ 24) + unat v div 2 ^ 16 mod 256"
    using div_mult2_eq [of "unat v" "2 ^ 16" 256] by simp
  moreover have "unat v div 2 ^ 8 = 256 * (unat v div 2 ^ 16) + unat v div 2 ^ 8 mod 256"
    using div_mult2_eq [of "unat v" "2 ^ 8" 256] by simp
  moreover have "unat v = 256 * (unat v div 2 ^ 8) + unat v mod 256" by simp
  ultimately have "unat v = 256 * (256 * (256 * (unat v div 2 ^ 24) + unat v div 2 ^ 16 mod 256) +
      unat v div 2 ^ 8 mod 256) + unat v mod 256"
    by presburger
  moreover have "unat v div 2 ^ 24 < 256" using unat_lt32 [of v] by (intro less_mult_imp_div_less) simp
  ultimately show ?thesis by (simp add: be_word_def u32_bytes_def low_byte unat_drop_bit)
qed

text \<open>The address of a port on a host, as the numeric constructor and the kernel build it.\<close>

definition ipv4_address :: "u32 \<Rightarrow> u16 \<Rightarrow> Address" where
  "ipv4_address ip port =
     \<lparr>addr_size = SOCKADDR_IN_SIZE,
      addr_storage = memcpy_into (unat SOCKADDR_STORAGE_SIZE) (sockaddr_in port ip) (unat SOCKADDR_IN_SIZE)\<rparr>"

lemma Address_of_sockaddr_in: "Address_of_sockaddr (sockaddr_in port ip) 16 = Inr (ipv4_address ip port)"
  by (simp add: Address_of_sockaddr_def ipv4_address_def SOCKADDR_IN_SIZE_def SOCKADDR_STORAGE_SIZE_def)

lemma Address_from_ipv4_numeric_eq: "Address_from_ipv4_numeric ip = ipv4_address ip 0"
  by (simp add: Address_from_ipv4_numeric_def ipv4_address_def)

lemma ipv4_numeric_address [simp]: "Address_ipv4_numeric (ipv4_address ip port) = Inr ip"
proof -
  have l: "length (u16_bytes AF_INET) = 2" "length (u16_bytes port) = 2" "length (u32_bytes ip) = 4" by simp_all
  have t: "take 16 (sockaddr_in port ip) = sockaddr_in port ip" by simp
  have "take 2 (sockaddr_in port ip @ r) = rev (u16_bytes AF_INET)"
    "take 4 (drop 4 (sockaddr_in port ip @ r)) = u32_bytes ip" for r
    using l by (simp_all add: sockaddr_in_def)
  then show ?thesis
    by (simp add: Address_ipv4_numeric_def ipv4_address_def memcpy_into_def SOCKADDR_IN_SIZE_def t be_word_u32)
qed

lemma from_ipv4_numeric [simp]: "Address_ipv4_numeric (Address_from_ipv4_numeric ip) = Inr ip"
  by (simp add: Address_from_ipv4_numeric_eq)

lemma be_word_u16: "be_word (u16_bytes v) = unat v"
proof -
  have "unat v div 256 < 256" using unat_lt16 [of v] by (intro less_mult_imp_div_less) simp
  then have "unat v div 2 ^ 8 mod 256 = unat v div 256" by (simp add: mod_less)
  then show ?thesis by (simp add: be_word_def u16_bytes_def low_byte unat_drop_bit)
qed

lemma Address_eq_ipv4 [simp]: "Address_eq (ipv4_address ip port) (ipv4_address ip' port') \<longleftrightarrow> ip = ip' \<and> port = port'"
proof
  assume "Address_eq (ipv4_address ip port) (ipv4_address ip' port')"
  then have "sockaddr_in port ip = sockaddr_in port' ip'"
    by (simp add: Address_eq_def ipv4_address_def memcpy_into_def SOCKADDR_IN_SIZE_def)
  then have "u16_bytes port = u16_bytes port'" "u32_bytes ip = u32_bytes ip'"
    by (simp_all add: sockaddr_in_def)
  then have "unat port = unat port'" "unat ip = unat ip'"
    by (metis be_word_u16) (metis be_word_u32 \<open>u32_bytes ip = u32_bytes ip'\<close>)
  then show "ip = ip' \<and> port = port'" by (simp add: unsigned_word_eqI)
qed (simp add: Address_eq_def)

text \<open>
  What the code relies on of the resolver: the numeric form of an IPv4 address is
  resolved to that address, and is what \<open>getnameinfo\<close> returns. \<open>inet_ntoa\<close> writes the
  numeric form.
\<close>

definition resolver_numeric :: "resolver \<Rightarrow> (u32 \<Rightarrow> string) \<Rightarrow> bool" where
  "resolver_numeric res inet_ntoa \<longleftrightarrow>
     (\<forall>ip port. getaddrinfo res (inet_ntoa ip) (to_string_nat (unat port))
          (make_hints (AI_NUMERICHOST OR AI_NUMERICSERV) AF_INET) = Inr (Some (sockaddr_in port ip, 16)) \<and>
        getnameinfo res (addr_storage (ipv4_address ip port)) SOCKADDR_IN_SIZE =
          Inr (inet_ntoa ip, to_string_nat (unat port)))"

lemma Address_of_ip_numeric:
  "resolver_numeric res ntoa \<Longrightarrow> Address_of_ip res (ntoa ip) port = Inr (ipv4_address ip port)"
  by (simp add: resolver_numeric_def Address_of_ip_def Address_resolve_def Address_of_sockaddr_in)

lemma Address_ip_port_numeric:
  assumes "resolver_numeric res ntoa"
  shows "Address_ip_port res (ipv4_address ip port) = Inr (ntoa ip, port)"
proof -
  have "unat port < 2 ^ 31" using unat_lt16 [of port] by (rule less_trans) simp
  moreover have "addr_size (ipv4_address ip port) = SOCKADDR_IN_SIZE" by (simp add: ipv4_address_def)
  ultimately show ?thesis using assms
    by (simp add: resolver_numeric_def Address_ip_port_def stoi_to_string)
qed

lemma Address_accessors_numeric:
  assumes "resolver_numeric res ntoa"
  shows "Address_port res (ipv4_address ip port) = Inr port" and "Address_ip res (ipv4_address ip port) = Inr (ntoa ip)"
    and "Address_to_string res (ipv4_address ip port) = Inr (ntoa ip @ '':'' @ to_string_nat (unat port))"
  using Address_ip_port_numeric [OF assms]
  by (simp_all add: Address_port_def Address_ip_def Address_to_string_def)

text \<open>A resolver that does so, with the address written as one number.\<close>

definition plain_ntoa :: "u32 \<Rightarrow> string" where
  "plain_ntoa ip = to_string_nat (unat ip)"

definition plain_resolver :: resolver where
  "plain_resolver =
     \<lparr>getaddrinfo = (\<lambda>node service hints.
        Inr (Some (sockaddr_in (of_nat (digits_value service)) (of_nat (digits_value node)), 16))),
      getnameinfo = (\<lambda>storage size.
        Inr (to_string_nat (be_word (take 4 (drop 4 storage))), to_string_nat (be_word (take 2 (drop 2 storage)))))\<rparr>"

lemma plain_resolver_numeric: "resolver_numeric plain_resolver plain_ntoa"
proof -
  have "take 4 (drop 4 (sockaddr_in port ip @ r)) = u32_bytes ip"
    "take 2 (drop 2 (sockaddr_in port ip @ r)) = u16_bytes port" for port ip r
    by (simp_all add: sockaddr_in_def)
  then show ?thesis
    by (simp add: resolver_numeric_def plain_resolver_def plain_ntoa_def digits_value_to_string ipv4_address_def
        memcpy_into_def SOCKADDR_IN_SIZE_def be_word_u32 be_word_u16)
qed

end
