(* ===== verification/Network_Interface.thy ===== *)
theory Network_Interface
  imports Ethernet_ARP Sponge_Address "HOL-Library.Multiset"
begin

text \<open>
  The network interface of \<open>libsponge/network_interface.hh\<close> and
  \<open>libsponge/network_interface.cc\<close>: it puts IPv4 datagrams into Ethernet frames and learns
  the Ethernet addresses of the next hops by ARP. The two hash tables are maps; a call that
  throws yields the exception. The constructor's debug output is left out.
\<close>

section \<open>The class\<close>

record NetworkInterface =
  ni_ethernet_address :: EthernetAddress
  ni_ip_address :: Address
  ni_frames_out :: "EthernetFrame list"
  ni_mapping :: "u32 \<rightharpoonup> EthernetAddress \<times> u64"
  ni_pending_list :: "(IPv4Datagram \<times> Address) list"
  ni_current_time :: u64
  ni_blocking_mapping :: "u32 \<rightharpoonup> u64"

definition ARP_VALID_TIME :: u64 where
  "ARP_VALID_TIME = 30 * 1000"

definition ARP_REQ_BLOCKING_TIME :: u64 where
  "ARP_REQ_BLOCKING_TIME = 5 * 1000"

definition NetworkInterface_new :: "EthernetAddress \<Rightarrow> Address \<Rightarrow> NetworkInterface" where
  "NetworkInterface_new ethernet_address ip_address =
     \<lparr>ni_ethernet_address = ethernet_address, ni_ip_address = ip_address, ni_frames_out = [],
      ni_mapping = Map.empty, ni_pending_list = [], ni_current_time = 0, ni_blocking_mapping = Map.empty\<rparr>"

definition push_frame :: "NetworkInterface \<Rightarrow> EthernetFrame \<Rightarrow> NetworkInterface" where
  "push_frame n frame = n\<lparr>ni_frames_out := ni_frames_out n @ [frame]\<rparr>"

text \<open>The ARP request and the reply, with the frames around them.\<close>

definition arp_request_frame :: "EthernetAddress \<Rightarrow> u32 \<Rightarrow> u32 \<Rightarrow> exn + EthernetFrame" where
  "arp_request_frame ethernet_address own_ip next_hop_ip =
     (let arp_msg = ARPMessage_default
            \<lparr>arp_opcode := ARPMessage_OPCODE_REQUEST, arp_sender_ip_address := own_ip,
             arp_sender_ethernet_address := ethernet_address, arp_target_ip_address := next_hop_ip,
             arp_target_ethernet_address := replicate 6 0\<rparr>;
          hdr = \<lparr>eh_dst = ETHERNET_BROADCAST, eh_src = ethernet_address, eh_type = EthernetHeader_TYPE_ARP\<rparr>
      in exn_bind (ARPMessage_serialize arp_msg) (\<lambda>payload.
           Inr \<lparr>ef_header = hdr, ef_payload = BufferList_of_string payload\<rparr>))"

definition arp_reply_frame :: "EthernetAddress \<Rightarrow> u32 \<Rightarrow> ARPMessage \<Rightarrow> exn + EthernetFrame" where
  "arp_reply_frame ethernet_address own_ip msg =
     (let reply_msg = ARPMessage_default
            \<lparr>arp_opcode := ARPMessage_OPCODE_REPLY, arp_sender_ethernet_address := ethernet_address,
             arp_sender_ip_address := own_ip,
             arp_target_ethernet_address := arp_sender_ethernet_address msg,
             arp_target_ip_address := arp_sender_ip_address msg\<rparr>;
          reply_hdr = \<lparr>eh_dst = arp_sender_ethernet_address msg, eh_src = ethernet_address,
                       eh_type = EthernetHeader_TYPE_ARP\<rparr>
      in exn_bind (ARPMessage_serialize reply_msg) (\<lambda>payload.
           Inr \<lparr>ef_header = reply_hdr, ef_payload = BufferList_of_string payload\<rparr>))"

definition NetworkInterface_send_datagram ::
  "NetworkInterface \<Rightarrow> IPv4Datagram \<Rightarrow> Address \<Rightarrow> exn + NetworkInterface" where
  "NetworkInterface_send_datagram n dgram next_hop =
     exn_bind (Address_ipv4_numeric next_hop) (\<lambda>next_hop_ip.
       case ni_mapping n next_hop_ip of
         None \<Rightarrow>
           let n = n\<lparr>ni_pending_list := ni_pending_list n @ [(dgram, next_hop)]\<rparr>
           in if ni_blocking_mapping n next_hop_ip \<noteq> None then Inr n
              else
                let n = n\<lparr>ni_blocking_mapping := (ni_blocking_mapping n)(next_hop_ip \<mapsto> ni_current_time n)\<rparr>
                in exn_bind (Address_ipv4_numeric (ni_ip_address n)) (\<lambda>own_ip.
                   exn_bind (arp_request_frame (ni_ethernet_address n) own_ip next_hop_ip) (\<lambda>frame.
                     Inr (push_frame n frame)))
       | Some (mac, _) \<Rightarrow>
           let hdr = \<lparr>eh_dst = mac, eh_src = ni_ethernet_address n, eh_type = EthernetHeader_TYPE_IPv4\<rparr>
           in exn_bind (IPv4Datagram_serialize dgram) (\<lambda>payload.
                Inr (push_frame n \<lparr>ef_header = hdr, ef_payload = payload\<rparr>)))"

text \<open>The loop that takes the datagrams for one next hop out of the pending list.\<close>

fun take_pending :: "u32 \<Rightarrow> (IPv4Datagram \<times> Address) list \<Rightarrow>
    exn + (IPv4Datagram \<times> Address) list \<times> (IPv4Datagram \<times> Address) list" where
  "take_pending ip [] = Inr ([], [])"
| "take_pending ip (e # pending) =
     exn_bind (Address_ipv4_numeric (snd e)) (\<lambda>hop.
     exn_bind (take_pending ip pending) (\<lambda>(tmp_list, rest).
       Inr (if hop = ip then (e # tmp_list, rest) else (tmp_list, e # rest))))"

fun send_pending_list :: "NetworkInterface \<Rightarrow> (IPv4Datagram \<times> Address) list \<Rightarrow> exn + NetworkInterface" where
  "send_pending_list n [] = Inr n"
| "send_pending_list n (e # tmp_list) =
     exn_bind (NetworkInterface_send_datagram n (fst e) (snd e)) (\<lambda>n. send_pending_list n tmp_list)"

text \<open>\<open>unordered_map::insert\<close> leaves an existing entry alone.\<close>

definition learn_mapping :: "NetworkInterface \<Rightarrow> ARPMessage \<Rightarrow> NetworkInterface" where
  "learn_mapping n msg =
     (if ni_mapping n (arp_sender_ip_address msg) = None
      then n\<lparr>ni_mapping := (ni_mapping n)
               (arp_sender_ip_address msg \<mapsto> (arp_sender_ethernet_address msg, ni_current_time n))\<rparr>
      else n)"

definition recv_arp :: "NetworkInterface \<Rightarrow> ARPMessage \<Rightarrow> exn + NetworkInterface" where
  "recv_arp n msg =
     (let n = learn_mapping n msg
      in if arp_opcode msg = ARPMessage_OPCODE_REPLY then
           exn_bind (take_pending (arp_sender_ip_address msg) (ni_pending_list n)) (\<lambda>(tmp_list, rest).
             send_pending_list (n\<lparr>ni_pending_list := rest\<rparr>) tmp_list)
         else if arp_opcode msg = ARPMessage_OPCODE_REQUEST then
           exn_bind (Address_ipv4_numeric (ni_ip_address n)) (\<lambda>own_ip.
             if arp_target_ip_address msg \<noteq> own_ip then Inr n
             else
               exn_bind (arp_reply_frame (ni_ethernet_address n) own_ip msg) (\<lambda>reply_frame.
                 Inr (push_frame n reply_frame)))
         else Inr n)"

definition NetworkInterface_recv_frame ::
  "NetworkInterface \<Rightarrow> EthernetFrame \<Rightarrow> exn + NetworkInterface \<times> IPv4Datagram option" where
  "NetworkInterface_recv_frame n frame =
     (if eh_dst (ef_header frame) \<noteq> ni_ethernet_address n \<and> eh_dst (ef_header frame) \<noteq> ETHERNET_BROADCAST
      then Inr (n, None)
      else if eh_type (ef_header frame) = EthernetHeader_TYPE_ARP then
        exn_bind (BufferList_to_Buffer (ef_payload frame)) (\<lambda>payload.
          let (res, msg) = ARPMessage_parse ARPMessage_default payload
          in if res \<noteq> NoError then Inr (n, None)
             else exn_bind (recv_arp n msg) (\<lambda>n. Inr (n, None)))
      else if eh_type (ef_header frame) = EthernetHeader_TYPE_IPv4 then
        exn_bind (BufferList_to_Buffer (ef_payload frame)) (\<lambda>payload.
          let (res, datagram) = IPv4Datagram_parse IPv4Datagram_default payload
          in Inr (n, if res = NoError then Some datagram else None))
      else Inr (n, None))"

definition NetworkInterface_tick :: "NetworkInterface \<Rightarrow> u64 \<Rightarrow> NetworkInterface" where
  "NetworkInterface_tick n ms_since_last_tick =
     (let now = ni_current_time n + ms_since_last_tick
      in n\<lparr>ni_current_time := now,
           ni_mapping := (\<lambda>ip. case ni_mapping n ip of
               None \<Rightarrow> None
             | Some (mac, t) \<Rightarrow> if t + ARP_VALID_TIME \<le> now then None else Some (mac, t)),
           ni_blocking_mapping := (\<lambda>ip. case ni_blocking_mapping n ip of
               None \<Rightarrow> None
             | Some t \<Rightarrow> if t + ARP_REQ_BLOCKING_TIME \<le> now then None else Some t)\<rparr>)"

section \<open>What one call does\<close>

definition ipv4_frame :: "EthernetAddress \<Rightarrow> EthernetAddress \<Rightarrow> BufferList \<Rightarrow> EthernetFrame" where
  "ipv4_frame src dst payload =
     \<lparr>ef_header = \<lparr>eh_dst = dst, eh_src = src, eh_type = EthernetHeader_TYPE_IPv4\<rparr>, ef_payload = payload\<rparr>"

abbreviation is_ipv4 :: "EthernetFrame \<Rightarrow> bool" where
  "is_ipv4 f \<equiv> eh_type (ef_header f) = EthernetHeader_TYPE_IPv4"

abbreviation is_arp :: "EthernetFrame \<Rightarrow> bool" where
  "is_arp f \<equiv> eh_type (ef_header f) = EthernetHeader_TYPE_ARP"

abbreviation to_hop :: "u32 \<Rightarrow> IPv4Datagram \<times> Address \<Rightarrow> bool" where
  "to_hop ip e \<equiv> Address_ipv4_numeric (snd e) = Inr ip"

lemma ipv4_not_arp [simp]: "EthernetHeader_TYPE_IPv4 \<noteq> EthernetHeader_TYPE_ARP"
  "EthernetHeader_TYPE_ARP \<noteq> EthernetHeader_TYPE_IPv4"
  by (simp_all add: EthernetHeader_TYPE_IPv4_def EthernetHeader_TYPE_ARP_def)

lemma ipv4_frame_is [simp]: "is_ipv4 (ipv4_frame a b c)" "\<not> is_arp (ipv4_frame a b c)"
  by (simp_all add: ipv4_frame_def)

lemma push_frame_simps [simp]:
  "ni_ethernet_address (push_frame n f) = ni_ethernet_address n" "ni_mapping (push_frame n f) = ni_mapping n"
  "ni_pending_list (push_frame n f) = ni_pending_list n" "ni_current_time (push_frame n f) = ni_current_time n"
  "ni_blocking_mapping (push_frame n f) = ni_blocking_mapping n" "ni_ip_address (push_frame n f) = ni_ip_address n"
  "ni_frames_out (push_frame n f) = ni_frames_out n @ [f]"
  by (simp_all add: push_frame_def)

text \<open>The requests and replies are always supported ARP messages.\<close>

lemma arp_request_frame_Inr:
  "\<exists>f. arp_request_frame a i j = Inr f \<and> is_arp f \<and> eh_dst (ef_header f) = ETHERNET_BROADCAST"
  by (simp add: arp_request_frame_def Let_def ARPMessage_serialize_eq ARPMessage_supported_def ARPMessage_default_def)

lemma arp_reply_frame_Inr:
  "\<exists>f. arp_reply_frame a i m = Inr f \<and> is_arp f \<and> eh_dst (ef_header f) = arp_sender_ethernet_address m"
  by (simp add: arp_reply_frame_def Let_def ARPMessage_serialize_eq ARPMessage_supported_def ARPMessage_default_def)

lemma send_mapped:
  assumes "Address_ipv4_numeric h = Inr ip" and "ni_mapping n ip = Some (mac, t)"
  shows "NetworkInterface_send_datagram n d h =
    exn_bind (IPv4Datagram_serialize d) (\<lambda>bl. Inr (push_frame n (ipv4_frame (ni_ethernet_address n) mac bl)))"
  using assms by (simp add: NetworkInterface_send_datagram_def ipv4_frame_def)

lemma send_blocked:
  assumes "Address_ipv4_numeric h = Inr ip" and "ni_mapping n ip = None" and "ni_blocking_mapping n ip \<noteq> None"
  shows "NetworkInterface_send_datagram n d h = Inr (n\<lparr>ni_pending_list := ni_pending_list n @ [(d, h)]\<rparr>)"
  using assms by (simp add: NetworkInterface_send_datagram_def)

lemma send_asks:
  assumes "Address_ipv4_numeric h = Inr ip" and "ni_mapping n ip = None" and "ni_blocking_mapping n ip = None"
    and "Address_ipv4_numeric (ni_ip_address n) = Inr own"
    and "arp_request_frame (ni_ethernet_address n) own ip = Inr f"
  shows "NetworkInterface_send_datagram n d h =
    Inr (push_frame (n\<lparr>ni_pending_list := ni_pending_list n @ [(d, h)],
      ni_blocking_mapping := (ni_blocking_mapping n)(ip \<mapsto> ni_current_time n)\<rparr>) f)"
  using assms by (simp add: NetworkInterface_send_datagram_def)

lemma send_cases:
  assumes "NetworkInterface_send_datagram n d h = Inr n'"
  obtains (mapped) ip mac t bl where "Address_ipv4_numeric h = Inr ip" "ni_mapping n ip = Some (mac, t)"
      "IPv4Datagram_serialize d = Inr bl" "n' = push_frame n (ipv4_frame (ni_ethernet_address n) mac bl)"
  | (blocked) ip where "Address_ipv4_numeric h = Inr ip" "ni_mapping n ip = None" "ni_blocking_mapping n ip \<noteq> None"
      "n' = n\<lparr>ni_pending_list := ni_pending_list n @ [(d, h)]\<rparr>"
  | (asks) ip f where "Address_ipv4_numeric h = Inr ip" "ni_mapping n ip = None" "ni_blocking_mapping n ip = None"
      "is_arp f" "n' = push_frame (n\<lparr>ni_pending_list := ni_pending_list n @ [(d, h)],
         ni_blocking_mapping := (ni_blocking_mapping n)(ip \<mapsto> ni_current_time n)\<rparr>) f"
proof -
  obtain ip where ip: "Address_ipv4_numeric h = Inr ip"
    using assms by (auto simp: NetworkInterface_send_datagram_def exn_bind_Inr)
  show thesis
  proof (cases "ni_mapping n ip")
    case (Some p)
    then obtain mac t where m: "ni_mapping n ip = Some (mac, t)" by (cases p) auto
    with assms ip show thesis by (auto simp: send_mapped [OF ip m] exn_bind_Inr intro: mapped)
  next
    case None
    note no = this
    show thesis
    proof (cases "ni_blocking_mapping n ip = None")
      case False
      with assms ip no show thesis by (auto simp: send_blocked [OF ip no False] intro: blocked)
    next
      case True
      obtain own where own: "Address_ipv4_numeric (ni_ip_address n) = Inr own"
        using assms ip no True by (auto simp: NetworkInterface_send_datagram_def exn_bind_Inr)
      obtain f where f: "arp_request_frame (ni_ethernet_address n) own ip = Inr f" "is_arp f"
        using arp_request_frame_Inr by blast
      with assms show thesis by (auto simp: send_asks [OF ip no True own f(1)] intro: asks [OF ip no True])
    qed
  qed
qed

lemma take_pending_Inr:
  "take_pending ip P = Inr (tmp, rest) \<Longrightarrow>
     tmp = filter (to_hop ip) P \<and> rest = filter (\<lambda>e. \<not> to_hop ip e) P \<and> (\<forall>e \<in> set P. \<exists>i. to_hop i e)"
  by (induction P arbitrary: tmp rest) (auto simp: exn_bind_Inr split: prod.splits if_splits)

lemma take_pending_ok:
  "\<forall>e \<in> set P. \<exists>i. to_hop i e \<Longrightarrow>
     take_pending ip P = Inr (filter (to_hop ip) P, filter (\<lambda>e. \<not> to_hop ip e) P)"
  by (induction P) auto

lemma send_pending_Inr:
  assumes "ni_mapping n ip = Some (mac, t)" and "\<forall>e \<in> set tmp. to_hop ip e" and "send_pending_list n tmp = Inr n'"
  shows "\<exists>bls. map (\<lambda>e. IPv4Datagram_serialize (fst e)) tmp = map Inr bls \<and>
    n' = n\<lparr>ni_frames_out := ni_frames_out n @ map (ipv4_frame (ni_ethernet_address n) mac) bls\<rparr>"
  using assms
proof (induction tmp arbitrary: n)
  case (Cons e tmp)
  from Cons.prems have ip: "Address_ipv4_numeric (snd e) = Inr ip" by simp
  from Cons.prems(3) obtain bl where bl: "IPv4Datagram_serialize (fst e) = Inr bl"
    "send_pending_list (push_frame n (ipv4_frame (ni_ethernet_address n) mac bl)) tmp = Inr n'"
    by (auto simp: send_mapped [OF ip Cons.prems(1)] exn_bind_Inr)
  from Cons.IH [OF _ _ bl(2)] Cons.prems obtain bls where
    bls: "map (\<lambda>e. IPv4Datagram_serialize (fst e)) tmp = map Inr bls"
    "n' = (push_frame n (ipv4_frame (ni_ethernet_address n) mac bl))\<lparr>ni_frames_out :=
       ni_frames_out n @ ipv4_frame (ni_ethernet_address n) mac bl # map (ipv4_frame (ni_ethernet_address n) mac) bls\<rparr>"
    by auto
  then show ?case using bl(1) by (intro exI [of _ "bl # bls"]) (simp add: push_frame_def)
qed simp

lemma send_pending_ok:
  assumes "ni_mapping n ip = Some (mac, t)" and "\<forall>e \<in> set tmp. to_hop ip e"
    and "map (\<lambda>e. IPv4Datagram_serialize (fst e)) tmp = map Inr bls"
  shows "send_pending_list n tmp =
    Inr (n\<lparr>ni_frames_out := ni_frames_out n @ map (ipv4_frame (ni_ethernet_address n) mac) bls\<rparr>)"
  using assms
proof (induction tmp arbitrary: n bls)
  case (Cons e tmp)
  then obtain bl bls' where b: "bls = bl # bls'" "IPv4Datagram_serialize (fst e) = Inr bl"
    "map (\<lambda>e. IPv4Datagram_serialize (fst e)) tmp = map Inr bls'"
    by (cases bls) auto
  from Cons.prems have ip: "Address_ipv4_numeric (snd e) = Inr ip" by simp
  have "send_pending_list (push_frame n (ipv4_frame (ni_ethernet_address n) mac bl)) tmp =
      Inr ((push_frame n (ipv4_frame (ni_ethernet_address n) mac bl))\<lparr>ni_frames_out :=
       ni_frames_out n @ ipv4_frame (ni_ethernet_address n) mac bl # map (ipv4_frame (ni_ethernet_address n) mac) bls'\<rparr>)"
    using Cons.IH [OF _ _ b(3), of "push_frame n (ipv4_frame (ni_ethernet_address n) mac bl)"] Cons.prems by simp
  then show ?case using b by (simp add: send_mapped [OF ip Cons.prems(1)] push_frame_def)
qed simp

text \<open>The ARP message that a frame brings to the interface, if any.\<close>

definition arp_heard :: "NetworkInterface \<Rightarrow> EthernetFrame \<Rightarrow> ARPMessage option" where
  "arp_heard n f =
     (if (eh_dst (ef_header f) = ni_ethernet_address n \<or> eh_dst (ef_header f) = ETHERNET_BROADCAST) \<and> is_arp f
      then case BufferList_to_Buffer (ef_payload f) of
             Inl _ \<Rightarrow> None
           | Inr b \<Rightarrow> (case ARPMessage_parse ARPMessage_default b of
               (NoError, msg) \<Rightarrow> Some msg | _ \<Rightarrow> None)
      else None)"

lemma arp_heard_Some:
  assumes "arp_heard n f = Some msg"
  shows "NetworkInterface_recv_frame n f = exn_bind (recv_arp n msg) (\<lambda>n. Inr (n, None))"
proof -
  obtain b where b: "BufferList_to_Buffer (ef_payload f) = Inr b" "ARPMessage_parse ARPMessage_default b = (NoError, msg)"
    "is_arp f" "eh_dst (ef_header f) = ni_ethernet_address n \<or> eh_dst (ef_header f) = ETHERNET_BROADCAST"
    using assms by (auto simp: arp_heard_def split: if_splits sum.splits prod.splits ParseResult.splits)
  then show ?thesis by (auto simp: NetworkInterface_recv_frame_def)
qed

lemma arp_heard_None:
  assumes "arp_heard n f = None" and "NetworkInterface_recv_frame n f = Inr (n', r)"
  shows "n' = n"
proof (cases "is_arp f")
  case True
  with assms show ?thesis
    by (auto simp: arp_heard_def NetworkInterface_recv_frame_def exn_bind_Inr
        split: if_splits sum.splits prod.splits ParseResult.splits)
next
  case False
  with assms(2) show ?thesis
    by (auto simp: NetworkInterface_recv_frame_def exn_bind_Inr split_def Let_def split: if_splits)
qed

lemma learn_mapping_simps [simp]:
  "ni_ethernet_address (learn_mapping n m) = ni_ethernet_address n"
  "ni_pending_list (learn_mapping n m) = ni_pending_list n" "ni_current_time (learn_mapping n m) = ni_current_time n"
  "ni_blocking_mapping (learn_mapping n m) = ni_blocking_mapping n" "ni_ip_address (learn_mapping n m) = ni_ip_address n"
  "ni_frames_out (learn_mapping n m) = ni_frames_out n"
  by (simp_all add: learn_mapping_def)

lemma learn_keeps_old: "ni_mapping n (arp_sender_ip_address m) = Some e \<Longrightarrow> learn_mapping n m = n"
  by (simp add: learn_mapping_def)

lemma learn_mapping_knows: "\<exists>mac t. ni_mapping (learn_mapping n m) (arp_sender_ip_address m) = Some (mac, t)"
  by (cases "ni_mapping n (arp_sender_ip_address m)") (auto simp: learn_mapping_def)

lemma recv_arp_cases:
  assumes "recv_arp n msg = Inr n'"
  obtains (reply) mac t bls where "arp_opcode msg = ARPMessage_OPCODE_REPLY"
      "ni_mapping (learn_mapping n msg) (arp_sender_ip_address msg) = Some (mac, t)"
      "map (\<lambda>e. IPv4Datagram_serialize (fst e)) (filter (to_hop (arp_sender_ip_address msg)) (ni_pending_list n)) = map Inr bls"
      "n' = (learn_mapping n msg)\<lparr>ni_pending_list := filter (\<lambda>e. \<not> to_hop (arp_sender_ip_address msg) e) (ni_pending_list n),
         ni_frames_out := ni_frames_out n @ map (ipv4_frame (ni_ethernet_address n) mac) bls\<rparr>"
  | (answer) f where "is_arp f" "n' = push_frame (learn_mapping n msg) f"
  | (ignore) "n' = learn_mapping n msg"
proof (cases "arp_opcode msg = ARPMessage_OPCODE_REPLY")
  case True
  let ?ip = "arp_sender_ip_address msg" let ?n = "learn_mapping n msg"
  obtain mac t where m: "ni_mapping ?n ?ip = Some (mac, t)" using learn_mapping_knows by blast
  have "exn_bind (take_pending ?ip (ni_pending_list n)) (\<lambda>(tmp, rest).
      send_pending_list (?n\<lparr>ni_pending_list := rest\<rparr>) tmp) = Inr n'"
    using assms True by (simp add: recv_arp_def Let_def)
  then obtain tmp rest where tp: "take_pending ?ip (ni_pending_list n) = Inr (tmp, rest)"
    "send_pending_list (?n\<lparr>ni_pending_list := rest\<rparr>) tmp = Inr n'"
    unfolding exn_bind_Inr by auto
  note f = take_pending_Inr [OF tp(1)]
  have "ni_mapping (?n\<lparr>ni_pending_list := rest\<rparr>) ?ip = Some (mac, t)" "\<forall>e \<in> set tmp. to_hop ?ip e"
    using m f by simp_all
  from send_pending_Inr [OF this tp(2)] obtain bls where
    "map (\<lambda>e. IPv4Datagram_serialize (fst e)) tmp = map Inr bls"
    "n' = ?n\<lparr>ni_pending_list := rest, ni_frames_out := ni_frames_out n @ map (ipv4_frame (ni_ethernet_address n) mac) bls\<rparr>"
    by (elim exE conjE) simp
  with f show thesis by (intro reply [OF True m, of bls]) simp_all
next
  case False
  then have "n' = learn_mapping n msg \<or> (\<exists>own f. arp_reply_frame (ni_ethernet_address n) own msg = Inr f \<and>
      n' = push_frame (learn_mapping n msg) f)"
    using assms by (auto simp: recv_arp_def exn_bind_Inr Let_def split: if_splits)
  then show thesis using arp_reply_frame_Inr answer ignore by (metis sum.inject(2))
qed

section \<open>Reachable states\<close>

text \<open>
  The states an owner can reach, with a record of the past: the datagrams given to
  \<open>send_datagram\<close> with their next hops, the pairs of addresses heard in ARP messages, all
  frames ever queued, and the ARP requests with the time they were made. The clock is
  assumed not to run over.
\<close>

record ni_history =
  ni_given :: "(IPv4Datagram \<times> Address) list"
  ni_heard :: "(u32 \<times> EthernetAddress) set"
  ni_frames :: "EthernetFrame list"
  ni_requests :: "(u32 \<times> nat) list"

abbreviation asked :: "NetworkInterface \<Rightarrow> Address \<Rightarrow> EthernetFrame list \<Rightarrow> (u32 \<times> nat) list" where
  "asked n h fs \<equiv> map (\<lambda>f. (projr (Address_ipv4_numeric h), unat (ni_current_time n))) (filter is_arp fs)"

inductive ni_reach :: "EthernetAddress \<Rightarrow> Address \<Rightarrow> ni_history \<Rightarrow> NetworkInterface \<Rightarrow> bool" for mac ip where
  ni_new: "ni_reach mac ip \<lparr>ni_given = [], ni_heard = {}, ni_frames = [], ni_requests = []\<rparr> (NetworkInterface_new mac ip)"
| ni_send: "ni_reach mac ip H n \<Longrightarrow> NetworkInterface_send_datagram n d h = Inr n' \<Longrightarrow>
    ni_frames_out n' = ni_frames_out n @ fs \<Longrightarrow>
    ni_reach mac ip (H\<lparr>ni_given := ni_given H @ [(d, h)], ni_frames := ni_frames H @ fs,
      ni_requests := ni_requests H @ asked n h fs\<rparr>) n'"
| ni_recv: "ni_reach mac ip H n \<Longrightarrow> NetworkInterface_recv_frame n f = Inr (n', r) \<Longrightarrow>
    ni_frames_out n' = ni_frames_out n @ fs \<Longrightarrow>
    ni_reach mac ip (H\<lparr>ni_heard := ni_heard H \<union> (\<lambda>m. (arp_sender_ip_address m, arp_sender_ethernet_address m)) `
      set_option (arp_heard n f), ni_frames := ni_frames H @ fs\<rparr>) n'"
| ni_tick: "ni_reach mac ip H n \<Longrightarrow> unat (ni_current_time n) + unat ms + 30000 < 2 ^ 64 \<Longrightarrow>
    ni_reach mac ip H (NetworkInterface_tick n ms)"
| ni_pop: "ni_reach mac ip H n \<Longrightarrow> ni_frames_out n = f # q \<Longrightarrow> ni_reach mac ip H (n\<lparr>ni_frames_out := q\<rparr>)"

text \<open>A frame that carries a datagram to the Ethernet address heard for its next hop.\<close>

definition frame_carries :: "EthernetAddress \<Rightarrow> (u32 \<times> EthernetAddress) set \<Rightarrow> EthernetFrame \<Rightarrow> IPv4Datagram \<times> Address \<Rightarrow> bool" where
  "frame_carries mac L f e \<longleftrightarrow> (\<exists>ip bl dst. to_hop ip e \<and> (ip, dst) \<in> L \<and> IPv4Datagram_serialize (fst e) = Inr bl \<and>
     f = ipv4_frame mac dst bl)"

definition ni_conserves :: "EthernetAddress \<Rightarrow> ni_history \<Rightarrow> NetworkInterface \<Rightarrow> bool" where
  "ni_conserves mac H n \<longleftrightarrow> (\<exists>sent. mset (ni_given H) = mset (ni_pending_list n) + mset sent \<and>
     list_all2 (frame_carries mac (ni_heard H)) (filter is_ipv4 (ni_frames H)) sent)"

definition ni_tables_ok :: "ni_history \<Rightarrow> NetworkInterface \<Rightarrow> bool" where
  "ni_tables_ok H n \<longleftrightarrow>
     (\<forall>i e t. ni_mapping n i = Some (e, t) \<longrightarrow> (i, e) \<in> ni_heard H \<and> unat t \<le> unat (ni_current_time n) \<and>
        unat (ni_current_time n) < unat t + 30000) \<and>
     (\<forall>i t. ni_blocking_mapping n i = Some t \<longrightarrow> unat t \<le> unat (ni_current_time n) \<and>
        unat (ni_current_time n) < unat t + 5000)"

definition ni_rate_ok :: "ni_history \<Rightarrow> NetworkInterface \<Rightarrow> bool" where
  "ni_rate_ok H n \<longleftrightarrow> sorted_wrt (\<lambda>a b. fst a = fst b \<longrightarrow> snd a + 5000 \<le> snd b) (ni_requests H) \<and>
     (\<forall>(i, t) \<in> set (ni_requests H). t + 5000 \<le> unat (ni_current_time n) \<or>
        (\<exists>u. ni_blocking_mapping n i = Some u \<and> unat u = t))"

definition ni_inv :: "EthernetAddress \<Rightarrow> ni_history \<Rightarrow> NetworkInterface \<Rightarrow> bool" where
  "ni_inv mac H n \<longleftrightarrow> ni_ethernet_address n = mac \<and> unat (ni_current_time n) + 30000 < 2 ^ 64 \<and>
     (\<forall>e \<in> set (ni_pending_list n). \<exists>i. to_hop i e) \<and>
     ni_conserves mac H n \<and> ni_tables_ok H n \<and> ni_rate_ok H n"

lemma frame_carries_mono:
  "list_all2 (frame_carries mac L) fs sent \<Longrightarrow> L \<subseteq> L' \<Longrightarrow> list_all2 (frame_carries mac L') fs sent"
  by (erule list_all2_mono) (auto simp: frame_carries_def)

lemma filter_arp [simp]: "filter is_arp (map (ipv4_frame a b) bls) = []" "filter is_ipv4 (map (ipv4_frame a b) bls) = map (ipv4_frame a b) bls"
  by (simp_all add: filter_empty_conv filter_id_conv)

lemma ni_inv_send:
  assumes inv: "ni_inv mac H n" and s: "NetworkInterface_send_datagram n d h = Inr n'"
    and fs: "ni_frames_out n' = ni_frames_out n @ fs"
  shows "ni_inv mac (H\<lparr>ni_given := ni_given H @ [(d, h)], ni_frames := ni_frames H @ fs,
      ni_requests := ni_requests H @ asked n h fs\<rparr>) n'"
  using s
proof (cases rule: send_cases)
  case (mapped ip dst t bl)
  let ?f = "ipv4_frame mac dst bl"
  obtain sent where sent: "mset (ni_given H) = mset (ni_pending_list n) + mset sent"
    "list_all2 (frame_carries mac (ni_heard H)) (filter is_ipv4 (ni_frames H)) sent"
    using inv by (auto simp: ni_inv_def ni_conserves_def)
  have "ni_ethernet_address n = mac" using inv by (simp add: ni_inv_def)
  with fs mapped have fs': "fs = [?f]" by simp
  have "(ip, dst) \<in> ni_heard H" using inv mapped(2) by (auto simp: ni_inv_def ni_tables_ok_def)
  with mapped have "frame_carries mac (ni_heard H) ?f (d, h)" by (auto simp: frame_carries_def)
  with sent have "ni_conserves mac (H\<lparr>ni_given := ni_given H @ [(d, h)], ni_frames := ni_frames H @ fs,
      ni_requests := ni_requests H @ asked n h fs\<rparr>) n'"
    unfolding ni_conserves_def fs' mapped(4)
    by (intro exI [of _ "sent @ [(d, h)]"]) (simp add: list_all2_appendI)
  with inv show ?thesis unfolding fs' mapped(4) by (simp add: ni_inv_def ni_tables_ok_def ni_rate_ok_def)
next
  case (blocked ip)
  with fs have "fs = []" by simp
  with inv blocked show ?thesis
    by (auto simp: ni_inv_def ni_conserves_def ni_tables_ok_def ni_rate_ok_def)
next
  case (asks ip f)
  let ?H = "H\<lparr>ni_given := ni_given H @ [(d, h)], ni_frames := ni_frames H @ fs,
      ni_requests := ni_requests H @ asked n h fs\<rparr>"
  have fs': "fs = [f]" and nf: "\<not> is_ipv4 f" using fs asks by auto
  then have R: "ni_requests ?H = ni_requests H @ [(ip, unat (ni_current_time n))]" using asks by simp
  have n': "ni_blocking_mapping n' = (ni_blocking_mapping n)(ip \<mapsto> ni_current_time n)"
    "ni_current_time n' = ni_current_time n" "ni_mapping n' = ni_mapping n"
    "ni_pending_list n' = ni_pending_list n @ [(d, h)]" "ni_ethernet_address n' = ni_ethernet_address n"
    using asks(5) by simp_all
  have rate: "ni_rate_ok H n" using inv by (simp add: ni_inv_def)
  have old: "t + 5000 \<le> unat (ni_current_time n)" if "(ip, t) \<in> set (ni_requests H)" for t
    using rate that asks(3) by (fastforce simp: ni_rate_ok_def)
  have "ni_rate_ok ?H n'"
    unfolding ni_rate_ok_def R n'
  proof (intro conjI ballI)
    show "sorted_wrt (\<lambda>a b. fst a = fst b \<longrightarrow> snd a + 5000 \<le> snd b) (ni_requests H @ [(ip, unat (ni_current_time n))])"
      using rate old by (auto simp: ni_rate_ok_def sorted_wrt_append)
    fix x assume x: "x \<in> set (ni_requests H @ [(ip, unat (ni_current_time n))])"
    show "case x of (i, t) \<Rightarrow> t + 5000 \<le> unat (ni_current_time n) \<or>
        (\<exists>u. ((ni_blocking_mapping n)(ip \<mapsto> ni_current_time n)) i = Some u \<and> unat u = t)"
      using x rate old by (cases "fst x = ip") (auto simp: ni_rate_ok_def)
  qed
  moreover have "ni_tables_ok ?H n'" using inv by (simp add: ni_inv_def ni_tables_ok_def n')
  moreover have "ni_conserves mac ?H n'"
    using inv nf by (auto simp: ni_inv_def ni_conserves_def n' fs')
  ultimately show ?thesis using inv asks(1) by (auto simp: ni_inv_def n')
qed

lemma learn_mapping_ok:
  assumes "ni_inv mac H n" and "(arp_sender_ip_address m, arp_sender_ethernet_address m) \<in> L" and "ni_heard H \<subseteq> L"
  shows "ni_inv mac (H\<lparr>ni_heard := L\<rparr>) (learn_mapping n m)"
proof -
  have "ni_tables_ok (H\<lparr>ni_heard := L\<rparr>) (learn_mapping n m)"
    using assms by (auto simp: ni_inv_def ni_tables_ok_def learn_mapping_def)
  moreover have "ni_conserves mac (H\<lparr>ni_heard := L\<rparr>) (learn_mapping n m)"
    using assms(1) frame_carries_mono [OF _ assms(3)] by (auto simp: ni_inv_def ni_conserves_def)
  ultimately show ?thesis using assms(1) by (simp add: ni_inv_def ni_rate_ok_def)
qed

lemma frame_carries_all:
  "map (\<lambda>e. IPv4Datagram_serialize (fst e)) es = map Inr bls \<Longrightarrow> \<forall>e \<in> set es. to_hop ip e \<Longrightarrow> (ip, dst) \<in> L \<Longrightarrow>
     list_all2 (frame_carries mac L) (map (ipv4_frame mac dst) bls) es"
proof (induction es arbitrary: bls)
  case (Cons e es)
  then obtain bl bls' where "bls = bl # bls'" "IPv4Datagram_serialize (fst e) = Inr bl"
    "map (\<lambda>e. IPv4Datagram_serialize (fst e)) es = map Inr bls'"
    by (cases bls) auto
  with Cons show ?case by (auto simp: frame_carries_def)
qed simp

lemma ni_inv_recv:
  assumes inv: "ni_inv mac H n" and r: "NetworkInterface_recv_frame n f = Inr (n', r)"
    and fs: "ni_frames_out n' = ni_frames_out n @ fs"
  shows "ni_inv mac (H\<lparr>ni_heard := ni_heard H \<union> (\<lambda>m. (arp_sender_ip_address m, arp_sender_ethernet_address m)) `
      set_option (arp_heard n f), ni_frames := ni_frames H @ fs\<rparr>) n'"
proof (cases "arp_heard n f")
  case None
  from arp_heard_None [OF this r] fs inv None show ?thesis by simp
next
  case (Some m)
  let ?ip = "arp_sender_ip_address m" let ?L = "insert (?ip, arp_sender_ethernet_address m) (ni_heard H)"
  let ?n = "learn_mapping n m" let ?H = "H\<lparr>ni_heard := ?L\<rparr>" let ?H' = "H\<lparr>ni_heard := ?L, ni_frames := ni_frames H @ fs\<rparr>"
  have i: "ni_inv mac ?H ?n" by (rule learn_mapping_ok [OF inv]) auto
  have mac: "ni_ethernet_address n = mac" using inv by (simp add: ni_inv_def)
  have "recv_arp n m = Inr n'" using r unfolding arp_heard_Some [OF Some] exn_bind_Inr by auto
  then have "ni_inv mac ?H' n'"
  proof (cases rule: recv_arp_cases)
    case (reply dst t bls)
    let ?es = "filter (to_hop ?ip) (ni_pending_list n)"
    have fs': "fs = map (ipv4_frame mac dst) bls" using fs reply(4) mac by simp
    have "(?ip, dst) \<in> ?L" using i reply(2) by (auto simp: ni_inv_def ni_tables_ok_def)
    then have c: "list_all2 (frame_carries mac ?L) (map (ipv4_frame mac dst) bls) ?es"
      by (intro frame_carries_all [OF reply(3), of ?ip]) simp_all
    obtain sent where sent: "mset (ni_given H) = mset (ni_pending_list n) + mset sent"
      "list_all2 (frame_carries mac ?L) (filter is_ipv4 (ni_frames H)) sent"
      using i by (auto simp: ni_inv_def ni_conserves_def)
    have "mset (ni_given H) = mset (filter (\<lambda>e. \<not> to_hop ?ip e) (ni_pending_list n)) + mset (sent @ ?es)"
      using sent(1) multiset_partition [of "mset (ni_pending_list n)" "to_hop ?ip"]
      by (simp add: mset_filter ac_simps)
    then have "ni_conserves mac ?H' n'"
      unfolding ni_conserves_def fs' reply(4)
      by (intro exI [of _ "sent @ ?es"]) (simp add: list_all2_appendI [OF sent(2) c])
    with i show ?thesis unfolding reply(4) by (simp add: ni_inv_def ni_tables_ok_def ni_rate_ok_def)
  next
    case (answer g)
    then have "fs = [g]" "\<not> is_ipv4 g" using fs by auto
    with i answer show ?thesis by (simp add: ni_inv_def ni_conserves_def ni_tables_ok_def ni_rate_ok_def)
  next
    case ignore
    then have "fs = []" using fs by simp
    with i ignore show ?thesis by simp
  qed
  with Some show ?thesis by simp
qed

lemma ni_inv_tick:
  assumes inv: "ni_inv mac H n" and now: "unat (ni_current_time n) + unat ms + 30000 < 2 ^ 64"
  shows "ni_inv mac H (NetworkInterface_tick n ms)"
proof -
  let ?n = "NetworkInterface_tick n ms" let ?now = "ni_current_time n + ms"
  have u: "unat ?now = unat (ni_current_time n) + unat ms" using now by (intro unat_add64) simp
  have le: "t + d \<le> ?now \<longleftrightarrow> unat t + unat d \<le> unat ?now"
    if "unat t \<le> unat (ni_current_time n)" "unat d \<le> 30000" for t d :: u64
  proof -
    have "unat (t + d) = unat t + unat d" using that now by (intro unat_add64) simp
    then show ?thesis by (simp add: word_le_nat_alt)
  qed
  have tab: "ni_tables_ok H n" and rate: "ni_rate_ok H n" using inv by (simp_all add: ni_inv_def)
  have n: "ni_current_time ?n = ?now" "ni_pending_list ?n = ni_pending_list n"
    "ni_ethernet_address ?n = ni_ethernet_address n"
    by (simp_all add: NetworkInterface_tick_def Let_def)
  have "ni_tables_ok H ?n"
    unfolding ni_tables_ok_def n
  proof (intro conjI allI impI)
    fix i e t assume "ni_mapping ?n i = Some (e, t)"
    then have m: "ni_mapping n i = Some (e, t)" "\<not> t + ARP_VALID_TIME \<le> ?now"
      by (auto simp: NetworkInterface_tick_def Let_def split: option.splits if_splits)
    with tab have "(i, e) \<in> ni_heard H" and t: "unat t \<le> unat (ni_current_time n)"
      by (auto simp: ni_tables_ok_def)
    with m(2) u le [OF t, of ARP_VALID_TIME] show "(i, e) \<in> ni_heard H" "unat t \<le> unat ?now" "unat ?now < unat t + 30000"
      by (simp_all add: ARP_VALID_TIME_def)
  next
    fix i t assume "ni_blocking_mapping ?n i = Some t"
    then have m: "ni_blocking_mapping n i = Some t" "\<not> t + ARP_REQ_BLOCKING_TIME \<le> ?now"
      by (auto simp: NetworkInterface_tick_def Let_def split: option.splits if_splits)
    with tab have t: "unat t \<le> unat (ni_current_time n)" by (auto simp: ni_tables_ok_def)
    with m(2) u le [OF t, of ARP_REQ_BLOCKING_TIME] show "unat t \<le> unat ?now" "unat ?now < unat t + 5000"
      by (simp_all add: ARP_REQ_BLOCKING_TIME_def)
  qed
  moreover have "ni_rate_ok H ?n"
    unfolding ni_rate_ok_def n
  proof (intro conjI ballI)
    show "sorted_wrt (\<lambda>a b. fst a = fst b \<longrightarrow> snd a + 5000 \<le> snd b) (ni_requests H)"
      using rate by (simp add: ni_rate_ok_def)
    fix x assume "x \<in> set (ni_requests H)"
    then consider "snd x + 5000 \<le> unat (ni_current_time n)"
      | u where "ni_blocking_mapping n (fst x) = Some u" "unat u = snd x"
      using rate by (auto simp: ni_rate_ok_def)
    then show "case x of (i, t) \<Rightarrow> t + 5000 \<le> unat ?now \<or> (\<exists>u. ni_blocking_mapping ?n i = Some u \<and> unat u = t)"
    proof cases
      case 1
      with u show ?thesis by (simp add: split_def)
    next
      case (2 v)
      then have "unat v \<le> unat (ni_current_time n)" using tab unfolding ni_tables_ok_def by blast
      with 2 le [of v ARP_REQ_BLOCKING_TIME] show ?thesis
        by (simp add: split_def NetworkInterface_tick_def Let_def ARP_REQ_BLOCKING_TIME_def)
    qed
  qed
  ultimately show ?thesis using inv now u by (simp add: ni_inv_def n ni_conserves_def)
qed

lemma ni_inv_new: "ni_inv mac \<lparr>ni_given = [], ni_heard = {}, ni_frames = [], ni_requests = []\<rparr> (NetworkInterface_new mac ip)"
  by (simp add: ni_inv_def ni_conserves_def ni_tables_ok_def ni_rate_ok_def NetworkInterface_new_def)

lemma ni_inv_pop: "ni_inv mac H n \<Longrightarrow> ni_inv mac H (n\<lparr>ni_frames_out := q\<rparr>)"
  by (simp add: ni_inv_def ni_conserves_def ni_tables_ok_def ni_rate_ok_def)

lemma ni_reach_inv: "ni_reach mac ip H n \<Longrightarrow> ni_inv mac H n"
  by (induction rule: ni_reach.induct)
     (auto intro: ni_inv_new ni_inv_send ni_inv_recv ni_inv_tick ni_inv_pop)

section \<open>Examples\<close>

lemma arp_heard_wire:
  assumes "arp_ok m" and "eh_dst (ef_header f) = ni_ethernet_address n" and "is_arp f"
    and "ef_payload f = [Buffer_new (arp_kind_bytes m @ arp_address_bytes m)]"
  shows "arp_heard n f = Some m"
proof -
  let ?b = "Buffer_new (arp_kind_bytes m @ arp_address_bytes m)"
  have len: "length (arp_address_bytes m) = 20" using assms(1) by (simp add: arp_address_bytes_def arp_ok_def)
  have b: "buffer_inv ?b" by (rule buffer_inv_new) (simp add: len)
  obtain p where p: "np_at p (arp_address_bytes m)"
    "ARPMessage_parse ARPMessage_default ?b = arp_parse_addresses (arp_set_kind ARPMessage_default m) p"
    using ARPMessage_parse_kind [OF b, of m "arp_address_bytes m" ARPMessage_default] len assms(1)
    by (auto simp: arp_ok_def)
  with arp_parse_addresses_ok [OF assms(1), of p "[]" "arp_set_kind ARPMessage_default m"]
  have "ARPMessage_parse ARPMessage_default ?b = (NoError, m)" by (simp add: arp_set_kind_def)
  with assms(2,3,4) show ?thesis by (simp add: arp_heard_def BufferList_to_Buffer_def)
qed

text \<open>Two hosts: the interface with address 1, and its neighbour with address 2.\<close>

abbreviation mac_one :: EthernetAddress where
  "mac_one \<equiv> [2, 0, 0, 0, 0, 1]"

abbreviation mac_two :: EthernetAddress where
  "mac_two \<equiv> [2, 0, 0, 0, 0, 2]"

abbreviation hop_two :: Address where
  "hop_two \<equiv> ipv4_address 2 0"

abbreviation empty_dgram :: IPv4Datagram where
  "empty_dgram \<equiv> IPv4Datagram_default\<lparr>id_header := IPv4Header_default\<lparr>ih_len := 20\<rparr>\<rparr>"

definition reply_two :: ARPMessage where
  "reply_two = ARPMessage_default\<lparr>arp_opcode := ARPMessage_OPCODE_REPLY, arp_sender_ethernet_address := mac_two,
     arp_sender_ip_address := 2, arp_target_ethernet_address := mac_one, arp_target_ip_address := 1\<rparr>"

definition frame_two :: EthernetFrame where
  "frame_two = \<lparr>ef_header = \<lparr>eh_dst = mac_one, eh_src = mac_two, eh_type = EthernetHeader_TYPE_ARP\<rparr>,
     ef_payload = [Buffer_new (arp_kind_bytes reply_two @ arp_address_bytes reply_two)]\<rparr>"

lemma heard_two: "ni_ethernet_address n = mac_one \<Longrightarrow> arp_heard n frame_two = Some reply_two"
  by (rule arp_heard_wire) (simp_all add: frame_two_def arp_ok_def ARPMessage_supported_def reply_two_def ARPMessage_default_def)

lemma empty_dgram_serialize: "\<exists>bl. IPv4Datagram_serialize empty_dgram = Inr bl"
proof -
  have "ip_datagram_ok empty_dgram"
    by (simp add: ip_datagram_ok_def ip_header_ok_def ip_fields_ok_def IPv4Header_default_def IPv4Header_LENGTH_def
        IPv4Datagram_default_def word_less_nat_alt word_le_nat_alt)
  from IPv4Datagram_serialize_eq [OF this] show ?thesis by blast
qed

abbreviation waiting :: "EthernetFrame list \<Rightarrow> (IPv4Datagram \<times> Address) list \<Rightarrow> u64 \<Rightarrow> NetworkInterface" where
  "waiting fs es t \<equiv> (NetworkInterface_new mac_one (ipv4_address 1 0))\<lparr>ni_frames_out := fs, ni_pending_list := es,
     ni_current_time := t, ni_blocking_mapping := [2 \<mapsto> t]\<rparr>"

abbreviation ni_past :: "(IPv4Datagram \<times> Address) list \<Rightarrow> EthernetFrame list \<Rightarrow> (u32 \<times> nat) list \<Rightarrow> ni_history" where
  "ni_past es fs R \<equiv> \<lparr>ni_given = es, ni_heard = {}, ni_frames = fs, ni_requests = R\<rparr>"

lemma example_asks:
  obtains f where "is_arp f" "ni_reach mac_one (ipv4_address 1 0) (ni_past [(empty_dgram, hop_two)] [f] [(2, 0)])
    (waiting [f] [(empty_dgram, hop_two)] 0)"
proof -
  let ?n = "NetworkInterface_new mac_one (ipv4_address 1 0)"
  obtain f where f: "arp_request_frame mac_one 1 2 = Inr f" "is_arp f" using arp_request_frame_Inr by blast
  have "NetworkInterface_send_datagram ?n empty_dgram hop_two = Inr (waiting [f] [(empty_dgram, hop_two)] 0)"
    using f by (subst send_asks [of _ 2 _ 1 f]) (simp_all add: NetworkInterface_new_def push_frame_def)
  from ni_send [OF ni_new this, of "[f]"] f show thesis
    by (intro that [of f]) (simp_all add: NetworkInterface_new_def)
qed

lemma example_asks_again:
  obtains f g where "is_arp f" "is_arp g"
    "ni_reach mac_one (ipv4_address 1 0) (ni_past [(empty_dgram, hop_two), (empty_dgram, hop_two)] [f, g] [(2, 0), (2, 5000)])
      (waiting [f, g] [(empty_dgram, hop_two), (empty_dgram, hop_two)] 5000)"
proof -
  obtain f where f: "is_arp f" "ni_reach mac_one (ipv4_address 1 0) (ni_past [(empty_dgram, hop_two)] [f] [(2, 0)])
      (waiting [f] [(empty_dgram, hop_two)] 0)" by (rule example_asks)
  let ?n = "NetworkInterface_tick (waiting [f] [(empty_dgram, hop_two)] 0) 5000"
  have n: "?n = (waiting [f] [(empty_dgram, hop_two)] 5000)\<lparr>ni_blocking_mapping := Map.empty\<rparr>"
    by (auto simp: NetworkInterface_tick_def NetworkInterface_new_def ARP_REQ_BLOCKING_TIME_def fun_eq_iff)
  have r: "ni_reach mac_one (ipv4_address 1 0) (ni_past [(empty_dgram, hop_two)] [f] [(2, 0)]) ?n"
    by (rule ni_tick [OF f(2)]) (simp add: NetworkInterface_new_def)
  obtain g where g: "arp_request_frame mac_one 1 2 = Inr g" "is_arp g" using arp_request_frame_Inr by blast
  note r = r [unfolded n]
  have "NetworkInterface_send_datagram ((waiting [f] [(empty_dgram, hop_two)] 5000)\<lparr>ni_blocking_mapping := Map.empty\<rparr>)
      empty_dgram hop_two = Inr (waiting [f, g] [(empty_dgram, hop_two), (empty_dgram, hop_two)] 5000)"
    using g by (subst send_asks [of _ 2 _ 1 g]) (simp_all add: NetworkInterface_new_def push_frame_def)
  from ni_send [OF r this, of "[g]"] f(1) g show thesis
    by (intro that [of f g]) (simp_all add: NetworkInterface_new_def)
qed

section \<open>Properties\<close>

text \<open>C20. No datagram is lost, repeated or misdelivered inside the interface: at every moment the
  datagrams given to \<open>send_datagram\<close> are exactly those that still wait for an ARP reply
  and those that went out, one IPv4 frame each, and every such frame goes to an Ethernet
  address that some ARP message has named for the datagram's next hop.\<close>

theorem interface_conserves:
  assumes "ni_reach mac ip H n"
  shows "\<exists>sent. mset (ni_given H) = mset (ni_pending_list n) + mset sent \<and>
     list_all2 (frame_carries mac (ni_heard H)) (filter is_ipv4 (ni_frames H)) sent"
  using ni_reach_inv [OF assms] by (simp add: ni_inv_def ni_conserves_def)

theorem interface_conserves_witness:
  "\<exists>H n f sent. ni_reach mac_one (ipv4_address 1 0) H n \<and> ni_given H = [(empty_dgram, hop_two)] \<and>
     ni_pending_list n = [] \<and> sent = [(empty_dgram, hop_two)] \<and> filter is_ipv4 (ni_frames H) = [f] \<and>
     list_all2 (frame_carries mac_one (ni_heard H)) [f] sent"
proof -
  obtain g where g: "is_arp g" "ni_reach mac_one (ipv4_address 1 0) (ni_past [(empty_dgram, hop_two)] [g] [(2, 0)])
      (waiting [g] [(empty_dgram, hop_two)] 0)" by (rule example_asks)
  let ?n = "waiting [g] [(empty_dgram, hop_two)] 0"
  obtain bl where bl: "IPv4Datagram_serialize empty_dgram = Inr bl" using empty_dgram_serialize by blast
  have h: "arp_heard ?n frame_two = Some reply_two" by (rule heard_two) (simp add: NetworkInterface_new_def)
  let ?f = "ipv4_frame mac_one mac_two bl"
  have "\<exists>n'. recv_arp ?n reply_two = Inr n' \<and> ni_frames_out n' = ni_frames_out ?n @ [?f] \<and> ni_pending_list n' = []"
    using bl by (simp add: recv_arp_def learn_mapping_def NetworkInterface_new_def reply_two_def
        send_mapped [of hop_two 2] push_frame_def)
  then obtain n' where n': "NetworkInterface_recv_frame ?n frame_two = Inr (n', None)"
    "ni_frames_out n' = ni_frames_out ?n @ [?f]" "ni_pending_list n' = []"
    using arp_heard_Some [OF h] by auto
  from ni_recv [OF g(2) n'(1,2)] have r: "ni_reach mac_one (ipv4_address 1 0)
      \<lparr>ni_given = [(empty_dgram, hop_two)], ni_heard = {(2, mac_two)}, ni_frames = [g, ?f], ni_requests = [(2, 0)]\<rparr> n'"
    by (simp add: h) (simp add: reply_two_def)
  have fl: "filter is_ipv4 [g, ?f] = [?f]" using g(1) by simp
  from interface_conserves [OF r] n'(3) fl
  have "list_all2 (frame_carries mac_one {(2, mac_two)}) [?f] [(empty_dgram, hop_two)]" by auto
  with r n'(3) fl show ?thesis by (intro exI conjI) (assumption | simp)+
qed

text \<open>C21. What the interface knows is recent, and it does not flood the network: an entry of the
  address table is less than 30 seconds old and was heard in an ARP message, and two ARP
  requests for the same address are at least 5 seconds apart.\<close>

theorem interface_arp_timing:
  assumes "ni_reach mac ip H n"
  shows "(\<forall>i e t. ni_mapping n i = Some (e, t) \<longrightarrow> (i, e) \<in> ni_heard H \<and>
            unat t \<le> unat (ni_current_time n) \<and> unat (ni_current_time n) < unat t + 30000) \<and>
         sorted_wrt (\<lambda>a b. fst a = fst b \<longrightarrow> snd a + 5000 \<le> snd b) (ni_requests H)"
  using ni_reach_inv [OF assms] by (simp add: ni_inv_def ni_tables_ok_def ni_rate_ok_def)

theorem interface_arp_timing_witness:
  "\<exists>H n. ni_reach mac_one (ipv4_address 1 0) H n \<and> ni_requests H = [(2, 0), (2, 5000)] \<and>
     sorted_wrt (\<lambda>a b. fst a = fst b \<longrightarrow> snd a + 5000 \<le> snd b) (ni_requests H)"
proof -
  obtain f g where "ni_reach mac_one (ipv4_address 1 0)
      (ni_past [(empty_dgram, hop_two), (empty_dgram, hop_two)] [f, g] [(2, 0), (2, 5000)])
      (waiting [f, g] [(empty_dgram, hop_two), (empty_dgram, hop_two)] 5000)" by (rule example_asks_again)
  with interface_arp_timing [OF this] show ?thesis by (intro exI conjI) (assumption | simp)+
qed

text \<open>C22. An ARP reply, whatever address it is meant for, releases what waits for it: all pending
  datagrams for the sender of the reply leave at once, in the order they were given, to
  the Ethernet address in the table (the one in the reply if the table had none), and
  nothing else changes. An ARP request teaches the interface the address of the asker
  too, and is answered when it asks for the interface's own address, but it releases
  nothing: the datagrams stay pending.\<close>

theorem arp_releases_pending:
  assumes "\<forall>e \<in> set (ni_pending_list n). \<exists>i. to_hop i e" and "arp_heard n f = Some msg"
    and "map (\<lambda>e. IPv4Datagram_serialize (fst e)) (filter (to_hop (arp_sender_ip_address msg)) (ni_pending_list n)) = map Inr bls"
    and "Address_ipv4_numeric (ni_ip_address n) = Inr own"
  shows "\<exists>mac t. ni_mapping (learn_mapping n msg) (arp_sender_ip_address msg) = Some (mac, t) \<and>
     (ni_mapping n (arp_sender_ip_address msg) = None \<longrightarrow> mac = arp_sender_ethernet_address msg) \<and>
     (arp_opcode msg = ARPMessage_OPCODE_REPLY \<longrightarrow>
        NetworkInterface_recv_frame n f = Inr ((learn_mapping n msg)
          \<lparr>ni_pending_list := filter (\<lambda>e. \<not> to_hop (arp_sender_ip_address msg) e) (ni_pending_list n),
           ni_frames_out := ni_frames_out n @ map (ipv4_frame (ni_ethernet_address n) mac) bls\<rparr>, None)) \<and>
     (arp_opcode msg = ARPMessage_OPCODE_REQUEST \<and> arp_target_ip_address msg \<noteq> own \<longrightarrow>
        NetworkInterface_recv_frame n f = Inr (learn_mapping n msg, None) \<and>
        ni_pending_list (learn_mapping n msg) = ni_pending_list n) \<and>
     (arp_opcode msg = ARPMessage_OPCODE_REQUEST \<and> arp_target_ip_address msg = own \<longrightarrow>
        (\<exists>g n'. NetworkInterface_recv_frame n f = Inr (n', None) \<and>
           arp_reply_frame (ni_ethernet_address n) own msg = Inr g \<and>
           eh_dst (ef_header g) = arp_sender_ethernet_address msg \<and>
           n' = (learn_mapping n msg)\<lparr>ni_frames_out := ni_frames_out n @ [g]\<rparr> \<and>
           ni_pending_list n' = ni_pending_list n))"
proof -
  let ?n = "learn_mapping n msg" let ?ip = "arp_sender_ip_address msg"
  obtain mac t where m: "ni_mapping ?n ?ip = Some (mac, t)" using learn_mapping_knows by blast
  have "ni_mapping n ?ip = None \<longrightarrow> mac = arp_sender_ethernet_address msg"
    using m by (auto simp: learn_mapping_def)
  moreover have "NetworkInterface_recv_frame n f = Inr (?n, None)"
    if "arp_opcode msg = ARPMessage_OPCODE_REQUEST" "arp_target_ip_address msg \<noteq> own"
    using that assms(4) by (simp add: arp_heard_Some [OF assms(2)] recv_arp_def ARPMessage_OPCODE_REQUEST_def
        ARPMessage_OPCODE_REPLY_def)
  moreover have "\<exists>g. NetworkInterface_recv_frame n f = Inr (?n\<lparr>ni_frames_out := ni_frames_out n @ [g]\<rparr>, None) \<and>
      arp_reply_frame (ni_ethernet_address n) own msg = Inr g \<and> eh_dst (ef_header g) = arp_sender_ethernet_address msg"
    if "arp_opcode msg = ARPMessage_OPCODE_REQUEST" "arp_target_ip_address msg = own"
  proof -
    obtain g where "arp_reply_frame (ni_ethernet_address n) own msg = Inr g"
      "eh_dst (ef_header g) = arp_sender_ethernet_address msg" using arp_reply_frame_Inr by blast
    then show ?thesis using that assms(4)
      by (simp add: arp_heard_Some [OF assms(2)] recv_arp_def ARPMessage_OPCODE_REQUEST_def
        ARPMessage_OPCODE_REPLY_def push_frame_def)
  qed
  moreover have "NetworkInterface_recv_frame n f = Inr (?n
      \<lparr>ni_pending_list := filter (\<lambda>e. \<not> to_hop ?ip e) (ni_pending_list n),
       ni_frames_out := ni_frames_out n @ map (ipv4_frame (ni_ethernet_address n) mac) bls\<rparr>, None)"
    if "arp_opcode msg = ARPMessage_OPCODE_REPLY"
  proof -
    have "recv_arp n msg = send_pending_list (?n\<lparr>ni_pending_list := filter (\<lambda>e. \<not> to_hop ?ip e) (ni_pending_list n)\<rparr>)
        (filter (to_hop ?ip) (ni_pending_list n))"
      using that take_pending_ok [OF assms(1)] by (simp add: recv_arp_def)
    then show ?thesis using m assms(3)
      by (simp add: arp_heard_Some [OF assms(2)] send_pending_ok [of _ ?ip mac t _ bls])
  qed
  ultimately show ?thesis using m by auto
qed

theorem arp_releases_pending_witness:
  "\<exists>bl n'. IPv4Datagram_serialize empty_dgram = Inr bl \<and>
     NetworkInterface_recv_frame (waiting [] [(empty_dgram, hop_two)] 0) frame_two = Inr (n', None) \<and>
     ni_pending_list n' = [] \<and> ni_frames_out n' = [ipv4_frame mac_one mac_two bl]"
proof -
  let ?n = "waiting [] [(empty_dgram, hop_two)] 0"
  obtain bl where bl: "IPv4Datagram_serialize empty_dgram = Inr bl" using empty_dgram_serialize by blast
  have h: "arp_heard ?n frame_two = Some reply_two" by (rule heard_two) (simp add: NetworkInterface_new_def)
  have m: "arp_sender_ip_address reply_two = 2" "arp_target_ip_address reply_two = 1"
    "arp_opcode reply_two = ARPMessage_OPCODE_REPLY" "arp_sender_ethernet_address reply_two = mac_two"
    by (simp_all add: reply_two_def)
  from arp_releases_pending [OF _ h, of "[bl]" 1] bl m show ?thesis
    by (auto simp: NetworkInterface_new_def learn_mapping_def)
qed

end
