(* ===== verification/Router.thy ===== *)
theory Router
  imports Network_Interface
begin

text \<open>
  The router of \<open>libsponge/router.hh\<close> and \<open>libsponge/router.cc\<close>: interfaces that store the
  datagrams they receive, a list of forwarding rules, and the loop that sends every stored
  datagram out on the interface of the longest matching prefix. The debug output of
  \<open>add_route\<close> is left out.
\<close>

section \<open>The classes\<close>

record AsyncNetworkInterface =
  ani_interface :: NetworkInterface
  ani_datagrams_out :: "IPv4Datagram list"

definition AsyncNetworkInterface_of :: "NetworkInterface \<Rightarrow> AsyncNetworkInterface" where
  "AsyncNetworkInterface_of interface = \<lparr>ani_interface = interface, ani_datagrams_out = []\<rparr>"

definition AsyncNetworkInterface_recv_frame ::
  "AsyncNetworkInterface \<Rightarrow> EthernetFrame \<Rightarrow> exn + AsyncNetworkInterface" where
  "AsyncNetworkInterface_recv_frame a frame =
     exn_bind (NetworkInterface_recv_frame (ani_interface a) frame) (\<lambda>(n, optional_dgram).
       let a = a\<lparr>ani_interface := n\<rparr>
       in case optional_dgram of
            None \<Rightarrow> Inr a
          | Some dgram \<Rightarrow> Inr (a\<lparr>ani_datagrams_out := ani_datagrams_out a @ [dgram]\<rparr>))"

record RouteRule =
  rr_route_prefix :: u32
  rr_prefix_length :: u8
  rr_next_hop :: "Address option"
  rr_interface_num :: u64

record Router =
  ro_interfaces :: "AsyncNetworkInterface list"
  ro_rule_list :: "RouteRule list"

definition Router_new :: Router where
  "Router_new = \<lparr>ro_interfaces = [], ro_rule_list = []\<rparr>"

definition Router_add_interface :: "Router \<Rightarrow> AsyncNetworkInterface \<Rightarrow> Router \<times> u64" where
  "Router_add_interface r interface =
     (let r = r\<lparr>ro_interfaces := ro_interfaces r @ [interface]\<rparr>
      in (r, of_nat (length (ro_interfaces r)) - 1))"

definition Router_interface :: "Router \<Rightarrow> u64 \<Rightarrow> exn + AsyncNetworkInterface" where
  "Router_interface r N =
     (if unat N < length (ro_interfaces r) then Inr (ro_interfaces r ! unat N)
      else Inl (OutOfRange ''vector::_M_range_check''))"

definition Router_add_route :: "Router \<Rightarrow> u32 \<Rightarrow> u8 \<Rightarrow> Address option \<Rightarrow> u64 \<Rightarrow> Router" where
  "Router_add_route r route_prefix prefix_length next_hop interface_num =
     r\<lparr>ro_rule_list := ro_rule_list r @
         [\<lparr>rr_route_prefix = route_prefix, rr_prefix_length = prefix_length, rr_next_hop = next_hop,
           rr_interface_num = interface_num\<rparr>]\<rparr>"

text \<open>
  The test of a rule: the shift count is \<open>32 - prefix_length\<close>, and a negative shift count is
  undefined.
\<close>

definition rule_matches :: "u32 \<Rightarrow> RouteRule \<Rightarrow> exn + bool" where
  "rule_matches target rule =
     (if rr_prefix_length rule = 0 then Inr True
      else if rr_prefix_length rule > 32 then Inl (UndefinedBehaviour ''shift by a negative count'')
      else Inr (drop_bit (32 - unat (rr_prefix_length rule)) (target XOR rr_route_prefix rule) = 0))"

fun match_loop :: "u32 \<Rightarrow> RouteRule list \<Rightarrow> u8 \<Rightarrow> RouteRule option \<Rightarrow> exn + RouteRule option" where
  "match_loop target [] longest match_rule = Inr match_rule"
| "match_loop target (rule # rules) longest match_rule =
     exn_bind (rule_matches target rule) (\<lambda>b.
       if b \<and> longest \<le> rr_prefix_length rule
       then match_loop target rules (rr_prefix_length rule) (Some rule)
       else match_loop target rules longest match_rule)"

text \<open>\<open>interface(N).send_datagram(dgram, next_hop)\<close>.\<close>

definition Router_send :: "Router \<Rightarrow> u64 \<Rightarrow> IPv4Datagram \<Rightarrow> Address \<Rightarrow> exn + Router" where
  "Router_send r N dgram next_hop =
     exn_bind (Router_interface r N) (\<lambda>a.
     exn_bind (NetworkInterface_send_datagram (ani_interface a) dgram next_hop) (\<lambda>n.
       Inr (r\<lparr>ro_interfaces := (ro_interfaces r)[unat N := a\<lparr>ani_interface := n\<rparr>]\<rparr>)))"

definition route_one_datagram :: "Router \<Rightarrow> IPv4Datagram \<Rightarrow> exn + Router" where
  "route_one_datagram r dgram =
     (let target = ih_dst (id_header dgram)
      in exn_bind (match_loop target (ro_rule_list r) 0 None) (\<lambda>m.
           case m of
             None \<Rightarrow> Inr r
           | Some match_rule \<Rightarrow>
               if ih_ttl (id_header dgram) = 0 then Inr r
               else
                 let dgram = dgram\<lparr>id_header := (id_header dgram)\<lparr>ih_ttl := ih_ttl (id_header dgram) - 1\<rparr>\<rparr>
                 in if ih_ttl (id_header dgram) = 0 then Inr r
                    else case rr_next_hop match_rule of
                           Some next_hop \<Rightarrow> Router_send r (rr_interface_num match_rule) dgram next_hop
                         | None \<Rightarrow> Router_send r (rr_interface_num match_rule) dgram
                                     (Address_from_ipv4_numeric (ih_dst (id_header dgram)))))"

definition Router_queue :: "Router \<Rightarrow> nat \<Rightarrow> IPv4Datagram list" where
  "Router_queue r i = ani_datagrams_out (ro_interfaces r ! i)"

definition Router_pop :: "Router \<Rightarrow> nat \<Rightarrow> Router" where
  "Router_pop r i =
     r\<lparr>ro_interfaces := (ro_interfaces r)[i := (ro_interfaces r ! i)
         \<lparr>ani_datagrams_out := tl (ani_datagrams_out (ro_interfaces r ! i))\<rparr>]\<rparr>"

section \<open>Sending changes no queue\<close>

lemma Router_send_fields:
  assumes "Router_send r N d h = Inr r'"
  shows "ro_rule_list r' = ro_rule_list r" and "length (ro_interfaces r') = length (ro_interfaces r)"
    and "i < length (ro_interfaces r) \<Longrightarrow> Router_queue r' i = Router_queue r i"
  using assms
  by (auto simp: Router_send_def exn_bind_Inr Router_interface_def Router_queue_def nth_list_update split: if_splits)

lemma route_one_fields:
  assumes "route_one_datagram r d = Inr r'"
  shows "ro_rule_list r' = ro_rule_list r" and "length (ro_interfaces r') = length (ro_interfaces r)"
    and "i < length (ro_interfaces r) \<Longrightarrow> Router_queue r' i = Router_queue r i"
proof -
  have "r' = r \<or> (\<exists>N d h. Router_send r N d h = Inr r')"
    using assms by (auto simp: route_one_datagram_def exn_bind_Inr Let_def split: option.splits if_splits)
  then show "ro_rule_list r' = ro_rule_list r" "length (ro_interfaces r') = length (ro_interfaces r)"
    "i < length (ro_interfaces r) \<Longrightarrow> Router_queue r' i = Router_queue r i"
    using Router_send_fields by auto
qed

lemma Router_pop_fields [simp]:
  "ro_rule_list (Router_pop r i) = ro_rule_list r" "length (ro_interfaces (Router_pop r i)) = length (ro_interfaces r)"
  "i < length (ro_interfaces r) \<Longrightarrow> Router_queue (Router_pop r i) i = tl (Router_queue r i)"
  by (simp_all add: Router_pop_def Router_queue_def)

text \<open>The loop over one queue, and \<open>route\<close>.\<close>

function route_queue :: "Router \<Rightarrow> nat \<Rightarrow> exn + Router" where
  "route_queue r i =
     (if i < length (ro_interfaces r) \<and> Router_queue r i \<noteq> []
      then exn_bind (route_one_datagram r (hd (Router_queue r i))) (\<lambda>r. route_queue (Router_pop r i) i)
      else Inr r)"
  by pat_completeness auto
termination
  by (relation "measure (\<lambda>(r, i). length (Router_queue r i))")
     (auto simp: route_one_fields)

declare route_queue.simps [simp del]

fun route_all :: "Router \<Rightarrow> nat list \<Rightarrow> exn + Router" where
  "route_all r [] = Inr r"
| "route_all r (i # is) = exn_bind (route_queue r i) (\<lambda>r. route_all r is)"

definition Router_route :: "Router \<Rightarrow> exn + Router" where
  "Router_route r = route_all r [0..<length (ro_interfaces r)]"

section \<open>Longest prefix match\<close>

text \<open>
  The specification: a rule matches when the first \<open>prefix_length\<close> bits agree, and the rule
  used is, among the matching ones of greatest length, the one added last.
\<close>

definition prefix_matches :: "u32 \<Rightarrow> RouteRule \<Rightarrow> bool" where
  "prefix_matches target rule \<longleftrightarrow>
     (\<forall>i < 32. 32 - unat (rr_prefix_length rule) \<le> i \<longrightarrow> bit target i = bit (rr_route_prefix rule) i)"

definition rules_ok :: "RouteRule list \<Rightarrow> bool" where
  "rules_ok rules \<longleftrightarrow> (\<forall>rule \<in> set rules. rr_prefix_length rule \<le> 32)"

definition is_best_rule :: "u32 \<Rightarrow> RouteRule list \<Rightarrow> RouteRule option \<Rightarrow> bool" where
  "is_best_rule target rules m \<longleftrightarrow>
     (case m of
        None \<Rightarrow> \<forall>rule \<in> set rules. \<not> prefix_matches target rule
      | Some best \<Rightarrow> \<exists>before after. rules = before @ best # after \<and> prefix_matches target best \<and>
          (\<forall>rule \<in> set before. prefix_matches target rule \<longrightarrow> rr_prefix_length rule \<le> rr_prefix_length best) \<and>
          (\<forall>rule \<in> set after. prefix_matches target rule \<longrightarrow> rr_prefix_length rule < rr_prefix_length best))"

lemma word_zero_iff: "(w :: 'a :: len word) = 0 \<longleftrightarrow> (\<forall>i. \<not> bit w i)"
  by (auto intro: bit_eqI)

lemma rule_matches_eq:
  assumes "rr_prefix_length rule \<le> 32"
  shows "rule_matches target rule = Inr (prefix_matches target rule)"
proof (cases "rr_prefix_length rule = 0")
  case True
  then show ?thesis by (simp add: rule_matches_def prefix_matches_def)
next
  case False
  let ?k = "32 - unat (rr_prefix_length rule)" let ?x = "target XOR rr_route_prefix rule"
  have "drop_bit ?k ?x = 0 \<longleftrightarrow> (\<forall>i. \<not> bit (drop_bit ?k ?x) i)" by (rule word_zero_iff)
  also have "\<dots> \<longleftrightarrow> (\<forall>i < 32. ?k \<le> i \<longrightarrow> bit target i = bit (rr_route_prefix rule) i)"
  proof
    assume *: "\<forall>i. \<not> bit (drop_bit ?k ?x) i"
    show "\<forall>i < 32. ?k \<le> i \<longrightarrow> bit target i = bit (rr_route_prefix rule) i"
    proof (intro allI impI)
      fix i assume "i < 32" "?k \<le> i"
      with * [rule_format, of "i - ?k"] show "bit target i = bit (rr_route_prefix rule) i"
        by (simp add: bit_drop_bit_eq bit_xor_iff)
    qed
  next
    assume "\<forall>i < 32. ?k \<le> i \<longrightarrow> bit target i = bit (rr_route_prefix rule) i"
    then show "\<forall>i. \<not> bit (drop_bit ?k ?x) i"
      using bit_imp_le_length [of ?x] by (fastforce simp: bit_drop_bit_eq bit_xor_iff)
  qed
  finally show ?thesis using False assms by (simp add: rule_matches_def prefix_matches_def not_less)
qed

text \<open>The loop keeps the best rule of the part of the list it has seen.\<close>

definition best_so_far :: "u32 \<Rightarrow> RouteRule list \<Rightarrow> u8 \<Rightarrow> RouteRule option \<Rightarrow> bool" where
  "best_so_far target seen longest m \<longleftrightarrow> is_best_rule target seen m \<and>
     longest = (case m of None \<Rightarrow> 0 | Some best \<Rightarrow> rr_prefix_length best)"

lemma is_best_ruleI:
  "prefix_matches target best \<Longrightarrow>
   \<forall>x \<in> set before. prefix_matches target x \<longrightarrow> rr_prefix_length x \<le> rr_prefix_length best \<Longrightarrow>
   \<forall>x \<in> set after. prefix_matches target x \<longrightarrow> rr_prefix_length x < rr_prefix_length best \<Longrightarrow>
   is_best_rule target (before @ best # after) (Some best)"
  unfolding is_best_rule_def by auto

lemma best_so_far_step:
  assumes "best_so_far target seen longest m"
  shows "prefix_matches target rule \<Longrightarrow> longest \<le> rr_prefix_length rule \<Longrightarrow>
      best_so_far target (seen @ [rule]) (rr_prefix_length rule) (Some rule)"
    and "\<not> (prefix_matches target rule \<and> longest \<le> rr_prefix_length rule) \<Longrightarrow>
      best_so_far target (seen @ [rule]) longest m"
proof -
  assume new: "prefix_matches target rule" "longest \<le> rr_prefix_length rule"
  have "rr_prefix_length x \<le> rr_prefix_length rule" if "x \<in> set seen" "prefix_matches target x" for x
  proof (cases m)
    case None
    with assms that show ?thesis by (auto simp: best_so_far_def is_best_rule_def)
  next
    case (Some best)
    with assms obtain before after where b: "seen = before @ best # after" "longest = rr_prefix_length best"
      "\<forall>x \<in> set before. prefix_matches target x \<longrightarrow> rr_prefix_length x \<le> rr_prefix_length best"
      "\<forall>x \<in> set after. prefix_matches target x \<longrightarrow> rr_prefix_length x < rr_prefix_length best"
      by (auto simp: best_so_far_def is_best_rule_def)
    then have "rr_prefix_length x \<le> rr_prefix_length best" using that by (auto simp: order.strict_iff_order)
    with b(2) new show ?thesis by simp
  qed
  with new is_best_ruleI [of target rule seen "[]"]
  show "best_so_far target (seen @ [rule]) (rr_prefix_length rule) (Some rule)" by (simp add: best_so_far_def)
next
  assume old: "\<not> (prefix_matches target rule \<and> longest \<le> rr_prefix_length rule)"
  show "best_so_far target (seen @ [rule]) longest m"
  proof (cases m)
    case None
    with assms old show ?thesis by (auto simp: best_so_far_def is_best_rule_def)
  next
    case (Some best)
    with assms obtain before after where "seen = before @ best # after" "prefix_matches target best"
      "\<forall>x \<in> set before. prefix_matches target x \<longrightarrow> rr_prefix_length x \<le> rr_prefix_length best"
      "\<forall>x \<in> set after. prefix_matches target x \<longrightarrow> rr_prefix_length x < rr_prefix_length best"
      "longest = rr_prefix_length best"
      by (auto simp: best_so_far_def is_best_rule_def)
    with Some old is_best_ruleI [of target best before "after @ [rule]"] show ?thesis
      by (auto simp: best_so_far_def not_le)
  qed
qed

lemma match_loop_best:
  assumes "rules_ok rules" and "best_so_far target seen longest m"
  shows "\<exists>m'. match_loop target rules longest m = Inr m' \<and> is_best_rule target (seen @ rules) m'"
  using assms
proof (induction rules arbitrary: seen longest m)
  case Nil
  then show ?case by (simp add: best_so_far_def)
next
  case (Cons rule rules)
  then have ok: "rules_ok rules" and m: "rule_matches target rule = Inr (prefix_matches target rule)"
    by (simp_all add: rules_ok_def rule_matches_eq)
  show ?case
  proof (cases "prefix_matches target rule \<and> longest \<le> rr_prefix_length rule")
    case True
    with Cons.IH [OF ok best_so_far_step(1) [OF Cons.prems(2)]] m show ?thesis by simp
  next
    case False
    with Cons.IH [OF ok best_so_far_step(2) [OF Cons.prems(2)]] m show ?thesis by auto
  qed
qed

lemma best_rule_unique:
  assumes "is_best_rule target rules m" and "is_best_rule target rules m'"
  shows "m = m'"
proof (cases m; cases m')
  fix a b assume m: "m = Some a" "m' = Some b"
  obtain p q where a: "rules = p @ a # q" "prefix_matches target a"
      "\<forall>x \<in> set p. prefix_matches target x \<longrightarrow> rr_prefix_length x \<le> rr_prefix_length a"
      "\<forall>x \<in> set q. prefix_matches target x \<longrightarrow> rr_prefix_length x < rr_prefix_length a"
    using assms(1) m by (auto simp: is_best_rule_def)
  obtain p' q' where b: "rules = p' @ b # q'" "prefix_matches target b"
      "\<forall>x \<in> set p'. prefix_matches target x \<longrightarrow> rr_prefix_length x \<le> rr_prefix_length b"
      "\<forall>x \<in> set q'. prefix_matches target x \<longrightarrow> rr_prefix_length x < rr_prefix_length b"
    using assms(2) m by (auto simp: is_best_rule_def)
  from a(1) b(1) have "p @ a # q = p' @ b # q'" by simp
  then consider "a = b" | "a \<in> set p'" "b \<in> set q" | "b \<in> set p" "a \<in> set q'"
    by (auto simp: append_eq_append_conv2 Cons_eq_append_conv append_eq_Cons_conv)
  then show ?thesis
  proof cases
    case 2
    with a(2,4) b(2,3) have "rr_prefix_length b < rr_prefix_length a" "rr_prefix_length a \<le> rr_prefix_length b" by auto
    then show ?thesis by simp
  next
    case 3
    with a(2,3) b(2,4) have "rr_prefix_length a < rr_prefix_length b" "rr_prefix_length b \<le> rr_prefix_length a" by auto
    then show ?thesis by simp
  qed (simp add: m)
qed (use assms in \<open>auto simp: is_best_rule_def\<close>)

section \<open>What \<open>route\<close> does\<close>

text \<open>The specification of forwarding one datagram: where it goes, with its TTL decremented.\<close>

definition forward :: "RouteRule list \<Rightarrow> IPv4Datagram \<Rightarrow> (u64 \<times> IPv4Datagram \<times> Address) option" where
  "forward rules d =
     (case match_loop (ih_dst (id_header d)) rules 0 None of
        Inr (Some rule) \<Rightarrow>
          if ih_ttl (id_header d) \<le> 1 then None
          else Some (rr_interface_num rule,
            d\<lparr>id_header := (id_header d)\<lparr>ih_ttl := ih_ttl (id_header d) - 1\<rparr>\<rparr>,
            case rr_next_hop rule of Some h \<Rightarrow> h | None \<Rightarrow> Address_from_ipv4_numeric (ih_dst (id_header d)))
      | _ \<Rightarrow> None)"

fun send_items :: "Router \<Rightarrow> (u64 \<times> IPv4Datagram \<times> Address) list \<Rightarrow> exn + Router" where
  "send_items r [] = Inr r"
| "send_items r ((N, d, h) # items) = exn_bind (Router_send r N d h) (\<lambda>r. send_items r items)"

definition clear_queue :: "nat \<Rightarrow> Router \<Rightarrow> Router" where
  "clear_queue i r = r\<lparr>ro_interfaces := (ro_interfaces r)[i := (ro_interfaces r ! i)\<lparr>ani_datagrams_out := []\<rparr>]\<rparr>"

definition clear_queues :: "Router \<Rightarrow> Router" where
  "clear_queues r = r\<lparr>ro_interfaces := map (\<lambda>a. a\<lparr>ani_datagrams_out := []\<rparr>) (ro_interfaces r)\<rparr>"

lemma ttl_small: "(t :: u8) \<le> 1 \<longleftrightarrow> t = 0 \<or> t - 1 = 0"
proof
  assume "t \<le> 1"
  then have "unat t \<le> 1" by (simp add: word_le_nat_alt)
  then have "unat t = 0 \<or> unat t = 1" by arith
  then have "t = of_nat 0 \<or> t = of_nat 1" by (metis of_nat_unat ucast_id)
  then show "t = 0 \<or> t - 1 = 0" by auto
qed (auto simp: word_le_nat_alt)

lemma match_loop_ok:
  assumes "rules_ok rules"
  shows "\<exists>m. match_loop target rules 0 None = Inr m \<and> is_best_rule target rules m"
  using match_loop_best [OF assms, of target "[]" 0 None] by (simp add: best_so_far_def is_best_rule_def)

lemma route_one_eq:
  assumes "rules_ok (ro_rule_list r)"
  shows "route_one_datagram r d = send_items r (case forward (ro_rule_list r) d of None \<Rightarrow> [] | Some x \<Rightarrow> [x])"
proof -
  obtain m where m: "match_loop (ih_dst (id_header d)) (ro_rule_list r) 0 None = Inr m"
    using match_loop_ok [OF assms] by blast
  have b: "exn_bind x Inr = x" for x :: "exn + Router" by (cases x) simp_all
  show ?thesis
  proof (cases m)
    case None
    with m show ?thesis by (simp add: route_one_datagram_def forward_def)
  next
    case (Some rule)
    with m show ?thesis
      by (cases "ih_ttl (id_header d) \<le> 1"; cases "rr_next_hop rule")
         (auto simp: route_one_datagram_def forward_def Let_def ttl_small b)
  qed
qed

text \<open>Sending and popping act on different parts of an interface.\<close>

definition map_queue :: "nat \<Rightarrow> (IPv4Datagram list \<Rightarrow> IPv4Datagram list) \<Rightarrow> Router \<Rightarrow> Router" where
  "map_queue i f r = r\<lparr>ro_interfaces := (ro_interfaces r)[i := (ro_interfaces r ! i)
     \<lparr>ani_datagrams_out := f (ani_datagrams_out (ro_interfaces r ! i))\<rparr>]\<rparr>"

lemma Router_pop_map: "Router_pop r i = map_queue i tl r" and clear_queue_map: "clear_queue i r = map_queue i (\<lambda>_. []) r"
  by (simp_all add: Router_pop_def clear_queue_def map_queue_def)

lemma map_queue_fields [simp]:
  "ro_rule_list (map_queue i f r) = ro_rule_list r" "length (ro_interfaces (map_queue i f r)) = length (ro_interfaces r)"
  "i < length (ro_interfaces r) \<Longrightarrow> j < length (ro_interfaces r) \<Longrightarrow>
     Router_queue (map_queue i f r) j = (if i = j then f (Router_queue r j) else Router_queue r j)"
  by (simp_all add: map_queue_def Router_queue_def)

lemma map_queue_twice:
  "i < length (ro_interfaces r) \<Longrightarrow> map_queue i f (map_queue i g r) = map_queue i (\<lambda>q. f (g q)) r"
  by (simp add: map_queue_def)

lemma ani_updates:
  "a\<lparr>ani_datagrams_out := q, ani_interface := n\<rparr> = a\<lparr>ani_interface := n, ani_datagrams_out := q\<rparr>"
  "ani_datagrams_out a = q \<Longrightarrow> a\<lparr>ani_datagrams_out := q\<rparr> = a"
  by (cases a, simp)+

lemma Router_send_map_queue:
  assumes "i < length (ro_interfaces r)"
  shows "Router_send (map_queue i f r) N d h = exn_bind (Router_send r N d h) (\<lambda>r. Inr (map_queue i f r))"
proof (cases "unat N < length (ro_interfaces r)")
  case False
  then show ?thesis by (simp add: Router_send_def Router_interface_def)
next
  case True
  let ?a = "ro_interfaces r ! unat N"
  show ?thesis
  proof (cases "NetworkInterface_send_datagram (ani_interface ?a) d h")
    case (Inl e)
    with True assms show ?thesis
      by (simp add: Router_send_def Router_interface_def map_queue_def nth_list_update)
  next
    case (Inr n)
    with True assms show ?thesis
      by (cases "unat N = i")
         (simp_all add: Router_send_def Router_interface_def map_queue_def nth_list_update list_update_swap ani_updates(1))
  qed
qed

lemma send_items_fields:
  "send_items r items = Inr r' \<Longrightarrow> ro_rule_list r' = ro_rule_list r \<and> length (ro_interfaces r') = length (ro_interfaces r) \<and>
     (\<forall>i < length (ro_interfaces r). Router_queue r' i = Router_queue r i)"
proof (induction items arbitrary: r)
  case (Cons x items)
  obtain N d h where x: "x = (N, d, h)" by (cases x) auto
  with Cons.prems obtain r1 where r1: "Router_send r N d h = Inr r1" "send_items r1 items = Inr r'"
    by (auto simp: exn_bind_Inr)
  with Cons.IH [OF r1(2)] Router_send_fields [OF r1(1)] show ?case by simp
qed simp

lemma send_items_map_queue:
  "i < length (ro_interfaces r) \<Longrightarrow>
     send_items (map_queue i f r) items = exn_bind (send_items r items) (\<lambda>r. Inr (map_queue i f r))"
proof (induction items arbitrary: r)
  case (Cons x items)
  obtain N d h where x: "x = (N, d, h)" by (cases x) auto
  show ?case
  proof (cases "Router_send r N d h")
    case (Inr r1)
    with Cons.IH [of r1] Cons.prems Router_send_fields(2) [OF Inr] x show ?thesis
      by (simp add: Router_send_map_queue)
  qed (use Cons.prems x in \<open>simp add: Router_send_map_queue\<close>)
qed simp

lemma send_items_append:
  "send_items r (xs @ ys) = exn_bind (send_items r xs) (\<lambda>r. send_items r ys)"
  by (induction xs arbitrary: r) (auto simp: exn_bind_assoc)

lemma route_queue_eq:
  assumes "rules_ok (ro_rule_list r)" and "i < length (ro_interfaces r)"
  shows "route_queue r i = exn_bind (send_items r (List.map_filter (forward (ro_rule_list r)) (Router_queue r i)))
    (\<lambda>r. Inr (clear_queue i r))"
  using assms
proof (induction "Router_queue r i" arbitrary: r)
  case Nil
  then have "clear_queue i r = r" by (simp add: clear_queue_def Router_queue_def ani_updates(2))
  with Nil show ?case by (simp add: route_queue.simps [of r i] map_filter_simps)
next
  case (Cons d q)
  let ?x = "case forward (ro_rule_list r) d of None \<Rightarrow> [] | Some x \<Rightarrow> [x]"
  have Q: "Router_queue r i = d # q" using Cons.hyps(2) by simp
  have mf: "List.map_filter (forward (ro_rule_list r)) (d # q) =
      ?x @ List.map_filter (forward (ro_rule_list r)) q"
    by (simp add: map_filter_simps split: option.split)
  have step: "route_queue r i = exn_bind (send_items r ?x) (\<lambda>r. route_queue (Router_pop r i) i)"
    using Cons.prems Q by (subst route_queue.simps) (simp add: route_one_eq)
  show ?case
  proof (cases "send_items r ?x")
    case (Inl e)
    then show ?thesis unfolding step Q mf send_items_append by simp
  next
    case (Inr r1)
    note f = send_items_fields [OF Inr]
    have i: "i < length (ro_interfaces r1)" using f Cons.prems(2) by simp
    let ?r = "map_queue i tl r1"
    have "q = Router_queue ?r i" using f Q Cons.prems(2) i by simp
    from Cons.hyps(1) [OF this] f Cons.prems i have
      "route_queue ?r i = exn_bind (send_items ?r (List.map_filter (forward (ro_rule_list r)) q)) (\<lambda>r. Inr (clear_queue i r))"
      using Q by simp
    also have "\<dots> = exn_bind (send_items r1 (List.map_filter (forward (ro_rule_list r)) q)) (\<lambda>r. Inr (clear_queue i r))"
      unfolding send_items_map_queue [OF i] exn_bind_assoc
      using i by (intro exn_bind_cong [OF refl]) (auto dest: send_items_fields simp: clear_queue_map map_queue_twice)
    finally show ?thesis unfolding step Q mf send_items_append Router_pop_map by (simp add: Inr)
  qed
qed

text \<open>The loop over the interfaces.\<close>

definition clear_list :: "nat list \<Rightarrow> Router \<Rightarrow> Router" where
  "clear_list is r = foldl (\<lambda>r i. clear_queue i r) r is"

lemma send_items_clear:
  "i < length (ro_interfaces r) \<Longrightarrow>
     send_items (clear_queue i r) items = exn_bind (send_items r items) (\<lambda>r. Inr (clear_queue i r))"
  by (simp add: clear_queue_map send_items_map_queue)

lemma route_all_eq:
  assumes "rules_ok (ro_rule_list r)" and "distinct is" and "\<forall>i \<in> set is. i < length (ro_interfaces r)"
  shows "route_all r is = exn_bind
    (send_items r (List.map_filter (forward (ro_rule_list r)) (concat (map (Router_queue r) is))))
    (\<lambda>r. Inr (clear_list is r))"
  using assms
proof (induction "is" arbitrary: r)
  case Nil
  then show ?case by (simp add: map_filter_simps clear_list_def)
next
  case (Cons i "is")
  let ?f = "forward (ro_rule_list r)"
  let ?xs = "List.map_filter ?f (Router_queue r i)" let ?ys = "List.map_filter ?f (concat (map (Router_queue r) is))"
  have i: "i < length (ro_interfaces r)" using Cons.prems by simp
  have mf: "List.map_filter ?f (concat (map (Router_queue r) (i # is))) = ?xs @ ?ys"
    by (simp add: List.map_filter_def)
  have q: "route_queue r i = exn_bind (send_items r ?xs) (\<lambda>r. Inr (clear_queue i r))"
    by (rule route_queue_eq [OF Cons.prems(1) i])
  show ?case
  proof (cases "send_items r ?xs")
    case (Inl e)
    then show ?thesis unfolding mf send_items_append by (simp add: q)
  next
    case (Inr r1)
    note f = send_items_fields [OF Inr]
    let ?r = "clear_queue i r1"
    have same: "map (Router_queue ?r) is = map (Router_queue r) is"
      using Cons.prems f i by (auto simp: clear_queue_map)
    have "route_all ?r is = exn_bind (send_items ?r ?ys) (\<lambda>r. Inr (clear_list is r))"
      using Cons.IH [of ?r] Cons.prems f unfolding same by (simp add: clear_queue_map)
    also have "\<dots> = exn_bind (send_items r1 ?ys) (\<lambda>r. Inr (clear_list (i # is) r))"
      using f i by (simp add: send_items_clear exn_bind_assoc clear_list_def)
    finally show ?thesis unfolding mf send_items_append by (simp add: q Inr)
  qed
qed

lemma clear_list_interfaces:
  "\<forall>i \<in> set is. i < length (ro_interfaces r) \<Longrightarrow> clear_list is r = r\<lparr>ro_interfaces := map
     (\<lambda>i. if i \<in> set is then (ro_interfaces r ! i)\<lparr>ani_datagrams_out := []\<rparr> else ro_interfaces r ! i)
     [0..<length (ro_interfaces r)]\<rparr>"
proof (induction "is" arbitrary: r)
  case Nil
  show ?case by (simp add: clear_list_def map_nth)
next
  case (Cons i "is")
  have "clear_list (i # is) r = clear_list is (clear_queue i r)" by (simp add: clear_list_def)
  with Cons show ?case
    by (auto simp: clear_queue_def nth_list_update intro!: nth_equalityI)
qed

lemma clear_list_all: "clear_list [0..<length (ro_interfaces r)] r = clear_queues r"
proof -
  have "map (\<lambda>i. if i \<in> set [0..<length (ro_interfaces r)] then (ro_interfaces r ! i)\<lparr>ani_datagrams_out := []\<rparr>
      else ro_interfaces r ! i) [0..<length (ro_interfaces r)] = map (\<lambda>a. a\<lparr>ani_datagrams_out := []\<rparr>) (ro_interfaces r)"
    by (rule nth_equalityI) auto
  then show ?thesis by (subst clear_list_interfaces) (simp_all add: clear_queues_def)
qed

section \<open>Examples\<close>

definition rule_to :: "u32 \<Rightarrow> u8 \<Rightarrow> u64 \<Rightarrow> RouteRule" where
  "rule_to prefix len N = \<lparr>rr_route_prefix = prefix, rr_prefix_length = len, rr_next_hop = None, rr_interface_num = N\<rparr>"

abbreviation example_rules :: "RouteRule list" where
  "example_rules \<equiv> [rule_to 0x0a000000 8 0, rule_to 0x0a010000 16 1, rule_to 0 0 2]"

lemma example_rules_ok: "rules_ok example_rules"
  by (simp add: rules_ok_def rule_to_def word_le_nat_alt)

lemma example_match: "match_loop 0x0a010203 example_rules 0 None = Inr (Some (rule_to 0x0a010000 16 1))"
  by (simp add: rule_matches_def rule_to_def word_le_nat_alt word_less_nat_alt drop_bit_eq_div)

abbreviation example_dgram :: IPv4Datagram where
  "example_dgram \<equiv> empty_dgram\<lparr>id_header := (id_header empty_dgram)\<lparr>ih_dst := 0x0a010203\<rparr>\<rparr>"

abbreviation example_ani :: "IPv4Datagram list \<Rightarrow> AsyncNetworkInterface" where
  "example_ani q \<equiv> \<lparr>ani_interface = NetworkInterface_new mac_one (ipv4_address 1 0), ani_datagrams_out = q\<rparr>"

abbreviation example_router :: Router where
  "example_router \<equiv> \<lparr>ro_interfaces = [example_ani [example_dgram], example_ani [], example_ani []],
     ro_rule_list = example_rules\<rparr>"

section \<open>Properties\<close>

text \<open>C23. The loop over the rules finds the longest matching prefix: when every prefix length is
  at most 32 it ends with no rule exactly if no rule's prefix matches the destination, and
  otherwise with the unique rule whose first \<open>prefix_length\<close> bits match, that no matching
  rule exceeds in length, and that was added last among those of its length.\<close>

theorem longest_prefix_match:
  assumes "rules_ok rules"
  shows "\<exists>m. match_loop target rules 0 None = Inr m \<and> is_best_rule target rules m \<and>
     (\<forall>m'. is_best_rule target rules m' \<longrightarrow> m' = m)"
  using match_loop_ok [OF assms, of target] best_rule_unique by blast

theorem longest_prefix_match_witness:
  "rules_ok example_rules \<and> match_loop 0x0a010203 example_rules 0 None = Inr (Some (rule_to 0x0a010000 16 1)) \<and>
   is_best_rule 0x0a010203 example_rules (Some (rule_to 0x0a010000 16 1))"
  using longest_prefix_match [OF example_rules_ok, of "0x0a010203"] example_rules_ok example_match by auto

text \<open>C24. What \<open>route\<close> does: it empties every interface's queue of received datagrams and hands
  exactly those that have a route and a TTL above one to the interface of their route, in
  the order of the interfaces and of arrival, with the TTL decremented by one and the
  route's next hop (or the destination itself on a directly attached network); it throws
  exactly when one of these calls throws.\<close>

theorem route_forwards:
  assumes "rules_ok (ro_rule_list r)"
  shows "Router_route r = exn_bind
    (send_items r (List.map_filter (forward (ro_rule_list r)) (concat (map ani_datagrams_out (ro_interfaces r)))))
    (\<lambda>r. Inr (clear_queues r))"
proof -
  have "map (Router_queue r) [0..<length (ro_interfaces r)] = map ani_datagrams_out (ro_interfaces r)"
    by (auto simp: Router_queue_def intro: nth_equalityI)
  then have e: "Router_route r = exn_bind
      (send_items r (List.map_filter (forward (ro_rule_list r)) (concat (map ani_datagrams_out (ro_interfaces r)))))
      (\<lambda>x. Inr (clear_list [0..<length (ro_interfaces r)] x))"
    using route_all_eq [OF assms, of "[0..<length (ro_interfaces r)]"] by (simp add: Router_route_def)
  show ?thesis unfolding e
    by (intro exn_bind_cong [OF refl]) (metis clear_list_all send_items_fields)
qed

theorem route_forwards_witness:
  "\<exists>r'. Router_route example_router = Inr r' \<and> map ani_datagrams_out (ro_interfaces r') = [[], [], []] \<and>
     ni_pending_list (ani_interface (ro_interfaces r' ! 1)) =
       [(example_dgram\<lparr>id_header := (id_header example_dgram)\<lparr>ih_ttl := 127\<rparr>\<rparr>, ipv4_address 0x0a010203 0)]"
proof -
  let ?d = "example_dgram\<lparr>id_header := (id_header example_dgram)\<lparr>ih_ttl := 127\<rparr>\<rparr>" let ?h = "ipv4_address 0x0a010203 0"
  let ?n = "NetworkInterface_new mac_one (ipv4_address 1 0)"
  have f: "forward example_rules example_dgram = Some (1, ?d, ?h)"
    using example_match by (simp add: forward_def rule_to_def IPv4Header_default_def IPv4Header_DEFAULT_TTL_def
        Address_from_ipv4_numeric_eq word_le_nat_alt)
  obtain g where g: "arp_request_frame mac_one 1 0x0a010203 = Inr g" using arp_request_frame_Inr by blast
  have "NetworkInterface_send_datagram ?n ?d ?h = Inr (push_frame (?n\<lparr>ni_pending_list := [(?d, ?h)],
      ni_blocking_mapping := [0x0a010203 \<mapsto> 0]\<rparr>) g)"
    using g by (subst send_asks [of _ "0x0a010203" _ 1 g]) (simp_all add: NetworkInterface_new_def)
  then have s: "\<exists>r1. send_items example_router [(1, ?d, ?h)] = Inr r1 \<and>
      map ani_datagrams_out (ro_interfaces (clear_queues r1)) = [[], [], []] \<and>
      ni_pending_list (ani_interface (ro_interfaces (clear_queues r1) ! 1)) = [(?d, ?h)]"
    by (simp add: Router_send_def Router_interface_def clear_queues_def push_frame_def)
  have ok: "rules_ok (ro_rule_list example_router)" using example_rules_ok by simp
  show ?thesis using route_forwards [OF ok] s f by (auto simp: map_filter_simps simp del: send_items.simps)
qed

end
