(* ===== verification/TCP_Over_IP.thy ===== *)
theory TCP_Over_IP
  imports Network_Interface TCP_Config
begin

text \<open>
  The adapters that carry TCP segments over other protocols: the configuration class
  \<open>FdAdapterConfig\<close> of \<open>tcp_config.hh\<close>, the common base and the UDP adapter of
  \<open>fd_adapter.hh\<close> and \<open>fd_adapter.cc\<close>, the conversion to and from IPv4 datagrams of
  \<open>tcp_over_ip.cc\<close>, the TUN and TAP adapters of \<open>tuntap_adapter.hh\<close> and
  \<open>tuntap_adapter.cc\<close>, and the lossy wrapper of \<open>lossy_fd_adapter.hh\<close> (all in
  \<open>libsponge/tcp_helpers\<close>).

  The devices are outside: what a read of the device returned is an argument, what is
  written to it is part of the result. The resolver and \<open>inet_ntoa\<close> (which gets the address
  in host order here) are parameters, as is the random number generator.
\<close>

section \<open>Configuration and base class\<close>

record FdAdapterConfig =
  fac_source :: Address
  fac_destination :: Address
  fac_loss_rate_dn :: u16
  fac_loss_rate_up :: u16

definition FdAdapterConfig_default :: "resolver \<Rightarrow> exn + FdAdapterConfig" where
  "FdAdapterConfig_default res =
     exn_bind (Address_of_ip res ''0'' 0) (\<lambda>source.
     exn_bind (Address_of_ip res ''0'' 0) (\<lambda>destination.
       Inr \<lparr>fac_source = source, fac_destination = destination, fac_loss_rate_dn = 0, fac_loss_rate_up = 0\<rparr>))"

record FdAdapterBase =
  fab_cfg :: FdAdapterConfig
  fab_listen :: bool

definition FdAdapterBase_new :: "FdAdapterConfig \<Rightarrow> FdAdapterBase" where
  "FdAdapterBase_new cfg = \<lparr>fab_cfg = cfg, fab_listen = False\<rparr>"

definition FdAdapterBase_set_listening :: "FdAdapterBase \<Rightarrow> bool \<Rightarrow> FdAdapterBase" where
  "FdAdapterBase_set_listening a l = a\<lparr>fab_listen := l\<rparr>"

definition FdAdapterBase_listening :: "FdAdapterBase \<Rightarrow> bool" where
  "FdAdapterBase_listening a = fab_listen a"

definition FdAdapterBase_config :: "FdAdapterBase \<Rightarrow> FdAdapterConfig" where
  "FdAdapterBase_config a = fab_cfg a"

definition FdAdapterBase_config_mut :: "FdAdapterBase \<Rightarrow> (FdAdapterConfig \<Rightarrow> FdAdapterConfig) \<Rightarrow> FdAdapterBase" where
  "FdAdapterBase_config_mut a f = a\<lparr>fab_cfg := f (fab_cfg a)\<rparr>"

definition FdAdapterBase_tick :: "FdAdapterBase \<Rightarrow> u64 \<Rightarrow> FdAdapterBase" where
  "FdAdapterBase_tick a ms = a"

section \<open>TCP in UDP\<close>

text \<open>The argument is the datagram that \<open>recv\<close> returned: its source address and payload.\<close>

definition TCPOverUDPSocketAdapter_read ::
  "FdAdapterBase \<Rightarrow> Address \<Rightarrow> bytes \<Rightarrow> FdAdapterBase \<times> TCPSegment option" where
  "TCPOverUDPSocketAdapter_read a source_address payload =
     (if \<not> FdAdapterBase_listening a \<and> \<not> Address_eq source_address (fac_destination (FdAdapterBase_config a))
      then (a, None)
      else
        let (res, seg) = TCPSegment_parse TCPSegment_default (Buffer_new payload) 0
        in if res \<noteq> NoError then (a, None)
           else if FdAdapterBase_listening a then
             if th_syn (ts_header seg) \<and> \<not> th_rst (ts_header seg) then
               (FdAdapterBase_set_listening
                  (FdAdapterBase_config_mut a (\<lambda>cfg. cfg\<lparr>fac_destination := source_address\<rparr>)) False, Some seg)
             else (a, None)
           else (a, Some seg))"

text \<open>The result is the segment with its ports set, and what goes to \<open>sendto\<close>.\<close>

definition TCPOverUDPSocketAdapter_write ::
  "resolver \<Rightarrow> FdAdapterBase \<Rightarrow> TCPSegment \<Rightarrow> exn + TCPSegment \<times> Address \<times> BufferList" where
  "TCPOverUDPSocketAdapter_write res a seg =
     exn_bind (Address_port res (fac_source (FdAdapterBase_config a))) (\<lambda>sport.
     exn_bind (Address_port res (fac_destination (FdAdapterBase_config a))) (\<lambda>dport.
       let seg = seg\<lparr>ts_header := (ts_header seg)\<lparr>th_sport := sport, th_dport := dport\<rparr>\<rparr>
       in exn_bind (TCPSegment_serialize seg 0) (\<lambda>payload.
            Inr (seg, fac_destination (FdAdapterBase_config a), payload))))"

section \<open>TCP in IPv4\<close>

text \<open>
  An exception carries no state: should the resolver fail on the second address, the code
  leaves the adapter with its source address already replaced.
\<close>

definition accept_peer ::
  "resolver \<Rightarrow> (u32 \<Rightarrow> string) \<Rightarrow> FdAdapterBase \<Rightarrow> IPv4Header \<Rightarrow> TCPSegment \<Rightarrow> exn + FdAdapterBase" where
  "accept_peer res inet_ntoa a header tcp_seg =
     exn_bind (Address_port res (fac_source (FdAdapterBase_config a))) (\<lambda>port.
     exn_bind (Address_of_ip res (inet_ntoa (ih_dst header)) port) (\<lambda>source.
     exn_bind (Address_of_ip res (inet_ntoa (ih_src header)) (th_sport (ts_header tcp_seg))) (\<lambda>destination.
       let a = FdAdapterBase_config_mut a (\<lambda>cfg. cfg\<lparr>fac_source := source\<rparr>);
           a = FdAdapterBase_config_mut a (\<lambda>cfg. cfg\<lparr>fac_destination := destination\<rparr>)
       in Inr (FdAdapterBase_set_listening a False))))"

definition unwrap_segment ::
  "resolver \<Rightarrow> (u32 \<Rightarrow> string) \<Rightarrow> FdAdapterBase \<Rightarrow> IPv4Header \<Rightarrow> TCPSegment \<Rightarrow> exn + FdAdapterBase \<times> TCPSegment option" where
  "unwrap_segment res inet_ntoa a header tcp_seg =
     exn_bind (Address_port res (fac_source (FdAdapterBase_config a))) (\<lambda>own_port.
       if th_dport (ts_header tcp_seg) \<noteq> own_port then Inr (a, None)
       else if FdAdapterBase_listening a \<and> \<not> (th_syn (ts_header tcp_seg) \<and> \<not> th_rst (ts_header tcp_seg))
       then Inr (a, None)
       else
         exn_bind (if FdAdapterBase_listening a then accept_peer res inet_ntoa a header tcp_seg else Inr a) (\<lambda>a.
         exn_bind (Address_port res (fac_destination (FdAdapterBase_config a))) (\<lambda>peer_port.
           Inr (a, if th_sport (ts_header tcp_seg) \<noteq> peer_port then None else Some tcp_seg))))"

definition unwrap_tcp_in_ip ::
  "resolver \<Rightarrow> (u32 \<Rightarrow> string) \<Rightarrow> FdAdapterBase \<Rightarrow> IPv4Datagram \<Rightarrow> exn + FdAdapterBase \<times> TCPSegment option" where
  "unwrap_tcp_in_ip res inet_ntoa a ip_dgram =
     (let header = id_header ip_dgram; listening = FdAdapterBase_listening a
      in exn_bind (if listening then Inr (ih_dst header) else Address_ipv4_numeric (fac_source (FdAdapterBase_config a))) (\<lambda>own_ip.
           if \<not> listening \<and> ih_dst header \<noteq> own_ip then Inr (a, None)
           else
             exn_bind (if listening then Inr (ih_src header) else Address_ipv4_numeric (fac_destination (FdAdapterBase_config a))) (\<lambda>peer_ip.
               if \<not> listening \<and> ih_src header \<noteq> peer_ip then Inr (a, None)
               else if ih_proto header \<noteq> IPv4Header_PROTO_TCP then Inr (a, None)
               else
                 exn_bind (BufferList_to_Buffer (id_payload ip_dgram)) (\<lambda>payload.
                   let (result, tcp_seg) = TCPSegment_parse TCPSegment_default payload (IPv4Header_pseudo_cksum header)
                   in if result \<noteq> NoError then Inr (a, None)
                      else unwrap_segment res inet_ntoa a header tcp_seg))))"

definition wrap_tcp_in_ip :: "resolver \<Rightarrow> FdAdapterBase \<Rightarrow> TCPSegment \<Rightarrow> exn + TCPSegment \<times> IPv4Datagram" where
  "wrap_tcp_in_ip res a seg =
     exn_bind (Address_port res (fac_source (FdAdapterBase_config a))) (\<lambda>sport.
     exn_bind (Address_port res (fac_destination (FdAdapterBase_config a))) (\<lambda>dport.
     exn_bind (Address_ipv4_numeric (fac_source (FdAdapterBase_config a))) (\<lambda>src.
     exn_bind (Address_ipv4_numeric (fac_destination (FdAdapterBase_config a))) (\<lambda>dst.
       let seg = seg\<lparr>ts_header := (ts_header seg)\<lparr>th_sport := sport, th_dport := dport\<rparr>\<rparr>;
           header = IPv4Header_default\<lparr>ih_src := src, ih_dst := dst\<rparr>;
           header = header\<lparr>ih_len := ucast (ucast (ih_hlen header) * 4 + ucast (th_doff (ts_header seg)) * 4 +
                                            Buffer_size (ts_payload seg) :: u64)\<rparr>
       in exn_bind (TCPSegment_serialize seg (IPv4Header_pseudo_cksum header)) (\<lambda>payload.
            Inr (seg, \<lparr>id_header = header, id_payload = payload\<rparr>))))))"

section \<open>The TUN adapter\<close>

definition TCPOverIPv4OverTunFdAdapter_read ::
  "resolver \<Rightarrow> (u32 \<Rightarrow> string) \<Rightarrow> FdAdapterBase \<Rightarrow> bytes \<Rightarrow> exn + FdAdapterBase \<times> TCPSegment option" where
  "TCPOverIPv4OverTunFdAdapter_read res inet_ntoa a input =
     (let (result, ip_dgram) = IPv4Datagram_parse IPv4Datagram_default (Buffer_new input)
      in if result \<noteq> NoError then Inr (a, None) else unwrap_tcp_in_ip res inet_ntoa a ip_dgram)"

definition TCPOverIPv4OverTunFdAdapter_write ::
  "resolver \<Rightarrow> FdAdapterBase \<Rightarrow> TCPSegment \<Rightarrow> exn + TCPSegment \<times> BufferList" where
  "TCPOverIPv4OverTunFdAdapter_write res a seg =
     exn_bind (wrap_tcp_in_ip res a seg) (\<lambda>(seg, ip_dgram).
     exn_bind (IPv4Datagram_serialize ip_dgram) (\<lambda>output. Inr (seg, output)))"

section \<open>The TAP adapter\<close>

text \<open>\<open>ea_tap\<close> holds what was written to the TAP device, oldest first.\<close>

record TCPOverIPv4OverEthernetAdapter =
  ea_base :: FdAdapterBase
  ea_interface :: NetworkInterface
  ea_next_hop :: Address
  ea_tap :: "BufferList list"

definition TCPOverIPv4OverEthernetAdapter_new ::
  "FdAdapterConfig \<Rightarrow> EthernetAddress \<Rightarrow> Address \<Rightarrow> Address \<Rightarrow> TCPOverIPv4OverEthernetAdapter" where
  "TCPOverIPv4OverEthernetAdapter_new cfg eth_address ip_address next_hop =
     \<lparr>ea_base = FdAdapterBase_new cfg, ea_interface = NetworkInterface_new eth_address ip_address,
      ea_next_hop = next_hop, ea_tap = [EthernetFrame_serialize EthernetFrame_default]\<rparr>"

text \<open>The loop of \<open>send_pending\<close> over the queue of the interface.\<close>

fun send_frames :: "EthernetFrame list \<Rightarrow> BufferList list \<Rightarrow> BufferList list" where
  "send_frames [] tap = tap"
| "send_frames (frame # frames_out) tap = send_frames frames_out (tap @ [EthernetFrame_serialize frame])"

definition send_pending :: "TCPOverIPv4OverEthernetAdapter \<Rightarrow> TCPOverIPv4OverEthernetAdapter" where
  "send_pending a =
     a\<lparr>ea_tap := send_frames (ni_frames_out (ea_interface a)) (ea_tap a),
       ea_interface := (ea_interface a)\<lparr>ni_frames_out := []\<rparr>\<rparr>"

definition TCPOverIPv4OverEthernetAdapter_read ::
  "resolver \<Rightarrow> (u32 \<Rightarrow> string) \<Rightarrow> TCPOverIPv4OverEthernetAdapter \<Rightarrow> bytes \<Rightarrow>
     exn + TCPOverIPv4OverEthernetAdapter \<times> TCPSegment option" where
  "TCPOverIPv4OverEthernetAdapter_read res inet_ntoa a input =
     (let (result, frame) = EthernetFrame_parse EthernetFrame_default (Buffer_new input)
      in if result \<noteq> NoError then Inr (a, None)
         else
           exn_bind (NetworkInterface_recv_frame (ea_interface a) frame) (\<lambda>(interface, ip_dgram).
             let a = send_pending (a\<lparr>ea_interface := interface\<rparr>)
             in case ip_dgram of
                  None \<Rightarrow> Inr (a, None)
                | Some d \<Rightarrow>
                    exn_bind (unwrap_tcp_in_ip res inet_ntoa (ea_base a) d) (\<lambda>(base, seg).
                      Inr (a\<lparr>ea_base := base\<rparr>, seg))))"

definition TCPOverIPv4OverEthernetAdapter_tick ::
  "TCPOverIPv4OverEthernetAdapter \<Rightarrow> u64 \<Rightarrow> TCPOverIPv4OverEthernetAdapter" where
  "TCPOverIPv4OverEthernetAdapter_tick a ms_since_last_tick =
     send_pending (a\<lparr>ea_interface := NetworkInterface_tick (ea_interface a) ms_since_last_tick\<rparr>)"

definition TCPOverIPv4OverEthernetAdapter_write ::
  "resolver \<Rightarrow> TCPOverIPv4OverEthernetAdapter \<Rightarrow> TCPSegment \<Rightarrow> exn + TCPOverIPv4OverEthernetAdapter \<times> TCPSegment" where
  "TCPOverIPv4OverEthernetAdapter_write res a seg =
     exn_bind (wrap_tcp_in_ip res (ea_base a) seg) (\<lambda>(seg, ip_dgram).
     exn_bind (NetworkInterface_send_datagram (ea_interface a) ip_dgram (ea_next_hop a)) (\<lambda>interface.
       Inr (send_pending (a\<lparr>ea_interface := interface\<rparr>), seg)))"

section \<open>The lossy wrapper\<close>

text \<open>
  \<open>'g\<close> is the state of the random number generator, \<open>rand\<close> draws a number from it; \<open>'a\<close> is
  the adapter inside, with its operations as arguments.
\<close>

record ('g, 'a) LossyFdAdapter =
  lo_rand :: 'g
  lo_adapter :: 'a

definition should_drop ::
  "('g \<Rightarrow> u32 \<times> 'g) \<Rightarrow> ('a \<Rightarrow> FdAdapterConfig) \<Rightarrow> ('g, 'a) LossyFdAdapter \<Rightarrow> bool \<Rightarrow> bool \<times> ('g, 'a) LossyFdAdapter" where
  "should_drop rand config l uplink =
     (let cfg = config (lo_adapter l);
          loss = (if uplink then fac_loss_rate_up cfg else fac_loss_rate_dn cfg)
      in if loss = 0 then (False, l)
         else let (v, g) = rand (lo_rand l) in ((ucast v :: u16) < loss, l\<lparr>lo_rand := g\<rparr>))"

definition LossyFdAdapter_read ::
  "('g \<Rightarrow> u32 \<times> 'g) \<Rightarrow> ('a \<Rightarrow> FdAdapterConfig) \<Rightarrow> ('a \<Rightarrow> exn + 'a \<times> TCPSegment option) \<Rightarrow>
     ('g, 'a) LossyFdAdapter \<Rightarrow> exn + ('g, 'a) LossyFdAdapter \<times> TCPSegment option" where
  "LossyFdAdapter_read rand config read l =
     exn_bind (read (lo_adapter l)) (\<lambda>(adapter, ret).
       let (drop, l) = should_drop rand config (l\<lparr>lo_adapter := adapter\<rparr>) False
       in Inr (l, if drop then None else ret))"

definition LossyFdAdapter_write ::
  "('g \<Rightarrow> u32 \<times> 'g) \<Rightarrow> ('a \<Rightarrow> FdAdapterConfig) \<Rightarrow> ('a \<Rightarrow> TCPSegment \<Rightarrow> exn + 'a) \<Rightarrow>
     ('g, 'a) LossyFdAdapter \<Rightarrow> TCPSegment \<Rightarrow> exn + ('g, 'a) LossyFdAdapter" where
  "LossyFdAdapter_write rand config write l seg =
     (let (drop, l) = should_drop rand config l True
      in if drop then Inr l
         else exn_bind (write (lo_adapter l) seg) (\<lambda>adapter. Inr (l\<lparr>lo_adapter := adapter\<rparr>)))"

text \<open>The calls passed on to the adapter inside.\<close>

definition LossyFdAdapter_set_listening ::
  "('a \<Rightarrow> bool \<Rightarrow> 'a) \<Rightarrow> ('g, 'a) LossyFdAdapter \<Rightarrow> bool \<Rightarrow> ('g, 'a) LossyFdAdapter" where
  "LossyFdAdapter_set_listening set_listening lossy l = lossy\<lparr>lo_adapter := set_listening (lo_adapter lossy) l\<rparr>"

definition LossyFdAdapter_config :: "('a \<Rightarrow> FdAdapterConfig) \<Rightarrow> ('g, 'a) LossyFdAdapter \<Rightarrow> FdAdapterConfig" where
  "LossyFdAdapter_config config lossy = config (lo_adapter lossy)"

definition LossyFdAdapter_config_mut ::
  "('a \<Rightarrow> (FdAdapterConfig \<Rightarrow> FdAdapterConfig) \<Rightarrow> 'a) \<Rightarrow> ('g, 'a) LossyFdAdapter \<Rightarrow>
     (FdAdapterConfig \<Rightarrow> FdAdapterConfig) \<Rightarrow> ('g, 'a) LossyFdAdapter" where
  "LossyFdAdapter_config_mut config_mut lossy f = lossy\<lparr>lo_adapter := config_mut (lo_adapter lossy) f\<rparr>"

definition LossyFdAdapter_tick ::
  "('a \<Rightarrow> u64 \<Rightarrow> 'a) \<Rightarrow> ('g, 'a) LossyFdAdapter \<Rightarrow> u64 \<Rightarrow> ('g, 'a) LossyFdAdapter" where
  "LossyFdAdapter_tick tick lossy ms_since_last_tick = lossy\<lparr>lo_adapter := tick (lo_adapter lossy) ms_since_last_tick\<rparr>"

section \<open>Through the IPv4 layer\<close>

lemmas adapter_defs = FdAdapterBase_listening_def FdAdapterBase_config_def FdAdapterBase_config_mut_def
  FdAdapterBase_set_listening_def

abbreviation with_ports :: "TCPSegment \<Rightarrow> u16 \<Rightarrow> u16 \<Rightarrow> TCPSegment" where
  "with_ports seg sp dp \<equiv> seg\<lparr>ts_header := (ts_header seg)\<lparr>th_sport := sp, th_dport := dp\<rparr>\<rparr>"

text \<open>The bytes of a segment on the wire.\<close>

definition tcp_wire :: "TCPSegment \<Rightarrow> u32 \<Rightarrow> bytes" where
  "tcp_wire seg ck = tcp_head (ts_header seg) @ u16_bytes (tcp_checksum seg ck) @ tcp_tail seg"

lemma tcp_wire_length:
  assumes "tcp_header_ok (ts_header seg)"
  shows "length (tcp_wire seg ck) = 4 * unat (th_doff (ts_header seg)) + length (Buffer_str (ts_payload seg))"
  using assms by (auto simp: tcp_wire_def tcp_tail_def tcp_padding_def tcp_header_ok_def word_le_nat_alt)

lemma frame_lt64: "n < 131072 \<Longrightarrow> n < (2::nat) ^ 64"
  by simp

text \<open>Segments that fit into one datagram.\<close>

definition seg_fits :: "TCPSegment \<Rightarrow> bool" where
  "seg_fits seg \<longleftrightarrow> tcp_header_ok (ts_header seg) \<and>
     20 + 4 * unat (th_doff (ts_header seg)) + length (Buffer_str (ts_payload seg)) \<le> 65535"

lemma default_hlen: "ih_hlen IPv4Header_default = 5" "ih_ver IPv4Header_default = 4"
  "ih_offset IPv4Header_default = 0" "ih_proto IPv4Header_default = IPv4Header_PROTO_TCP"
  by (simp_all add: IPv4Header_default_def IPv4Header_LENGTH_def)

lemma wrap_len:
  assumes "seg_fits seg"
  shows "unat (ucast (ucast (5 :: u8) * 4 + ucast (th_doff (ts_header seg)) * 4 + Buffer_size (ts_payload seg) :: u64) :: u16) =
    20 + 4 * unat (th_doff (ts_header seg)) + length (Buffer_str (ts_payload seg))"
proof -
  let ?d = "th_doff (ts_header seg)" let ?n = "length (Buffer_str (ts_payload seg))"
  have le: "20 + 4 * unat ?d + ?n \<le> 65535" using assms by (simp add: seg_fits_def)
  have ud: "unat (ucast ?d :: u64) = unat ?d" by (simp add: unat_ucast_widen)
  have "of_nat (20 + 4 * unat ?d + ?n) = (20 + ucast ?d * 4 + Buffer_size (ts_payload seg) :: u64)"
    by (simp add: Buffer_size_def ud [symmetric])
  then have "unat (20 + ucast ?d * 4 + Buffer_size (ts_payload seg) :: u64) = 20 + 4 * unat ?d + ?n"
    using le unat_of_nat64 [of "20 + 4 * unat ?d + ?n"] by (simp add: mult.commute)
  then show ?thesis using le by (simp add: unat_ucast)
qed

lemma pseudo_cksum_cksum: "IPv4Header_pseudo_cksum (h\<lparr>ih_cksum := v\<rparr>) = IPv4Header_pseudo_cksum h"
  by (simp add: IPv4Header_pseudo_cksum_def IPv4Header_payload_length_def)

lemma wrap_ok:
  assumes res: "resolver_numeric res ntoa" and fits: "seg_fits seg"
    and cfg: "fac_source (fab_cfg a) = ipv4_address s sp" "fac_destination (fab_cfg a) = ipv4_address d dp"
  shows "\<exists>dg. wrap_tcp_in_ip res a seg = Inr (with_ports seg sp dp, dg) \<and> ip_datagram_ok dg \<and>
     ih_src (id_header dg) = s \<and> ih_dst (id_header dg) = d \<and> ih_proto (id_header dg) = IPv4Header_PROTO_TCP \<and>
     BufferList_concatenate (id_payload dg) = tcp_wire (with_ports seg sp dp) (IPv4Header_pseudo_cksum (id_header dg))"
proof -
  let ?seg = "with_ports seg sp dp"
  let ?len = "ucast (ucast (5 :: u8) * 4 + ucast (th_doff (ts_header seg)) * 4 + Buffer_size (ts_payload seg) :: u64) :: u16"
  let ?h = "IPv4Header_default\<lparr>ih_src := s, ih_dst := d, ih_len := ?len\<rparr>"
  have ok: "tcp_header_ok (ts_header ?seg)" "seg_fits ?seg" using fits by (simp_all add: seg_fits_def tcp_header_ok_def)
  obtain bl where bl: "TCPSegment_serialize ?seg (IPv4Header_pseudo_cksum ?h) = Inr bl"
    "BufferList_concatenate bl = tcp_wire ?seg (IPv4Header_pseudo_cksum ?h)"
    using TCPSegment_serialize_eq [OF ok(1)] by (auto simp: tcp_wire_def)
  have "wrap_tcp_in_ip res a seg = Inr (?seg, \<lparr>id_header = ?h, id_payload = bl\<rparr>)"
    using bl(1) by (simp add: wrap_tcp_in_ip_def adapter_defs cfg Address_accessors_numeric [OF res] default_hlen)
  moreover have "ip_datagram_ok \<lparr>id_header = ?h, id_payload = bl\<rparr>"
    unfolding ip_datagram_ok_def using bl(2) tcp_wire_length [OF ok(1)] wrap_len [OF fits]
    by (simp add: ip_header_ok_def ip_fields_ok_def default_hlen word_less_nat_alt word_le_nat_alt)
  ultimately show ?thesis using bl(2) by (simp add: default_hlen)
qed

text \<open>
  Who takes a segment from \<open>s:sp\<close> to \<open>d:dp\<close>: an adapter connected that way round, or one that
  listens on the port, if the segment opens a connection.
\<close>

definition takes_from :: "FdAdapterBase \<Rightarrow> u32 \<Rightarrow> u16 \<Rightarrow> u32 \<Rightarrow> u16 \<Rightarrow> TCPHeader \<Rightarrow> bool" where
  "takes_from b s sp d dp h \<longleftrightarrow>
     (if fab_listen b then th_syn h \<and> \<not> th_rst h \<and> (\<exists>ip. fac_source (fab_cfg b) = ipv4_address ip dp)
      else fac_source (fab_cfg b) = ipv4_address d dp \<and> fac_destination (fab_cfg b) = ipv4_address s sp)"

abbreviation connected :: "FdAdapterBase \<Rightarrow> u32 \<Rightarrow> u16 \<Rightarrow> u32 \<Rightarrow> u16 \<Rightarrow> FdAdapterBase" where
  "connected b s sp d dp \<equiv> \<lparr>fab_cfg = (fab_cfg b)\<lparr>fac_source := ipv4_address d dp, fac_destination := ipv4_address s sp\<rparr>,
     fab_listen = False\<rparr>"

lemma connected_self: "takes_from b s sp d dp h \<Longrightarrow> \<not> fab_listen b \<Longrightarrow> connected b s sp d dp = b"
  by (cases b; cases "fab_cfg b") (auto simp: takes_from_def)

lemma unwrap_segment_ok:
  assumes res: "resolver_numeric res ntoa" and b: "takes_from b s sp d dp (ts_header seg)"
    and h: "ih_src h = s" "ih_dst h = d" and p: "th_sport (ts_header seg) = sp" "th_dport (ts_header seg) = dp"
  shows "unwrap_segment res ntoa b h seg = Inr (connected b s sp d dp, Some seg)"
proof (cases "fab_listen b")
  case True
  then obtain ip where "fac_source (fab_cfg b) = ipv4_address ip dp" "th_syn (ts_header seg)" "\<not> th_rst (ts_header seg)"
    using b by (auto simp: takes_from_def)
  with True h p show ?thesis
    by (simp add: unwrap_segment_def accept_peer_def adapter_defs Address_accessors_numeric [OF res]
        Address_of_ip_numeric [OF res])
next
  case False
  with b h p have "unwrap_segment res ntoa b h seg = Inr (b, Some seg)"
    by (simp add: unwrap_segment_def takes_from_def adapter_defs Address_accessors_numeric [OF res])
  with connected_self [OF b False] show ?thesis by simp
qed

lemma unwrap_ok:
  assumes res: "resolver_numeric res ntoa" and b: "takes_from b s sp d dp (ts_header seg)" and fits: "seg_fits seg"
    and h: "ih_src h = s" "ih_dst h = d" "ih_proto h = IPv4Header_PROTO_TCP"
    and p: "th_sport (ts_header seg) = sp" "th_dport (ts_header seg) = dp"
    and buf: "buffer_inv buf" "Buffer_str buf = tcp_wire seg (IPv4Header_pseudo_cksum h)"
  shows "\<exists>seg'. unwrap_tcp_in_ip res ntoa b \<lparr>id_header = h, id_payload = [buf]\<rparr> = Inr (connected b s sp d dp, Some seg') \<and>
     ts_header seg' = (ts_header seg)\<lparr>th_cksum := tcp_checksum seg (IPv4Header_pseudo_cksum h)\<rparr> \<and>
     Buffer_str (ts_payload seg') = Buffer_str (ts_payload seg)"
proof -
  have "unat (IPv4Header_pseudo_cksum h) \<le> 10000000" using pseudo_cksum_bound [of h] by simp
  with TCPSegment_parse_wire [of seg _ buf TCPSegment_default] fits buf obtain seg' where
    seg': "TCPSegment_parse TCPSegment_default buf (IPv4Header_pseudo_cksum h) = (NoError, seg')"
    "ts_header seg' = (ts_header seg)\<lparr>th_cksum := tcp_checksum seg (IPv4Header_pseudo_cksum h)\<rparr>"
    "Buffer_str (ts_payload seg') = Buffer_str (ts_payload seg)"
    by (auto simp: seg_fits_def tcp_wire_def)
  have "takes_from b s sp d dp (ts_header seg')" using b seg'(2) by (simp add: takes_from_def)
  with unwrap_segment_ok [OF res this h(1,2)] p seg' have
    u: "unwrap_segment res ntoa b h seg' = Inr (connected b s sp d dp, Some seg')" by simp
  have "unwrap_tcp_in_ip res ntoa b \<lparr>id_header = h, id_payload = [buf]\<rparr> = unwrap_segment res ntoa b h seg'"
    using b h seg'(1) by (cases "fab_listen b")
      (simp_all add: unwrap_tcp_in_ip_def adapter_defs takes_from_def BufferList_to_Buffer_def Let_def)
  with u seg' show ?thesis by simp
qed

lemma unwrap_received:
  assumes res: "resolver_numeric res ntoa" and fits: "seg_fits seg" and b: "takes_from b s sp d dp (ts_header seg)"
    and dg: "ih_src (id_header dg) = s" "ih_dst (id_header dg) = d" "ih_proto (id_header dg) = IPv4Header_PROTO_TCP"
    and pay: "BufferList_concatenate (id_payload dg) = tcp_wire (with_ports seg sp dp) (IPv4Header_pseudo_cksum (id_header dg))"
    and buf: "buffer_inv buf" "Buffer_str buf = BufferList_concatenate (id_payload dg)"
  shows "\<exists>seg'. unwrap_tcp_in_ip res ntoa b
       \<lparr>id_header = (id_header dg)\<lparr>ih_cksum := v\<rparr>, id_payload = [buf]\<rparr> = Inr (connected b s sp d dp, Some seg') \<and>
     ts_header seg' = (ts_header (with_ports seg sp dp))\<lparr>th_cksum := th_cksum (ts_header seg')\<rparr> \<and>
     Buffer_str (ts_payload seg') = Buffer_str (ts_payload seg)"
proof -
  let ?seg = "with_ports seg sp dp"
  have "takes_from b s sp d dp (ts_header ?seg)" "seg_fits ?seg"
    using b fits by (simp_all add: takes_from_def seg_fits_def tcp_header_ok_def)
  from unwrap_ok [OF res this, of "(id_header dg)\<lparr>ih_cksum := v\<rparr>" buf] dg pay buf
  obtain seg' where "unwrap_tcp_in_ip res ntoa b
      \<lparr>id_header = (id_header dg)\<lparr>ih_cksum := v\<rparr>, id_payload = [buf]\<rparr> = Inr (connected b s sp d dp, Some seg')"
    "ts_header seg' = (ts_header ?seg)\<lparr>th_cksum := tcp_checksum ?seg (IPv4Header_pseudo_cksum (id_header dg))\<rparr>"
    "Buffer_str (ts_payload seg') = Buffer_str (ts_payload ?seg)"
    by (auto simp: pseudo_cksum_cksum)
  then show ?thesis by (intro exI [of _ seg']) simp
qed

section \<open>Examples\<close>

abbreviation cfg_one :: FdAdapterConfig where
  "cfg_one \<equiv> \<lparr>fac_source = ipv4_address 1 1000, fac_destination = ipv4_address 2 80, fac_loss_rate_dn = 0, fac_loss_rate_up = 0\<rparr>"

abbreviation cfg_two :: FdAdapterConfig where
  "cfg_two \<equiv> \<lparr>fac_source = ipv4_address 0 80, fac_destination = ipv4_address 0 0, fac_loss_rate_dn = 0, fac_loss_rate_up = 0\<rparr>"

abbreviation syn_seg :: TCPSegment where
  "syn_seg \<equiv> TCPSegment_default\<lparr>ts_header := TCPHeader_default\<lparr>th_syn := True\<rparr>\<rparr>"

lemma syn_seg_fits: "seg_fits syn_seg"
  by (simp add: seg_fits_def tcp_header_ok_def TCPHeader_default_doff TCPSegment_default_def word_less_nat_alt)

abbreviation listener :: FdAdapterBase where
  "listener \<equiv> \<lparr>fab_cfg = cfg_two, fab_listen = True\<rparr>"

lemma listener_takes: "takes_from listener 1 1000 2 80 (ts_header syn_seg)"
  by (auto simp: takes_from_def TCPHeader_default_def)

section \<open>Properties\<close>

text \<open>C25. Over the TUN device: what one endpoint writes, the other endpoint reads back as the same
  segment, with the ports filled in and the checksums computed on the way, provided the
  receiving adapter is connected to the sender or listens on the port and the segment opens
  a connection; a listening adapter is connected to the sender afterwards.\<close>

theorem tun_roundtrip:
  assumes "resolver_numeric res ntoa" and "seg_fits seg"
    and "fac_source (fab_cfg a) = ipv4_address s sp" and "fac_destination (fab_cfg a) = ipv4_address d dp"
    and "takes_from b s sp d dp (ts_header seg)"
  shows "\<exists>bl seg'. TCPOverIPv4OverTunFdAdapter_write res a seg = Inr (with_ports seg sp dp, bl) \<and>
     TCPOverIPv4OverTunFdAdapter_read res ntoa b (BufferList_concatenate bl) = Inr (connected b s sp d dp, Some seg') \<and>
     ts_header seg' = (ts_header (with_ports seg sp dp))\<lparr>th_cksum := th_cksum (ts_header seg')\<rparr> \<and>
     Buffer_str (ts_payload seg') = Buffer_str (ts_payload seg)"
proof -
  obtain dg where dg: "wrap_tcp_in_ip res a seg = Inr (with_ports seg sp dp, dg)" "ip_datagram_ok dg"
    "ih_src (id_header dg) = s" "ih_dst (id_header dg) = d" "ih_proto (id_header dg) = IPv4Header_PROTO_TCP"
    "BufferList_concatenate (id_payload dg) = tcp_wire (with_ports seg sp dp) (IPv4Header_pseudo_cksum (id_header dg))"
    using wrap_ok [OF assms(1,2,3,4)] by blast
  obtain bl where bl: "IPv4Datagram_serialize dg = Inr bl" "BufferList_concatenate bl = ip_wire dg"
    using IPv4Datagram_serialize_wire [OF dg(2)] by blast
  have "length (ip_wire dg) < 2 ^ 64" unfolding ip_wire_length [OF dg(2)] by (simp add: less_trans [OF unat_lt16])
  from IPv4Datagram_parse_wire(2) [OF dg(2) buffer_inv_new [OF this], of IPv4Datagram_default] obtain buf where
    buf: "IPv4Datagram_parse IPv4Datagram_default (Buffer_new (ip_wire dg)) = (NoError,
       \<lparr>id_header = (id_header dg)\<lparr>ih_cksum := ip_checksum (id_header dg)\<rparr>, id_payload = [buf]\<rparr>)"
    "buffer_inv buf" "Buffer_str buf = BufferList_concatenate (id_payload dg)"
    by (auto simp: IPv4Datagram_default_def)
  from unwrap_received [OF assms(1,2,5) dg(3-6) buf(2,3), of "ip_checksum (id_header dg)"] bl dg(1) buf(1)
  show ?thesis
    by (simp add: TCPOverIPv4OverTunFdAdapter_write_def TCPOverIPv4OverTunFdAdapter_read_def)
qed

theorem tun_roundtrip_witness:
  "\<exists>bl seg'. TCPOverIPv4OverTunFdAdapter_write plain_resolver (FdAdapterBase_new cfg_one) syn_seg =
       Inr (with_ports syn_seg 1000 80, bl) \<and>
     TCPOverIPv4OverTunFdAdapter_read plain_resolver plain_ntoa listener (BufferList_concatenate bl) =
       Inr (connected listener 1 1000 2 80, Some seg') \<and> th_syn (ts_header seg')"
proof -
  obtain bl seg' where "TCPOverIPv4OverTunFdAdapter_write plain_resolver (FdAdapterBase_new cfg_one) syn_seg =
       Inr (with_ports syn_seg 1000 80, bl)"
     "TCPOverIPv4OverTunFdAdapter_read plain_resolver plain_ntoa listener (BufferList_concatenate bl) =
       Inr (connected listener 1 1000 2 80, Some seg')"
     "ts_header seg' = (ts_header (with_ports syn_seg 1000 80))\<lparr>th_cksum := th_cksum (ts_header seg')\<rparr>"
    using tun_roundtrip [OF plain_resolver_numeric syn_seg_fits _ _ listener_takes, of "FdAdapterBase_new cfg_one"]
    by (auto simp: FdAdapterBase_new_def)
  moreover from arg_cong [OF this(3), of th_syn] have "th_syn (ts_header seg')" by simp
  ultimately show ?thesis by blast
qed

text \<open>C26. Only the peer gets through: a segment that \<open>unwrap_tcp_in_ip\<close> hands on came in a TCP
  datagram with a valid checksum. From a connected adapter it has the source and destination
  of the connection, and the adapter is unchanged; from a listening one it has the port
  listened on and opens a connection, and the adapter stops listening and is from then on connected
  to the datagram's source address and the segment's source port, under the datagram's
  destination address and the segment's destination port.\<close>

theorem unwrap_filters:
  assumes "unwrap_tcp_in_ip res ntoa a dg = Inr (a', Some seg)"
  shows "ih_proto (id_header dg) = IPv4Header_PROTO_TCP \<and>
    (\<exists>buf. BufferList_to_Buffer (id_payload dg) = Inr buf \<and>
       TCPSegment_parse TCPSegment_default buf (IPv4Header_pseudo_cksum (id_header dg)) = (NoError, seg)) \<and>
    Address_port res (fac_source (fab_cfg a)) = Inr (th_dport (ts_header seg)) \<and>
    (if fab_listen a then th_syn (ts_header seg) \<and> \<not> th_rst (ts_header seg) \<and> \<not> fab_listen a' \<and>
       Address_port res (fac_destination (fab_cfg a')) = Inr (th_sport (ts_header seg)) \<and>
       Address_of_ip res (ntoa (ih_src (id_header dg))) (th_sport (ts_header seg)) = Inr (fac_destination (fab_cfg a')) \<and>
       Address_of_ip res (ntoa (ih_dst (id_header dg))) (th_dport (ts_header seg)) = Inr (fac_source (fab_cfg a')) \<and>
       (resolver_numeric res ntoa \<longrightarrow> a' = connected a (ih_src (id_header dg)) (th_sport (ts_header seg))
          (ih_dst (id_header dg)) (th_dport (ts_header seg)))
     else a' = a \<and> Address_ipv4_numeric (fac_source (fab_cfg a)) = Inr (ih_dst (id_header dg)) \<and>
       Address_ipv4_numeric (fac_destination (fab_cfg a)) = Inr (ih_src (id_header dg)) \<and>
       Address_port res (fac_destination (fab_cfg a)) = Inr (th_sport (ts_header seg)))"
proof -
  let ?parse = "\<lambda>buf. TCPSegment_parse TCPSegment_default buf (IPv4Header_pseudo_cksum (id_header dg))"
  have "\<exists>buf. ih_proto (id_header dg) = IPv4Header_PROTO_TCP \<and> BufferList_to_Buffer (id_payload dg) = Inr buf \<and>
      fst (?parse buf) = NoError \<and> unwrap_segment res ntoa a (id_header dg) (snd (?parse buf)) = Inr (a', Some seg) \<and>
      (\<not> fab_listen a \<longrightarrow> Address_ipv4_numeric (fac_source (fab_cfg a)) = Inr (ih_dst (id_header dg)) \<and>
        Address_ipv4_numeric (fac_destination (fab_cfg a)) = Inr (ih_src (id_header dg)))"
    using assms by (cases "fab_listen a")
      (auto simp: unwrap_tcp_in_ip_def adapter_defs exn_bind_Inr Let_def split_def split: if_splits)
  then obtain buf seg' where u: "ih_proto (id_header dg) = IPv4Header_PROTO_TCP" "BufferList_to_Buffer (id_payload dg) = Inr buf"
      "TCPSegment_parse TCPSegment_default buf (IPv4Header_pseudo_cksum (id_header dg)) = (NoError, seg')"
      "unwrap_segment res ntoa a (id_header dg) seg' = Inr (a', Some seg)"
      "\<not> fab_listen a \<longrightarrow> Address_ipv4_numeric (fac_source (fab_cfg a)) = Inr (ih_dst (id_header dg)) \<and>
        Address_ipv4_numeric (fac_destination (fab_cfg a)) = Inr (ih_src (id_header dg))"
    by (metis prod.collapse)
  have "seg' = seg" "Address_port res (fac_source (fab_cfg a)) = Inr (th_dport (ts_header seg))"
    "if fab_listen a then th_syn (ts_header seg) \<and> \<not> th_rst (ts_header seg) \<and> \<not> fab_listen a' else a' = a"
    "Address_port res (fac_destination (fab_cfg a')) = Inr (th_sport (ts_header seg))"
    using u(4) by (cases "fab_listen a";
      force simp: unwrap_segment_def accept_peer_def adapter_defs exn_bind_Inr Let_def split: if_splits)+
  moreover have "Address_of_ip res (ntoa (ih_src (id_header dg))) (th_sport (ts_header seg)) = Inr (fac_destination (fab_cfg a')) \<and>
      Address_of_ip res (ntoa (ih_dst (id_header dg))) (th_dport (ts_header seg)) = Inr (fac_source (fab_cfg a')) \<and>
      a' = \<lparr>fab_cfg = (fab_cfg a)\<lparr>fac_source := fac_source (fab_cfg a'), fac_destination := fac_destination (fab_cfg a')\<rparr>,
             fab_listen = False\<rparr>" if "fab_listen a"
    using u(4) that calculation(1,2)
    by (cases a) (auto simp: unwrap_segment_def accept_peer_def adapter_defs exn_bind_Inr Let_def split: if_splits)
  ultimately show ?thesis using u Address_of_ip_numeric [of res ntoa] by (cases "fab_listen a") auto
qed

theorem unwrap_filters_witness:
  "\<exists>dg a' seg. unwrap_tcp_in_ip plain_resolver plain_ntoa listener dg = Inr (a', Some seg) \<and>
     Address_port plain_resolver (fac_source (fab_cfg listener)) = Inr (th_dport (ts_header seg)) \<and>
     th_syn (ts_header seg) \<and> \<not> th_rst (ts_header seg) \<and> a' = connected listener 1 1000 2 80"
proof -
  obtain dg where dg: "ip_datagram_ok dg"
    "ih_src (id_header dg) = 1" "ih_dst (id_header dg) = 2" "ih_proto (id_header dg) = IPv4Header_PROTO_TCP"
    "BufferList_concatenate (id_payload dg) = tcp_wire (with_ports syn_seg 1000 80) (IPv4Header_pseudo_cksum (id_header dg))"
    using wrap_ok [OF plain_resolver_numeric syn_seg_fits, of "FdAdapterBase_new cfg_one" 1 1000 2 80]
    by (auto simp: FdAdapterBase_new_def)
  let ?buf = "Buffer_new (BufferList_concatenate (id_payload dg))"
  have "length (BufferList_concatenate (id_payload dg)) < 2 ^ 64"
    using dg(1) unat_lt16 [of "ih_len (id_header dg)"] unfolding ip_datagram_ok_def by (intro frame_lt64) linarith
  from unwrap_received [OF plain_resolver_numeric syn_seg_fits listener_takes dg(2-5) buffer_inv_new [OF this], of 0]
  obtain a' seg where u: "unwrap_tcp_in_ip plain_resolver plain_ntoa listener
      \<lparr>id_header = (id_header dg)\<lparr>ih_cksum := 0\<rparr>, id_payload = [?buf]\<rparr> = Inr (a', Some seg)"
    "ts_header seg = (ts_header (with_ports syn_seg 1000 80))\<lparr>th_cksum := th_cksum (ts_header seg)\<rparr>" by auto
  have p: "th_sport (ts_header seg) = 1000" "th_dport (ts_header seg) = 80"
    using arg_cong [OF u(2), of th_sport] arg_cong [OF u(2), of th_dport] by simp_all
  have "Address_port plain_resolver (fac_source (fab_cfg listener)) = Inr (th_dport (ts_header seg)) \<and>
     th_syn (ts_header seg) \<and> \<not> th_rst (ts_header seg) \<and> a' = connected listener 1 1000 2 80"
    using unwrap_filters [OF u(1)] plain_resolver_numeric dg(2,3) p by simp
  with u(1) show ?thesis by blast
qed

text \<open>C19. Over the TAP device, through the whole stack (TCP in IPv4 in Ethernet): when the sending
  adapter's interface knows the Ethernet address of the next hop, a segment written is at
  once one frame on the device, and the adapter that owns that Ethernet address reads the
  same segment from it, under the same conditions as over the TUN device.\<close>

theorem tap_roundtrip:
  assumes "resolver_numeric res ntoa" and "seg_fits seg"
    and "fac_source (fab_cfg (ea_base a)) = ipv4_address s sp" and "fac_destination (fab_cfg (ea_base a)) = ipv4_address d dp"
    and "takes_from (ea_base b) s sp d dp (ts_header seg)"
    and hop: "Address_ipv4_numeric (ea_next_hop a) = Inr nh" "ni_mapping (ea_interface a) nh = Some (mac, t)"
    and idle: "ni_frames_out (ea_interface a) = []"
    and macs: "ni_ethernet_address (ea_interface b) = mac" "address_ok mac" "address_ok (ni_ethernet_address (ea_interface a))"
  shows "\<exists>a' bl b' seg'. TCPOverIPv4OverEthernetAdapter_write res a seg = Inr (a', with_ports seg sp dp) \<and>
     ea_tap a' = ea_tap a @ [bl] \<and>
     TCPOverIPv4OverEthernetAdapter_read res ntoa b (BufferList_concatenate bl) = Inr (b', Some seg') \<and>
     ea_base b' = connected (ea_base b) s sp d dp \<and>
     ts_header seg' = (ts_header (with_ports seg sp dp))\<lparr>th_cksum := th_cksum (ts_header seg')\<rparr> \<and>
     Buffer_str (ts_payload seg') = Buffer_str (ts_payload seg)"
proof -
  obtain dg where dg: "wrap_tcp_in_ip res (ea_base a) seg = Inr (with_ports seg sp dp, dg)" "ip_datagram_ok dg"
    "ih_src (id_header dg) = s" "ih_dst (id_header dg) = d" "ih_proto (id_header dg) = IPv4Header_PROTO_TCP"
    "BufferList_concatenate (id_payload dg) = tcp_wire (with_ports seg sp dp) (IPv4Header_pseudo_cksum (id_header dg))"
    using wrap_ok [OF assms(1,2,3,4)] by blast
  obtain bl where bl: "IPv4Datagram_serialize dg = Inr bl" "BufferList_concatenate bl = ip_wire dg"
    using IPv4Datagram_serialize_wire [OF dg(2)] by blast
  let ?f = "ipv4_frame (ni_ethernet_address (ea_interface a)) mac bl" let ?out = "EthernetFrame_serialize ?f"
  have h: "eth_header_ok (ef_header ?f)" using macs by (simp add: ipv4_frame_def eth_header_ok_def)
  have "BufferList_concatenate ?out = EthernetHeader_serialize (ef_header ?f) @ ip_wire dg"
    using bl(2) by (simp add: EthernetFrame_serialize_def BufferList_of_string_def ipv4_frame_def)
  then have "length (BufferList_concatenate ?out) = 14 + unat (ih_len (id_header dg))"
    using h ip_wire_length [OF dg(2)] by (simp add: EthernetHeader_serialize_eq eth_header_ok_def)
  then have "length (BufferList_concatenate ?out) < 2 ^ 64"
    using unat_lt16 [of "ih_len (id_header dg)"] by (intro frame_lt64) linarith
  from EthernetFrame_parse_wire [OF h buffer_inv_new [OF this], of EthernetFrame_default] bl(2) obtain fb where
    fb: "EthernetFrame_parse EthernetFrame_default (Buffer_new (BufferList_concatenate ?out)) =
       (NoError, \<lparr>ef_header = ef_header ?f, ef_payload = [fb]\<rparr>)" "buffer_inv fb" "Buffer_str fb = ip_wire dg"
    by (auto simp: EthernetFrame_default_def ipv4_frame_def)
  from IPv4Datagram_parse_wire(2) [OF dg(2) fb(2,3), of IPv4Datagram_default] obtain buf where
    buf: "IPv4Datagram_parse IPv4Datagram_default fb = (NoError,
       \<lparr>id_header = (id_header dg)\<lparr>ih_cksum := ip_checksum (id_header dg)\<rparr>, id_payload = [buf]\<rparr>)"
    "buffer_inv buf" "Buffer_str buf = BufferList_concatenate (id_payload dg)"
    by (auto simp: IPv4Datagram_default_def)
  have "NetworkInterface_recv_frame (ea_interface b) \<lparr>ef_header = ef_header ?f, ef_payload = [fb]\<rparr> = Inr (ea_interface b,
      Some \<lparr>id_header = (id_header dg)\<lparr>ih_cksum := ip_checksum (id_header dg)\<rparr>, id_payload = [buf]\<rparr>)"
    using macs(1) buf(1) by (simp add: NetworkInterface_recv_frame_def ipv4_frame_def BufferList_to_Buffer_def)
  with unwrap_received [OF assms(1,2,5) dg(3-6) buf(2,3), of "ip_checksum (id_header dg)"] fb(1)
  obtain b' seg' where "TCPOverIPv4OverEthernetAdapter_read res ntoa b (BufferList_concatenate ?out) = Inr (b', Some seg')"
    "ea_base b' = connected (ea_base b) s sp d dp"
    "ts_header seg' = (ts_header (with_ports seg sp dp))\<lparr>th_cksum := th_cksum (ts_header seg')\<rparr>"
    "Buffer_str (ts_payload seg') = Buffer_str (ts_payload seg)"
    by (auto simp: TCPOverIPv4OverEthernetAdapter_read_def send_pending_def)
  moreover have "\<exists>a'. TCPOverIPv4OverEthernetAdapter_write res a seg = Inr (a', with_ports seg sp dp) \<and>
      ea_tap a' = ea_tap a @ [?out]"
    using dg(1) bl(1) idle
    by (simp add: TCPOverIPv4OverEthernetAdapter_write_def send_mapped [OF hop] send_pending_def push_frame_def)
  ultimately show ?thesis by blast
qed

theorem tap_roundtrip_witness:
  "\<exists>a a' b b' bl seg'. TCPOverIPv4OverEthernetAdapter_write plain_resolver a syn_seg = Inr (a', with_ports syn_seg 1000 80) \<and>
     ea_tap a' = ea_tap a @ [bl] \<and>
     TCPOverIPv4OverEthernetAdapter_read plain_resolver plain_ntoa b (BufferList_concatenate bl) = Inr (b', Some seg') \<and>
     ea_base b' = connected listener 1 1000 2 80"
proof -
  let ?a = "TCPOverIPv4OverEthernetAdapter_new cfg_one mac_one (ipv4_address 1 0) hop_two"
  let ?a' = "?a\<lparr>ea_interface := (ea_interface ?a)\<lparr>ni_mapping := [2 \<mapsto> (mac_two, 0)]\<rparr>\<rparr>"
  let ?b = "(TCPOverIPv4OverEthernetAdapter_new cfg_two mac_two (ipv4_address 2 0) (ipv4_address 1 0))\<lparr>ea_base := listener\<rparr>"
  have base: "ea_base ?a' = FdAdapterBase_new cfg_one" "ea_base ?b = listener"
    by (simp_all add: TCPOverIPv4OverEthernetAdapter_new_def)
  have "Address_ipv4_numeric (ea_next_hop ?a') = Inr 2" "ni_mapping (ea_interface ?a') 2 = Some (mac_two, 0)"
    "ni_frames_out (ea_interface ?a') = []" "ni_ethernet_address (ea_interface ?b) = mac_two"
    "address_ok mac_two" "address_ok (ni_ethernet_address (ea_interface ?a'))"
    by (simp_all add: TCPOverIPv4OverEthernetAdapter_new_def NetworkInterface_new_def)
  note facts = this
  show ?thesis
    using tap_roundtrip [OF plain_resolver_numeric syn_seg_fits _ _ _ facts, of 1 1000 2 80] listener_takes
    unfolding base FdAdapterBase_new_def FdAdapterBase.simps FdAdapterConfig.simps by blast
qed

end
