(* ===== verification/Sponge_IO.thy ===== *)
theory Sponge_IO
  imports Sponge_Prelude
begin

text \<open>
  The setting of the code that calls the operating system: computations that change a state
  and may throw, a calculus of weakest preconditions for them, and the system calls.

  The kernel is not part of the sources. It is a parameter, a record of functions over an
  abstract kernel state, one per call the sources make; each returns what the call returned,
  the value of \<open>errno\<close>, and what it stored through its pointer arguments.
\<close>

section \<open>Computations that may throw\<close>

text \<open>An exception leaves the state as it was when it was thrown.\<close>

type_synonym ('w, 'a) io = "'w \<Rightarrow> (exn + 'a) \<times> 'w"

definition io_return :: "'a \<Rightarrow> ('w, 'a) io" where
  "io_return a w = (Inr a, w)"

definition io_throw :: "exn \<Rightarrow> ('w, 'a) io" where
  "io_throw e w = (Inl e, w)"

definition io_bind :: "('w, 'a) io \<Rightarrow> ('a \<Rightarrow> ('w, 'b) io) \<Rightarrow> ('w, 'b) io" where
  "io_bind m f w = (case m w of (Inl e, w') \<Rightarrow> (Inl e, w') | (Inr a, w') \<Rightarrow> f a w')"

definition io_try :: "('w, 'a) io \<Rightarrow> (exn \<Rightarrow> ('w, 'a) io) \<Rightarrow> ('w, 'a) io" where
  "io_try m h w = (case m w of (Inl e, w') \<Rightarrow> h e w' | (Inr a, w') \<Rightarrow> (Inr a, w'))"

definition io_get :: "('w \<Rightarrow> 'a) \<Rightarrow> ('w, 'a) io" where
  "io_get f w = (Inr (f w), w)"

definition io_modify :: "('w \<Rightarrow> 'w) \<Rightarrow> ('w, unit) io" where
  "io_modify f w = (Inr (), f w)"

definition io_lift :: "exn + 'a \<Rightarrow> ('w, 'a) io" where
  "io_lift r w = (r, w)"

lemma io_bind_cong [fundef_cong]:
  "m w = m' w' \<Longrightarrow> (\<And>a v. m' w' = (Inr a, v) \<Longrightarrow> f a v = g a v) \<Longrightarrow> io_bind m f w = io_bind m' g w'"
  by (auto simp: io_bind_def split: prod.splits sum.splits)

lemma io_bind_Inr: "io_bind m f w = (Inr b, w'') \<longleftrightarrow> (\<exists>a w'. m w = (Inr a, w') \<and> f a w' = (Inr b, w''))"
  by (auto simp: io_bind_def split: prod.splits sum.splits)

text \<open>Running a computation on a known state.\<close>

lemma io_run:
  "io_bind (io_return a) f w = f a w" "io_bind (io_throw e) f w = (Inl e, w)"
  "io_bind (io_get g) f w = f (g w) w" "io_bind (io_modify h) k w = k () (h w)"
  "io_bind (io_lift (Inl e)) f w = (Inl e, w)" "io_bind (io_lift (Inr a)) f w = f a w"
  "io_return a w = (Inr a, w)" "io_throw e w = (Inl e, w)" "io_get g w = (Inr (g w), w)"
  "io_modify h w = (Inr (), h w)" "io_lift r w = (r, w)"
  by (simp_all add: io_bind_def io_return_def io_throw_def io_get_def io_modify_def io_lift_def)

section \<open>Weakest preconditions\<close>

text \<open>
  \<open>wp m Q E w\<close>: from \<open>w\<close>, \<open>m\<close> either returns a value and a state with \<open>Q\<close> or throws with \<open>E\<close>.
  \<open>keeps P m\<close>: \<open>m\<close> preserves \<open>P\<close>, also when it throws.
\<close>

definition wp :: "('w, 'a) io \<Rightarrow> ('a \<Rightarrow> 'w \<Rightarrow> bool) \<Rightarrow> (exn \<Rightarrow> 'w \<Rightarrow> bool) \<Rightarrow> 'w \<Rightarrow> bool" where
  "wp m Q E w = (case m w of (Inl e, w') \<Rightarrow> E e w' | (Inr a, w') \<Rightarrow> Q a w')"

definition keeps :: "('w \<Rightarrow> bool) \<Rightarrow> ('w, 'a) io \<Rightarrow> bool" where
  "keeps P m \<longleftrightarrow> (\<forall>w. P w \<longrightarrow> P (snd (m w)))"

lemma wp_bind: "wp (io_bind m f) Q E w = wp m (\<lambda>a. wp (f a) Q E) E w"
  by (auto simp: wp_def io_bind_def split: prod.splits sum.splits)

lemma wp_try: "wp (io_try m h) Q E w = wp m Q (\<lambda>e. wp (h e) Q E) w"
  by (auto simp: wp_def io_try_def split: prod.splits sum.splits)

lemma wp_basic:
  "wp (io_return a) Q E w = Q a w" "wp (io_throw e) Q E w = E e w"
  "wp (io_get g) Q E w = Q (g w) w" "wp (io_modify h) R E w = R () (h w)"
  "wp (io_lift r) Q E w = (case r of Inl e \<Rightarrow> E e w | Inr a \<Rightarrow> Q a w)"
  by (auto simp: wp_def io_return_def io_throw_def io_get_def io_modify_def io_lift_def split: sum.splits)

lemma wp_if: "wp (if c then m else m') Q E w = (if c then wp m Q E w else wp m' Q E w)"
  by simp

lemma wp_split: "wp (case x of (a, b) \<Rightarrow> m a b) Q E w = (case x of (a, b) \<Rightarrow> wp (m a b) Q E w)"
  by (cases x) simp

lemma wp_Let: "wp (let x = a in m x) Q E w = wp (m a) Q E w"
  by simp

lemmas wp_simps = wp_bind wp_try wp_basic wp_if wp_split wp_Let

lemma wp_mono:
  assumes "wp m Q E w" "\<And>a v. Q a v \<Longrightarrow> Q' a v" "\<And>e v. E e v \<Longrightarrow> E' e v"
  shows "wp m Q' E' w"
  using assms by (auto simp: wp_def split: prod.splits sum.splits)

lemma wp_run: "m w = (Inr a, w') \<Longrightarrow> wp m Q E w \<Longrightarrow> Q a w'"
  by (simp add: wp_def)

lemma wp_same: "wp m (\<lambda>_. P) (\<lambda>_. P) w \<longleftrightarrow> P (snd (m w))"
  by (simp add: wp_def split: prod.split sum.split)

lemma keeps_wp: "keeps P m \<longleftrightarrow> (\<forall>w. P w \<longrightarrow> wp m (\<lambda>_. P) (\<lambda>_. P) w)"
  by (simp add: keeps_def wp_same)

lemma keepsI: "(\<And>w. P w \<Longrightarrow> wp m (\<lambda>_. P) (\<lambda>_. P) w) \<Longrightarrow> keeps P m"
  by (simp add: keeps_wp)

lemma keepsD: "keeps P m \<Longrightarrow> P w \<Longrightarrow> P (snd (m w))"
  by (simp add: keeps_def)

lemma keeps_basic:
  "keeps P (io_return a)" "keeps P (io_throw e)" "keeps P (io_get g)" "keeps P (io_lift r)"
  by (simp_all add: keeps_def io_return_def io_throw_def io_get_def io_lift_def)

lemma keeps_bind: "keeps P m \<Longrightarrow> (\<And>a. keeps P (f a)) \<Longrightarrow> keeps P (io_bind m f)"
  by (auto simp: keeps_wp wp_bind elim!: wp_mono)

lemma keeps_try: "keeps P m \<Longrightarrow> (\<And>e. keeps P (h e)) \<Longrightarrow> keeps P (io_try m h)"
  by (auto simp: keeps_wp wp_try elim!: wp_mono)

lemma keeps_if: "(c \<Longrightarrow> keeps P m) \<Longrightarrow> (\<not> c \<Longrightarrow> keeps P m') \<Longrightarrow> keeps P (if c then m else m')"
  by simp

lemma keeps_split: "(\<And>a b. keeps P (m a b)) \<Longrightarrow> keeps P (case x of (a, b) \<Rightarrow> m a b)"
  by (cases x) simp

lemmas keeps_rules = keeps_basic keeps_bind keeps_try keeps_if keeps_split

section \<open>System calls\<close>

text \<open>
  A result of the kernel is the return value (an \<open>ssize_t\<close> or an \<open>int\<close>) with \<open>errno\<close>, then what
  the call wrote into the memory of the caller. An address is its bytes and its length.
\<close>

record 'k kernel =
  k_read :: "u32 \<Rightarrow> u64 \<Rightarrow> 'k \<Rightarrow> (u64 \<times> u32 \<times> bytes) \<times> 'k"
  k_writev :: "u32 \<Rightarrow> (bytes \<times> u64) list \<Rightarrow> 'k \<Rightarrow> (u64 \<times> u32) \<times> 'k"
  k_close :: "u32 \<Rightarrow> 'k \<Rightarrow> (u32 \<times> u32) \<times> 'k"
  k_getfl :: "u32 \<Rightarrow> 'k \<Rightarrow> (u32 \<times> u32) \<times> 'k"
  k_setfl :: "u32 \<Rightarrow> u32 \<Rightarrow> 'k \<Rightarrow> (u32 \<times> u32) \<times> 'k"
  k_poll :: "(u32 \<times> u16) list \<Rightarrow> u32 \<Rightarrow> 'k \<Rightarrow> (u32 \<times> u32 \<times> u16 list) \<times> 'k"
  k_shutdown :: "u32 \<Rightarrow> u32 \<Rightarrow> 'k \<Rightarrow> (u32 \<times> u32) \<times> 'k"
  k_recvfrom :: "u32 \<Rightarrow> u64 \<Rightarrow> 'k \<Rightarrow> (u64 \<times> u32 \<times> bytes \<times> bytes \<times> u32) \<times> 'k"
  k_sendmsg :: "u32 \<Rightarrow> (bytes \<times> u32) option \<Rightarrow> (bytes \<times> u64) list \<Rightarrow> 'k \<Rightarrow> (u64 \<times> u32) \<times> 'k"
  k_socket :: "u32 \<Rightarrow> u32 \<Rightarrow> 'k \<Rightarrow> (u32 \<times> u32) \<times> 'k"
  k_getsockopt :: "u32 \<Rightarrow> u32 \<Rightarrow> 'k \<Rightarrow> (u32 \<times> u32 \<times> u32 \<times> u32) \<times> 'k"
  k_setsockopt :: "u32 \<Rightarrow> u32 \<Rightarrow> u32 \<Rightarrow> 'k \<Rightarrow> (u32 \<times> u32) \<times> 'k"
  k_getsockname :: "u32 \<Rightarrow> 'k \<Rightarrow> (u32 \<times> u32 \<times> bytes \<times> u32) \<times> 'k"
  k_getpeername :: "u32 \<Rightarrow> 'k \<Rightarrow> (u32 \<times> u32 \<times> bytes \<times> u32) \<times> 'k"
  k_bind :: "u32 \<Rightarrow> bytes \<times> u32 \<Rightarrow> 'k \<Rightarrow> (u32 \<times> u32) \<times> 'k"
  k_connect :: "u32 \<Rightarrow> bytes \<times> u32 \<Rightarrow> 'k \<Rightarrow> (u32 \<times> u32) \<times> 'k"
  k_listen :: "u32 \<Rightarrow> u32 \<Rightarrow> 'k \<Rightarrow> (u32 \<times> u32) \<times> 'k"
  k_accept :: "u32 \<Rightarrow> 'k \<Rightarrow> (u32 \<times> u32) \<times> 'k"
  k_timestamp_ms :: "'k \<Rightarrow> u64 \<times> 'k"

end
