(* ===== verification/File_Descriptor.thy ===== *)
theory File_Descriptor
  imports Sponge_IO Sponge_Buffer Sponge_Address
begin

unbundle bit_operations_syntax

text \<open>
  \<open>SystemCall\<close> of \<open>libsponge/util/util.cc\<close> and the class \<open>FileDescriptor\<close> of
  \<open>libsponge/util/file_descriptor.hh\<close> and \<open>libsponge/util/file_descriptor.cc\<close>.

  A \<open>FileDescriptor\<close> is a shared pointer to an \<open>FDWrapper\<close>; the wrappers live in a store, a
  handle is an address in it, so that two handles on the same wrapper see each other's
  changes. \<open>fd_use\<close> is the use count of the shared pointer.
\<close>

section \<open>System call results\<close>

definition SystemCall :: "string \<Rightarrow> u32 \<Rightarrow> u32 \<Rightarrow> u32 \<Rightarrow> exn + u32" where
  "SystemCall attempt return_value errno errno_mask =
     (if 0 \<le> sint return_value \<or> errno = errno_mask then Inr return_value else Inl (UnixError attempt errno))"

section \<open>The wrapper and the store\<close>

record FDWrapper =
  fd_fd :: u32
  fd_eof :: bool
  fd_closed :: bool
  fd_read_count :: u32
  fd_write_count :: u32
  fd_use :: nat

record ('k, 's) world =
  w_kernel :: 'k
  w_fds :: "nat \<Rightarrow> FDWrapper"
  w_next :: nat
  w_user :: 's

definition sys :: "('k \<Rightarrow> 'a \<times> 'k) \<Rightarrow> (('k, 's) world, 'a) io" where
  "sys f w = (let (r, k) = f (w_kernel w) in (Inr r, w\<lparr>w_kernel := k\<rparr>))"

definition on_fd :: "nat \<Rightarrow> (FDWrapper \<Rightarrow> FDWrapper) \<Rightarrow> (('k, 's) world, unit) io" where
  "on_fd p f = io_modify (\<lambda>w. w\<lparr>w_fds := (w_fds w)(p := f (w_fds w p))\<rparr>)"

definition on_user :: "('s \<Rightarrow> 's) \<Rightarrow> (('k, 's) world, unit) io" where
  "on_user f = io_modify (\<lambda>w. w\<lparr>w_user := f (w_user w)\<rparr>)"

text \<open>\<open>std::to_string\<close> of an \<open>int\<close>.\<close>

definition to_string_int :: "int \<Rightarrow> string" where
  "to_string_int i = (if i < 0 then ''-'' @ to_string_nat (nat (- i)) else to_string_nat (nat i))"

definition FDWrapper_new :: "u32 \<Rightarrow> exn + FDWrapper" where
  "FDWrapper_new fd =
     (if sint fd < 0 then Inl (RuntimeError (''invalid fd number:'' @ to_string_int (sint fd)))
      else Inr \<lparr>fd_fd = fd, fd_eof = False, fd_closed = False, fd_read_count = 0, fd_write_count = 0, fd_use = 1\<rparr>)"

definition FDWrapper_close :: "'k kernel \<Rightarrow> nat \<Rightarrow> (('k, 's) world, unit) io" where
  "FDWrapper_close K p =
     io_bind (io_get (\<lambda>w. fd_fd (w_fds w p))) (\<lambda>fd.
     io_bind (sys (k_close K fd)) (\<lambda>(ret, errno).
     io_bind (io_lift (SystemCall ''close'' ret errno 0)) (\<lambda>_.
       on_fd p (\<lambda>f. f\<lparr>fd_eof := True, fd_closed := True\<rparr>))))"

definition FDWrapper_destroy :: "'k kernel \<Rightarrow> nat \<Rightarrow> (('k, 's) world, unit) io" where
  "FDWrapper_destroy K p =
     io_try
       (io_bind (io_get (\<lambda>w. fd_closed (w_fds w p))) (\<lambda>closed. if closed then io_return () else FDWrapper_close K p))
       (\<lambda>e. io_return ())"

section \<open>Handles\<close>

definition FileDescriptor_new :: "u32 \<Rightarrow> (('k, 's) world, nat) io" where
  "FileDescriptor_new fd =
     io_bind (io_lift (FDWrapper_new fd)) (\<lambda>f.
     io_bind (io_get w_next) (\<lambda>p.
     io_bind (io_modify (\<lambda>w. w\<lparr>w_fds := (w_fds w)(p := f), w_next := p + 1\<rparr>)) (\<lambda>_. io_return p)))"

definition FileDescriptor_duplicate :: "nat \<Rightarrow> (('k, 's) world, nat) io" where
  "FileDescriptor_duplicate p = io_bind (on_fd p (\<lambda>f. f\<lparr>fd_use := fd_use f + 1\<rparr>)) (\<lambda>_. io_return p)"

text \<open>The destructor of a handle: the last one destroys the wrapper.\<close>

definition FileDescriptor_destroy :: "'k kernel \<Rightarrow> nat \<Rightarrow> (('k, 's) world, unit) io" where
  "FileDescriptor_destroy K p =
     io_bind (on_fd p (\<lambda>f. f\<lparr>fd_use := fd_use f - 1\<rparr>)) (\<lambda>_.
     io_bind (io_get (\<lambda>w. fd_use (w_fds w p))) (\<lambda>n.
       if n = 0 then FDWrapper_destroy K p else io_return ()))"

definition FileDescriptor_register_read :: "nat \<Rightarrow> (('k, 's) world, unit) io" where
  "FileDescriptor_register_read p = on_fd p (\<lambda>f. f\<lparr>fd_read_count := fd_read_count f + 1\<rparr>)"

definition FileDescriptor_register_write :: "nat \<Rightarrow> (('k, 's) world, unit) io" where
  "FileDescriptor_register_write p = on_fd p (\<lambda>f. f\<lparr>fd_write_count := fd_write_count f + 1\<rparr>)"

definition FileDescriptor_close :: "'k kernel \<Rightarrow> nat \<Rightarrow> (('k, 's) world, unit) io" where
  "FileDescriptor_close K p = FDWrapper_close K p"

definition FileDescriptor_fd_num :: "nat \<Rightarrow> (('k, 's) world, u32) io" where
  "FileDescriptor_fd_num p = io_get (\<lambda>w. fd_fd (w_fds w p))"

definition FileDescriptor_eof :: "nat \<Rightarrow> (('k, 's) world, bool) io" where
  "FileDescriptor_eof p = io_get (\<lambda>w. fd_eof (w_fds w p))"

definition FileDescriptor_closed :: "nat \<Rightarrow> (('k, 's) world, bool) io" where
  "FileDescriptor_closed p = io_get (\<lambda>w. fd_closed (w_fds w p))"

definition FileDescriptor_read_count :: "nat \<Rightarrow> (('k, 's) world, u32) io" where
  "FileDescriptor_read_count p = io_get (\<lambda>w. fd_read_count (w_fds w p))"

definition FileDescriptor_write_count :: "nat \<Rightarrow> (('k, 's) world, u32) io" where
  "FileDescriptor_write_count p = io_get (\<lambda>w. fd_write_count (w_fds w p))"

section \<open>Reading\<close>

definition BUFFER_SIZE :: u64 where
  "BUFFER_SIZE = 1024 * 1024"

text \<open>
  \<open>string::resize\<close>, and a call that stores at the start of the string. A negative length, an
  error with \<open>errno = 0\<close> that \<open>SystemCall\<close> lets pass, is a size beyond \<open>max_size\<close>.
\<close>

definition resize :: "bytes \<Rightarrow> u64 \<Rightarrow> exn + bytes" where
  "resize str n =
     (if 2 ^ 63 \<le> unat n then Inl (LengthError ''basic_string::_M_replace_aux'')
      else Inr (take (unat n) str @ replicate (unat n - length str) 0))"

definition store_at :: "bytes \<Rightarrow> bytes \<Rightarrow> bytes" where
  "store_at str data = data @ drop (length data) str"

definition FileDescriptor_read_into :: "'k kernel \<Rightarrow> nat \<Rightarrow> bytes \<Rightarrow> u64 \<Rightarrow> (('k, 's) world, bytes) io" where
  "FileDescriptor_read_into K p str limit =
     (let size_to_read = min BUFFER_SIZE limit
      in io_bind (io_lift (resize str size_to_read)) (\<lambda>str.
         io_bind (FileDescriptor_fd_num p) (\<lambda>fd.
         io_bind (sys (k_read K fd size_to_read)) (\<lambda>(ret, errno, data).
         io_bind (io_lift (SystemCall ''read'' (ucast ret) errno 0)) (\<lambda>r.
           let bytes_read = (scast r :: u64)
           in io_bind (if 0 < limit \<and> bytes_read = 0 then on_fd p (\<lambda>f. f\<lparr>fd_eof := True\<rparr>) else io_return ()) (\<lambda>_.
                if sint size_to_read < sint bytes_read then io_throw (RuntimeError ''read() read more than requested'')
                else
                  io_bind (io_lift (resize (store_at str data) bytes_read)) (\<lambda>str.
                  io_bind (FileDescriptor_register_read p) (\<lambda>_. io_return str))))))))"

definition FileDescriptor_read :: "'k kernel \<Rightarrow> nat \<Rightarrow> u64 \<Rightarrow> (('k, 's) world, bytes) io" where
  "FileDescriptor_read K p limit = FileDescriptor_read_into K p [] limit"

section \<open>Writing\<close>

text \<open>One round of the loop of \<open>write\<close>; the result is what was written and what is left.\<close>

definition write_round :: "'k kernel \<Rightarrow> nat \<Rightarrow> BufferViewList \<Rightarrow> (('k, 's) world, u64 \<times> BufferViewList) io" where
  "write_round K p buffer =
     io_bind (FileDescriptor_fd_num p) (\<lambda>fd.
     io_bind (sys (k_writev K fd (BufferViewList_as_iovecs buffer))) (\<lambda>(ret, errno).
     io_bind (io_lift (SystemCall ''writev'' (ucast ret) errno 0)) (\<lambda>r.
       let bytes_written = (scast r :: u64)
       in if bytes_written = 0 \<and> BufferViewList_size buffer \<noteq> 0
          then io_throw (RuntimeError ''write returned 0 given non-empty input buffer'')
          else if sint (BufferViewList_size buffer) < sint bytes_written
          then io_throw (RuntimeError ''write wrote more than length of input buffer'')
          else
            io_bind (FileDescriptor_register_write p) (\<lambda>_.
            io_bind (io_lift (BufferViewList_remove_prefix buffer bytes_written)) (\<lambda>buffer.
              io_return (bytes_written, buffer))))))"

lemma remove_prefix_shrinks:
  "BufferViewList_remove_prefix vl n = Inr vl' \<Longrightarrow> n \<noteq> 0 \<Longrightarrow> length (concat vl') < length (concat vl)"
proof (induction vl n rule: BufferViewList_remove_prefix.induct)
  case (2 v vs n)
  show ?case
  proof (cases "unat n < length v")
    case False
    with 2 have r: "BufferViewList_remove_prefix vs (n - of_nat (length v)) = Inr vl'" by simp
    have "length (concat vl') \<le> length (concat vs)" if "n - of_nat (length v) = 0"
      using r that by (cases vs) auto
    moreover have "length (concat vl') < length (concat vs)" if "n - of_nat (length v) \<noteq> 0"
      using 2 False r that by simp
    moreover have "v \<noteq> []" if "n - of_nat (length v) = 0" using that 2(3) by auto
    ultimately show ?thesis by (cases "n - of_nat (length v) = 0"; cases v) auto
  qed (use 2 in \<open>auto simp: word_gt_0_no word_neq_0_conv word_less_nat_alt\<close>)
qed (auto split: if_splits simp: word_neq_0_conv)

lemma write_round_shrinks:
  assumes "write_round K p buffer w = (Inr (n, buffer'), w')" "BufferViewList_size buffer' \<noteq> 0"
  shows "length (concat buffer') < length (concat buffer)"
proof -
  have r: "BufferViewList_remove_prefix buffer n = Inr buffer'" "n = 0 \<longrightarrow> BufferViewList_size buffer = 0"
    using assms(1) by (auto simp: write_round_def io_bind_Inr io_run Let_def split: prod.splits if_splits)
  with assms(2) have "n \<noteq> 0" by (cases buffer) auto
  with r(1) show ?thesis by (rule remove_prefix_shrinks)
qed

function write_loop :: "'k kernel \<Rightarrow> nat \<Rightarrow> BufferViewList \<Rightarrow> bool \<Rightarrow> u64 \<Rightarrow> (('k, 's) world, u64) io" where
  "write_loop K p buffer write_all total_bytes_written w =
     io_bind (write_round K p buffer) (\<lambda>r w.
       let total_bytes_written = total_bytes_written + fst r
       in if write_all \<and> BufferViewList_size (snd r) \<noteq> 0
          then write_loop K p (snd r) write_all total_bytes_written w
          else io_return total_bytes_written w) w"
  by pat_completeness auto
termination
  by (relation "measure (\<lambda>(K, p, buffer, write_all, tot, w). length (concat buffer))")
    (auto dest: write_round_shrinks)

declare write_loop.simps [simp del]

definition FileDescriptor_write :: "'k kernel \<Rightarrow> nat \<Rightarrow> BufferViewList \<Rightarrow> bool \<Rightarrow> (('k, 's) world, u64) io" where
  "FileDescriptor_write K p buffer write_all = write_loop K p buffer write_all 0"

definition FileDescriptor_write_string :: "'k kernel \<Rightarrow> nat \<Rightarrow> bytes \<Rightarrow> bool \<Rightarrow> (('k, 's) world, u64) io" where
  "FileDescriptor_write_string K p str write_all = FileDescriptor_write K p (BufferViewList_of_string str) write_all"

section \<open>Blocking\<close>

definition O_NONBLOCK :: u32 where
  "O_NONBLOCK = 0x800"

definition FileDescriptor_set_blocking :: "'k kernel \<Rightarrow> nat \<Rightarrow> bool \<Rightarrow> (('k, 's) world, unit) io" where
  "FileDescriptor_set_blocking K p blocking_state =
     io_bind (FileDescriptor_fd_num p) (\<lambda>fd.
     io_bind (sys (k_getfl K fd)) (\<lambda>(ret, errno).
     io_bind (io_lift (SystemCall ''fcntl'' ret errno 0)) (\<lambda>flags.
       let flags = (if blocking_state then flags XOR (flags AND O_NONBLOCK) else flags OR O_NONBLOCK)
       in io_bind (sys (k_setfl K fd flags)) (\<lambda>(ret, errno).
          io_bind (io_lift (SystemCall ''fcntl'' ret errno 0)) (\<lambda>_. io_return ())))))"

section \<open>What the kernel does\<close>

text \<open>
  The documented behaviour of the calls on streams: \<open>got k fd\<close> are the bytes read from a
  descriptor so far, \<open>put k fd\<close> those written to it. \<open>read\<close> returns at most as many bytes as
  asked for, \<open>writev\<close> accepts a prefix of what it is given (at most \<open>0x7ffff000\<close> bytes on
  Linux), a failing call returns -1, sets \<open>errno\<close> and moves nothing, and the other calls
  move no data.
\<close>

definition read_ok :: "'k kernel \<Rightarrow> ('k \<Rightarrow> u32 \<Rightarrow> bytes) \<Rightarrow> ('k \<Rightarrow> u32 \<Rightarrow> bytes) \<Rightarrow> bool" where
  "read_ok K got put \<longleftrightarrow> (\<forall>fd n k ret errno data k'. k_read K fd n k = ((ret, errno, data), k') \<longrightarrow>
     put k' = put k \<and> got k' = (got k)(fd := got k fd @ data) \<and>
     (if ret = - 1 then errno \<noteq> 0 \<and> data = [] else length data = unat ret \<and> ret \<le> n))"

definition writev_ok :: "'k kernel \<Rightarrow> ('k \<Rightarrow> u32 \<Rightarrow> bytes) \<Rightarrow> ('k \<Rightarrow> u32 \<Rightarrow> bytes) \<Rightarrow> bool" where
  "writev_ok K got put \<longleftrightarrow> (\<forall>fd iov k ret errno k'. k_writev K fd iov k = ((ret, errno), k') \<longrightarrow>
     got k' = got k \<and>
     (if ret = - 1 then errno \<noteq> 0 \<and> put k' = put k
      else ret \<le> 0x7ffff000 \<and> unat ret \<le> length (concat (map fst iov)) \<and>
        put k' = (put k)(fd := put k fd @ take (unat ret) (concat (map fst iov)))))"

definition control_ok :: "'k kernel \<Rightarrow> ('k \<Rightarrow> u32 \<Rightarrow> bytes) \<Rightarrow> ('k \<Rightarrow> u32 \<Rightarrow> bytes) \<Rightarrow> bool" where
  "control_ok K got put \<longleftrightarrow> (\<forall>fd n k pfds t k'.
     (k' = snd (k_close K fd k) \<or> k' = snd (k_getfl K fd k) \<or> k' = snd (k_setfl K fd n k) \<or>
      k' = snd (k_poll K pfds t k) \<or> k' = snd (k_shutdown K fd n k) \<or> k' = snd (k_timestamp_ms K k)) \<longrightarrow>
     got k' = got k \<and> put k' = put k)"

definition kernel_io :: "'k kernel \<Rightarrow> ('k \<Rightarrow> u32 \<Rightarrow> bytes) \<Rightarrow> ('k \<Rightarrow> u32 \<Rightarrow> bytes) \<Rightarrow> bool" where
  "kernel_io K got put \<longleftrightarrow> read_ok K got put \<and> writev_ok K got put \<and> control_ok K got put"

text \<open>A descriptor that is always able to take something.\<close>

definition writev_progress :: "'k kernel \<Rightarrow> bool" where
  "writev_progress K \<longleftrightarrow> (\<forall>fd iov k ret errno k'. k_writev K fd iov k = ((ret, errno), k') \<longrightarrow>
     ret \<noteq> - 1 \<and> (concat (map fst iov) \<noteq> [] \<longrightarrow> ret \<noteq> 0))"

section \<open>Rules for the operations\<close>

lemma wp_sys: "wp (sys f) Q E w = (case f (w_kernel w) of (r, k) \<Rightarrow> Q r (w\<lparr>w_kernel := k\<rparr>))"
  by (simp add: wp_def sys_def Let_def split: prod.split)

lemma wp_on_fd: "wp (on_fd p f) Q E w = Q () (w\<lparr>w_fds := (w_fds w)(p := f (w_fds w p))\<rparr>)"
  by (simp add: on_fd_def wp_basic)

lemmas fd_defs = FileDescriptor_fd_num_def FileDescriptor_eof_def FileDescriptor_closed_def
  FileDescriptor_read_count_def FileDescriptor_write_count_def FileDescriptor_register_read_def
  FileDescriptor_register_write_def FileDescriptor_close_def

lemmas fd_wp = wp_simps wp_sys wp_on_fd fd_defs

text \<open>The narrowing of a return value to \<open>int\<close> is harmless on the values the calls have.\<close>

lemma sint_unat:
  assumes "unat (w :: 'a :: len word) < 2 ^ (LENGTH('a) - 1)"
  shows "sint w = int (unat w)"
proof -
  have "int (unat w) < int (2 ^ (LENGTH('a) - 1))" using assms by (simp only: of_nat_less_iff)
  then have "signed_take_bit (LENGTH('a) - 1) (uint w) = uint w"
    by (intro signed_take_bit_int_eq_self) (auto intro: order_trans [of _ 0])
  then show ?thesis by (simp add: sint_uint)
qed

lemma sint_small: "unat (n :: u64) < 2 ^ 63 \<Longrightarrow> sint n = int (unat n)"
  by (rule sint_unat) simp

lemma sint_small32: "unat (n :: u32) < 2 ^ 31 \<Longrightarrow> sint n = int (unat n)"
  by (rule sint_unat) simp

lemma sint_not_less: "unat a \<le> unat b \<Longrightarrow> unat b < 2 ^ 63 \<Longrightarrow> \<not> sint (b :: u64) < sint (a :: u64)"
  using sint_small [of a] sint_small [of b] by linarith

lemma of_nat_size_zero: "length (concat x) < 2 ^ 63 \<Longrightarrow> (of_nat (length (concat x)) :: u64) \<noteq> 0 \<longleftrightarrow> concat x \<noteq> []"
  using unat_of_nat64 [of "length (concat x)"]
  by (cases "concat x = []") (auto simp del: concat_eq_Nil_conv length_concat)

lemma sint_of_nat64: "n < 2 ^ 63 \<Longrightarrow> sint (of_nat n :: u64) = int n"
  by (subst sint_small) (simp_all add: unat_of_nat64)

lemma narrow_return:
  assumes "unat (ret :: u64) < 2 ^ 31"
  shows "0 \<le> sint (ucast ret :: u32)" "(scast (ucast ret :: u32) :: u64) = ret"
proof -
  have u: "unat (ucast ret :: u32) = unat ret" using assms by (simp add: unat_ucast)
  then have s: "sint (ucast ret :: u32) = uint ret" using assms sint_small32 [of "ucast ret"] by simp
  then show "0 \<le> sint (ucast ret :: u32)" by simp
  show "(scast (ucast ret :: u32) :: u64) = ret"
    using s by (metis scast_eq word_of_int_uint)
qed

lemma ucast_all_ones: "(ucast (- 1 :: u64) :: u32) = - 1"
  by (rule bit_word_eqI) (simp add: bit_simps)

lemma SystemCall_ok: "unat (ret :: u64) < 2 ^ 31 \<Longrightarrow> SystemCall s (ucast ret) errno 0 = Inr (ucast ret)"
  by (simp add: SystemCall_def narrow_return)

lemma SystemCall_failed: "errno \<noteq> 0 \<Longrightarrow> SystemCall s (ucast (- 1 :: u64)) errno 0 = Inl (UnixError s errno)"
  by (simp add: SystemCall_def ucast_all_ones)

text \<open>
  A read: what was read is at most the limit and what the kernel gave; the end is noted
  exactly on an empty read with a positive limit.
\<close>

lemma wp_read:
  assumes K: "kernel_io K got put"
    and ret: "\<And>data k. put k = put (w_kernel w) \<Longrightarrow>
      got k = (got (w_kernel w))(fd_fd (w_fds w p) := got (w_kernel w) (fd_fd (w_fds w p)) @ data) \<Longrightarrow>
      length data \<le> unat limit \<Longrightarrow>
      Q data (w\<lparr>w_kernel := k, w_fds := (w_fds w)(p := (w_fds w p)
        \<lparr>fd_eof := fd_eof (w_fds w p) \<or> (0 < limit \<and> data = []), fd_read_count := fd_read_count (w_fds w p) + 1\<rparr>)\<rparr>)"
    and exn: "\<And>e k. put k = put (w_kernel w) \<Longrightarrow> got k = got (w_kernel w) \<Longrightarrow> E e (w\<lparr>w_kernel := k\<rparr>)"
  shows "wp (FileDescriptor_read K p limit) Q E w"
proof -
  let ?n = "min BUFFER_SIZE limit" let ?fd = "fd_fd (w_fds w p)"
  have n: "unat ?n \<le> 1048576" "unat ?n \<le> unat limit"
    by (auto simp: BUFFER_SIZE_def min_def word_le_nat_alt)
  obtain ret errno data k where r: "k_read K ?fd ?n (w_kernel w) = ((ret, errno, data), k)"
    by (metis prod_cases3 surj_pair)
  have ok: "put k = put (w_kernel w)" "got k = (got (w_kernel w))(?fd := got (w_kernel w) ?fd @ data)"
    "if ret = - 1 then errno \<noteq> 0 \<and> data = [] else length data = unat ret \<and> ret \<le> ?n"
    using K r unfolding kernel_io_def read_ok_def by blast+
  have str: "resize [] ?n = Inr (replicate (unat ?n) 0)" using n by (simp add: resize_def)
  show ?thesis
  proof (cases "ret = - 1")
    case True
    with ok exn [of k] show ?thesis
      by (simp add: FileDescriptor_read_def FileDescriptor_read_into_def fd_wp str r SystemCall_failed)
  next
    case False
    with ok(3) n have l: "length data = unat ret" "unat ret < 2 ^ 31" "unat ret \<le> unat ?n"
      by (auto simp: word_le_nat_alt)
    have "resize (store_at (replicate (unat ?n) 0) data) ret = Inr data" using l n by (simp add: resize_def store_at_def)
    moreover have "\<not> sint ?n < sint ret" using l n by (intro sint_not_less) auto
    moreover have "ret = 0 \<longleftrightarrow> data = []" using l by (metis length_0_conv unat_eq_zero)
    moreover have "Q data (w\<lparr>w_kernel := k, w_fds := (w_fds w)(p := (w_fds w p)
        \<lparr>fd_eof := fd_eof (w_fds w p) \<or> (0 < limit \<and> data = []), fd_read_count := fd_read_count (w_fds w p) + 1\<rparr>)\<rparr>)"
      using ret [OF ok(1,2)] l n by simp
    ultimately show ?thesis
      using narrow_return [OF l(2)] SystemCall_ok [OF l(2)]
      by (auto simp: FileDescriptor_read_def FileDescriptor_read_into_def fd_wp str r)
  qed
qed

text \<open>\<open>sent got put p data n c w v\<close>: \<open>n\<close> bytes of \<open>data\<close> went out in \<open>c\<close> calls, and nothing else happened.\<close>

definition sent :: "('k \<Rightarrow> u32 \<Rightarrow> bytes) \<Rightarrow> ('k \<Rightarrow> u32 \<Rightarrow> bytes) \<Rightarrow> nat \<Rightarrow> bytes \<Rightarrow> nat \<Rightarrow> nat \<Rightarrow>
    ('k, 's) world \<Rightarrow> ('k, 's) world \<Rightarrow> bool" where
  "sent got put p data n c w v \<longleftrightarrow> n \<le> length data \<and>
     got (w_kernel v) = got (w_kernel w) \<and>
     put (w_kernel v) = (put (w_kernel w))(fd_fd (w_fds w p) := put (w_kernel w) (fd_fd (w_fds w p)) @ take n data) \<and>
     w_fds v = (w_fds w)(p := (w_fds w p)\<lparr>fd_write_count := fd_write_count (w_fds w p) + of_nat c\<rparr>) \<and>
     w_next v = w_next w \<and> w_user v = w_user w"

lemma concat_iovecs: "concat (map fst (BufferViewList_as_iovecs vl)) = concat vl"
  by (simp add: BufferViewList_as_iovecs_def comp_def)

lemma wp_write_round:
  assumes K: "kernel_io K got put" and len: "length (concat buffer) < 2 ^ 63" and inv: "views_inv buffer"
  shows "wp (write_round K p buffer)
     (\<lambda>(m, buffer') v. \<exists>n. m = of_nat n \<and> (concat buffer \<noteq> [] \<longrightarrow> 0 < n) \<and> concat buffer' = drop n (concat buffer) \<and>
        views_inv buffer' \<and> sent got put p (concat buffer) n 1 w v)
     (\<lambda>e v. sent got put p (concat buffer) 0 0 w v \<and> \<not> writev_progress K) w"
proof -
  let ?fd = "fd_fd (w_fds w p)" let ?data = "concat buffer"
  obtain ret errno k where r: "k_writev K ?fd (BufferViewList_as_iovecs buffer) (w_kernel w) = ((ret, errno), k)"
    by (metis surj_pair)
  have ok: "got k = got (w_kernel w)"
    "if ret = - 1 then errno \<noteq> 0 \<and> put k = put (w_kernel w)
     else ret \<le> 0x7ffff000 \<and> unat ret \<le> length ?data \<and>
        put k = (put (w_kernel w))(?fd := put (w_kernel w) ?fd @ take (unat ret) ?data)"
    using K r unfolding kernel_io_def writev_ok_def by (metis concat_iovecs)+
  have sz: "BufferViewList_size buffer = of_nat (length ?data)" by (rule BufferViewList_size_eq)
  have none: "sent got put p ?data 0 0 w (w\<lparr>w_kernel := k\<rparr>)" if "put k = put (w_kernel w)"
    using that ok(1) by (simp add: sent_def)
  show ?thesis
  proof (cases "ret = - 1")
    case True
    then have "\<not> writev_progress K" using r unfolding writev_progress_def by blast
    with True ok none show ?thesis by (simp add: write_round_def fd_wp r SystemCall_failed)
  next
    case False
    with ok(2) have l: "unat ret < 2 ^ 31" "unat ret \<le> length ?data"
      "put k = (put (w_kernel w))(?fd := put (w_kernel w) ?fd @ take (unat ret) ?data)"
      by (auto simp: word_le_nat_alt)
    have "\<not> sint (of_nat (length ?data) :: u64) < sint ret"
      using l len sint_of_nat64 [of "length ?data"] sint_small [of ret] by linarith
    moreover have "(of_nat (length ?data) :: u64) \<noteq> 0 \<longleftrightarrow> ?data \<noteq> []"
      using len by (rule of_nat_size_zero)
    moreover obtain buffer' where "BufferViewList_remove_prefix buffer ret = Inr buffer'" "views_inv buffer'"
        "concat buffer' = drop (unat ret) ?data"
      using BufferViewList_remove_prefix_ok [OF inv l(2)] by blast
    moreover have "\<not> writev_progress K" if "ret = 0" "?data \<noteq> []"
      using that r unfolding writev_progress_def by (metis concat_iovecs)
    moreover have "put k = put (w_kernel w)" if "ret = 0" using that l(3) by simp
    moreover have "sent got put p ?data (unat ret) 1 w (w\<lparr>w_kernel := k, w_fds := (w_fds w)(p := (w_fds w p)
        \<lparr>fd_write_count := fd_write_count (w_fds w p) + 1\<rparr>)\<rparr>)"
      using ok(1) l by (simp add: sent_def)
    moreover have "ret = 0 \<or> 0 < unat ret" by (simp add: unat_gt_0)
    ultimately show ?thesis
      using narrow_return [OF l(1)] SystemCall_ok [OF l(1)] none
      by (cases "ret = 0 \<and> ?data \<noteq> []")
        (auto simp: write_round_def fd_wp r sz simp del: concat_eq_Nil_conv of_nat_eq_0_iff intro!: exI [of _ "unat ret"])
  qed
qed

lemma write_loop_unfold:
  "write_loop K p buffer write_all tot =
     io_bind (write_round K p buffer) (\<lambda>r.
       if write_all \<and> BufferViewList_size (snd r) \<noteq> 0 then write_loop K p (snd r) write_all (tot + fst r)
       else io_return (tot + fst r))"
  by (rule ext, subst write_loop.simps) (auto simp: Let_def intro!: io_bind_cong)

lemma wp_write_loop:
  "wp (write_loop K p buffer write_all tot) Q E w =
     wp (write_round K p buffer) (\<lambda>r v.
       if write_all \<and> BufferViewList_size (snd r) \<noteq> 0 then wp (write_loop K p (snd r) write_all (tot + fst r)) Q E v
       else Q (tot + fst r) v) E w"
  by (subst write_loop_unfold, unfold wp_bind, rule arg_cong [where f = "\<lambda>Q. wp (write_round K p buffer) Q E w"])
    (auto simp: fun_eq_iff wp_basic)

lemma sent_trans:
  assumes "sent got put p data n c w v" "sent got put p (drop n data) n' c' v v'"
  shows "sent got put p data (n + n') (c + c') w v'"
  using assms by (simp add: sent_def take_add) (auto simp: fun_eq_iff)

text \<open>What \<open>write\<close> guarantees when it returns and when it throws.\<close>

definition write_post :: "('k \<Rightarrow> u32 \<Rightarrow> bytes) \<Rightarrow> ('k \<Rightarrow> u32 \<Rightarrow> bytes) \<Rightarrow> nat \<Rightarrow> bool \<Rightarrow> bytes \<Rightarrow> u64 \<Rightarrow>
    ('k, 's) world \<Rightarrow> u64 \<Rightarrow> ('k, 's) world \<Rightarrow> bool" where
  "write_post got put p write_all data tot w m v \<longleftrightarrow>
     (\<exists>n c. m = tot + of_nat n \<and> 0 < c \<and> (if write_all then n = length data else c = 1) \<and>
        (data \<noteq> [] \<longrightarrow> 0 < n) \<and> sent got put p data n c w v)"

definition write_exn :: "'k kernel \<Rightarrow> ('k \<Rightarrow> u32 \<Rightarrow> bytes) \<Rightarrow> ('k \<Rightarrow> u32 \<Rightarrow> bytes) \<Rightarrow> nat \<Rightarrow> bool \<Rightarrow> bytes \<Rightarrow>
    ('k, 's) world \<Rightarrow> ('k, 's) world \<Rightarrow> bool" where
  "write_exn K got put p write_all data w v \<longleftrightarrow> \<not> writev_progress K \<and>
     (\<exists>n c. sent got put p data n c w v \<and> (write_all \<or> n = 0 \<and> c = 0))"

lemma write_post_trans:
  assumes "sent got put p data n 1 w v" "write_post got put p True (drop n data) (tot + of_nat n) v m v'"
    "data \<noteq> [] \<longrightarrow> 0 < n"
  shows "write_post got put p True data tot w m v'"
proof -
  obtain c where c: "m = tot + of_nat n + of_nat (length (drop n data))" "sent got put p (drop n data) (length (drop n data)) c v v'"
    using assms(2) unfolding write_post_def by auto
  have "n \<le> length data" using assms(1) by (simp add: sent_def)
  with c sent_trans [OF assms(1) c(2)] show ?thesis unfolding write_post_def
    by (intro exI [of _ "length data"] exI [of _ "1 + c"]) (auto simp flip: of_nat_add)
qed

lemma write_exn_trans:
  "sent got put p data n 1 w v \<Longrightarrow> write_exn K got put p True (drop n data) v v' \<Longrightarrow> write_exn K got put p True data w v'"
  unfolding write_exn_def by (blast dest: sent_trans)

lemma write_loop_spec:
  assumes K: "kernel_io K got put" and "length (concat buffer) < 2 ^ 63" and "views_inv buffer"
  shows "wp (write_loop K p buffer write_all tot) (write_post got put p write_all (concat buffer) tot w)
     (\<lambda>e. write_exn K got put p write_all (concat buffer) w) w"
  using assms(2,3)
proof (induction "length (concat buffer)" arbitrary: buffer tot w rule: less_induct)
  case less
  let ?d = "concat buffer"
  have "if write_all \<and> BufferViewList_size b \<noteq> 0
     then wp (write_loop K p b write_all (tot + m)) (write_post got put p write_all ?d tot w)
        (\<lambda>e. write_exn K got put p write_all ?d w) v
     else write_post got put p write_all ?d tot w (tot + m) v"
    if r: "m = of_nat n" "?d \<noteq> [] \<longrightarrow> 0 < n" "concat b = drop n ?d" "views_inv b" "sent got put p ?d n 1 w v"
    for m b n v
  proof (cases "write_all \<and> BufferViewList_size b \<noteq> 0")
    case True
    then have "concat b \<noteq> []" by (auto simp: BufferViewList_size_eq simp del: concat_eq_Nil_conv)
    then have n: "n < length ?d" using r(3) by (metis drop_all not_le)
    then have "?d \<noteq> []" by (metis list.size(3) not_less_zero)
    with n r(2,3) have "length (concat b) < length ?d" by (metis diff_less length_drop length_greater_0_conv)
    with less(2) r(4) have "wp (write_loop K p b write_all (tot + m)) (write_post got put p write_all (drop n ?d) (tot + m) v)
        (\<lambda>e. write_exn K got put p write_all (drop n ?d) v) v"
      unfolding r(3) [symmetric] by (intro less(1)) auto
    moreover have write_all using True by simp
    ultimately show ?thesis unfolding if_P [OF True] r(1)
      by (elim wp_mono) (use write_post_trans [OF r(5)] write_exn_trans [OF r(5)] r(2) in metis)+
  next
    case False
    moreover have "n = length ?d" if write_all
    proof -
      have "(of_nat (length (concat b)) :: u64) = 0" using False that by (simp add: BufferViewList_size_eq)
      then have "concat b = []" using of_nat_size_zero [of b] less(2) r(3) by (metis diff_le_self le_less_trans length_drop)
      then show ?thesis using r(3,5) by (simp add: sent_def)
    qed
    ultimately show ?thesis using r(1,2,5) unfolding if_not_P [OF False] write_post_def
      by (intro exI [of _ n] exI [of _ 1]) auto
  qed
  note round = this
  show ?case
  proof (subst wp_write_loop, rule wp_mono [OF wp_write_round [OF K less(2,3)]], goal_cases)
    case (1 a v)
    then show ?case using round by (cases a) (simp only: prod.case fst_conv snd_conv, blast)
  qed (auto simp: write_exn_def)
qed

text \<open>A string fits in one view.\<close>

lemma wp_write_string:
  assumes "kernel_io K got put" "length data < 2 ^ 63"
  shows "wp (FileDescriptor_write_string K p data write_all) (write_post got put p write_all data 0 w)
     (\<lambda>e. write_exn K got put p write_all data w) w"
  using write_loop_spec [OF assms(1), of "[data]" p write_all 0 w] assms(2)
  by (simp add: FileDescriptor_write_string_def FileDescriptor_write_def BufferViewList_of_string_def views_inv_def)

section \<open>The lifetime of a descriptor\<close>

text \<open>A handle that is not the last leaves the descriptor alone; the last one closes it.\<close>

lemma destroy_shared:
  assumes "1 < fd_use (w_fds w p)"
  shows "FileDescriptor_destroy K p w =
     (Inr (), w\<lparr>w_fds := (w_fds w)(p := (w_fds w p)\<lparr>fd_use := fd_use (w_fds w p) - 1\<rparr>)\<rparr>)"
  using assms by (simp add: FileDescriptor_destroy_def on_fd_def io_run)

lemma destroy_last:
  assumes "fd_use (w_fds w p) \<le> 1" "\<not> fd_closed (w_fds w p)"
    "k_close K (fd_fd (w_fds w p)) (w_kernel w) = ((0, errno), k)"
  shows "FileDescriptor_destroy K p w =
     (Inr (), w\<lparr>w_kernel := k, w_fds := (w_fds w)(p := (w_fds w p)\<lparr>fd_use := 0, fd_eof := True, fd_closed := True\<rparr>)\<rparr>)"
  using assms by (simp add: FileDescriptor_destroy_def FDWrapper_destroy_def FDWrapper_close_def on_fd_def io_run
      io_try_def sys_def io_bind_def SystemCall_def)

section \<open>Steps that move no data\<close>

text \<open>They leave the variables of the program and the numbers of the descriptors alone.\<close>

definition quiet :: "('k \<Rightarrow> u32 \<Rightarrow> bytes) \<Rightarrow> ('k \<Rightarrow> u32 \<Rightarrow> bytes) \<Rightarrow> ('k, 's) world \<Rightarrow> ('k, 's) world \<Rightarrow> bool" where
  "quiet got put w v \<longleftrightarrow> got (w_kernel v) = got (w_kernel w) \<and> put (w_kernel v) = put (w_kernel w) \<and>
     (\<forall>p. fd_fd (w_fds v p) = fd_fd (w_fds w p)) \<and> w_user v = w_user w"

lemma quiet_refl [simp]: "quiet got put w w"
  by (simp add: quiet_def)

lemma quiet_trans: "quiet got put w v \<Longrightarrow> quiet got put v u \<Longrightarrow> quiet got put w u"
  by (simp add: quiet_def)

abbreviation is_quiet :: "('k \<Rightarrow> u32 \<Rightarrow> bytes) \<Rightarrow> ('k \<Rightarrow> u32 \<Rightarrow> bytes) \<Rightarrow> (('k, 's) world, 'a) io \<Rightarrow> bool" where
  "is_quiet got put m \<equiv> (\<forall>w. quiet got put w (snd (m w)))"

lemma is_quiet_bind: "is_quiet got put m \<Longrightarrow> (\<And>a. is_quiet got put (f a)) \<Longrightarrow> is_quiet got put (io_bind m f)"
  by (auto simp: io_bind_def split: prod.splits sum.splits) (metis quiet_trans snd_conv)+

lemma is_quiet_try: "is_quiet got put m \<Longrightarrow> (\<And>e. is_quiet got put (h e)) \<Longrightarrow> is_quiet got put (io_try m h)"
  by (auto simp: io_try_def split: prod.splits sum.splits) (metis quiet_trans snd_conv)+

lemma is_quiet_basic:
  "is_quiet got put (io_return a)" "is_quiet got put (io_throw e)" "is_quiet got put (io_get g)" "is_quiet got put (io_lift r)"
  by (simp_all add: io_return_def io_throw_def io_get_def io_lift_def)

lemma is_quiet_on_fd: "(\<And>x. fd_fd (f x) = fd_fd x) \<Longrightarrow> is_quiet got put (on_fd p f)"
  by (simp add: on_fd_def io_modify_def quiet_def)

lemma is_quiet_control:
  assumes "kernel_io K got put"
  shows "is_quiet got put (sys (k_close K fd))" "is_quiet got put (sys (k_getfl K fd))"
    "is_quiet got put (sys (k_setfl K fd n))" "is_quiet got put (sys (k_poll K pfds t))"
    "is_quiet got put (sys (k_shutdown K fd n))" "is_quiet got put (sys (k_timestamp_ms K))"
  using assms unfolding kernel_io_def control_ok_def quiet_def sys_def
  by (simp_all add: Let_def split: prod.split) (metis snd_conv)+

lemmas is_quiet_rules = is_quiet_basic is_quiet_bind is_quiet_try

lemma is_quiet_close: "kernel_io K got put \<Longrightarrow> is_quiet got put (FDWrapper_close K p)"
  unfolding FDWrapper_close_def split_def by (intro is_quiet_rules is_quiet_control is_quiet_on_fd) auto

lemma is_quiet_wrapper_destroy: "kernel_io K got put \<Longrightarrow> is_quiet got put (FDWrapper_destroy K p)"
  unfolding FDWrapper_destroy_def
  by (intro is_quiet_rules) (simp add: is_quiet_close [rule_format] is_quiet_basic [rule_format])

lemma is_quiet_destroy: "kernel_io K got put \<Longrightarrow> is_quiet got put (FileDescriptor_destroy K p)"
  unfolding FileDescriptor_destroy_def
  by (intro is_quiet_rules is_quiet_on_fd) (simp_all add: is_quiet_basic [rule_format] is_quiet_wrapper_destroy [rule_format])

lemma is_quiet_set_blocking: "kernel_io K got put \<Longrightarrow> is_quiet got put (FileDescriptor_set_blocking K p b)"
  unfolding FileDescriptor_set_blocking_def fd_defs split_def Let_def
  by (intro is_quiet_rules is_quiet_control) auto

lemma keeps_quiet:
  "is_quiet got put m \<Longrightarrow> (\<And>w v. P w \<Longrightarrow> quiet got put w v \<Longrightarrow> P v) \<Longrightarrow> keeps P m"
  by (auto simp: keeps_def)

section \<open>A kernel\<close>

text \<open>
  A kernel that behaves as documented: \<open>tk_in\<close> is what there is to read from a descriptor;
  one call moves at most four bytes, and \<open>poll\<close> finds everything ready.
\<close>

record plain_state =
  tk_in :: "u32 \<Rightarrow> bytes"
  tk_got :: "u32 \<Rightarrow> bytes"
  tk_put :: "u32 \<Rightarrow> bytes"

definition plain_read :: "u32 \<Rightarrow> u64 \<Rightarrow> plain_state \<Rightarrow> (u64 \<times> u32 \<times> bytes) \<times> plain_state" where
  "plain_read fd n k =
     (let data = take (min 4 (unat n)) (tk_in k fd)
      in ((of_nat (length data), 0, data),
          k\<lparr>tk_in := (tk_in k)(fd := drop (length data) (tk_in k fd)), tk_got := (tk_got k)(fd := tk_got k fd @ data)\<rparr>))"

definition plain_writev :: "u32 \<Rightarrow> (bytes \<times> u64) list \<Rightarrow> plain_state \<Rightarrow> (u64 \<times> u32) \<times> plain_state" where
  "plain_writev fd iov k =
     (let data = take 4 (concat (map fst iov))
      in ((of_nat (length data), 0), k\<lparr>tk_put := (tk_put k)(fd := tk_put k fd @ data)\<rparr>))"

definition plain_kernel :: "plain_state kernel" where
  "plain_kernel = \<lparr>k_read = plain_read, k_writev = plain_writev,
     k_close = (\<lambda>fd k. ((0, 0), k)), k_getfl = (\<lambda>fd k. ((0, 0), k)), k_setfl = (\<lambda>fd n k. ((0, 0), k)),
     k_poll = (\<lambda>pfds t k. ((of_nat (length pfds), 0, map snd pfds), k)), k_shutdown = (\<lambda>fd n k. ((0, 0), k)),
     k_recvfrom = (\<lambda>fd n k. ((0, 0, [], [], 0), k)), k_sendmsg = (\<lambda>fd a iov k. ((0, 0), k)),
     k_socket = (\<lambda>d t k. ((3, 0), k)), k_getsockopt = (\<lambda>fd opt k. ((0, 0, 0, 4), k)),
     k_setsockopt = (\<lambda>fd opt v k. ((0, 0), k)), k_getsockname = (\<lambda>fd k. ((0, 0, [], 0), k)),
     k_getpeername = (\<lambda>fd k. ((0, 0, [], 0), k)), k_bind = (\<lambda>fd a k. ((0, 0), k)), k_connect = (\<lambda>fd a k. ((0, 0), k)),
     k_listen = (\<lambda>fd n k. ((0, 0), k)), k_accept = (\<lambda>fd k. ((4, 0), k)), k_timestamp_ms = (\<lambda>k. (0, k))\<rparr>"

lemma small_nat: "n \<le> 4 \<Longrightarrow> unat (of_nat n :: u64) = n"
  by (rule unat_of_nat64) simp

lemma small_zero: "n \<le> 4 \<Longrightarrow> (of_nat n :: u64) = 0 \<longleftrightarrow> n = 0"
  using small_nat [of n] unat_eq_zero [of "of_nat n :: u64"] by metis

lemma small_no_error:
  assumes "n \<le> 4"
  shows "(of_nat n :: u64) \<noteq> - 1"
proof
  assume "(of_nat n :: u64) = - 1"
  then have "unat (of_nat n :: u64) = 18446744073709551615" unfolding unat_max64 [symmetric] by (rule arg_cong)
  with small_nat [OF assms] have "n = 18446744073709551615" by (rule trans [OF sym])
  with assms show False by simp
qed

lemmas small_return = small_nat small_zero small_no_error

lemma plain_kernel_io: "kernel_io plain_kernel tk_got tk_put"
proof -
  have "read_ok plain_kernel tk_got tk_put"
    unfolding read_ok_def by (auto simp: plain_kernel_def plain_read_def Let_def small_return word_le_nat_alt)
  moreover have "writev_ok plain_kernel tk_got tk_put"
    unfolding writev_ok_def
    by (auto simp: plain_kernel_def plain_writev_def Let_def small_return word_le_nat_alt take_map min_def simp flip: take_map)
  moreover have "control_ok plain_kernel tk_got tk_put" by (auto simp: control_ok_def plain_kernel_def)
  ultimately show ?thesis by (simp add: kernel_io_def)
qed

lemma plain_kernel_progress: "writev_progress plain_kernel"
  by (auto simp: writev_progress_def plain_kernel_def plain_writev_def Let_def small_return simp del: concat_eq_Nil_conv)

section \<open>Properties\<close>

text \<open>C28. Writing everything ends: as long as the kernel takes something of every non-empty write, \<open>write\<close>
  with \<open>write_all\<close> returns, the number it returns is the size of the buffers, and exactly their bytes went to the
  descriptor, in order. When the kernel fails, what went out before the exception is a prefix of
  the buffers.\<close>

theorem write_completes:
  assumes "kernel_io K got put" and "length (concat buffer) < 2 ^ 63" and "views_inv buffer"
  shows "(writev_progress K \<longrightarrow>
       (\<exists>w'. FileDescriptor_write K p buffer True w = (Inr (of_nat (length (concat buffer))), w') \<and>
          put (w_kernel w') (fd_fd (w_fds w p)) = put (w_kernel w) (fd_fd (w_fds w p)) @ concat buffer)) \<and>
     (\<forall>e w'. FileDescriptor_write K p buffer write_all w = (Inl e, w') \<longrightarrow>
       (\<exists>n. put (w_kernel w') (fd_fd (w_fds w p)) = put (w_kernel w) (fd_fd (w_fds w p)) @ take n (concat buffer)))"
proof -
  note spec = write_loop_spec [OF assms, of p _ 0 w, folded FileDescriptor_write_def]
  have "\<exists>m w'. FileDescriptor_write K p buffer True w = (Inr m, w') \<and> write_post got put p True (concat buffer) 0 w m w'"
    if "writev_progress K"
    using spec [of True] that by (auto simp: wp_def write_exn_def split: prod.splits sum.splits)
  moreover have "write_exn K got put p write_all (concat buffer) w w'"
    if "FileDescriptor_write K p buffer write_all w = (Inl e, w')" for e w'
    using spec [of write_all] that by (simp add: wp_def)
  ultimately show ?thesis by (fastforce simp: write_post_def write_exn_def sent_def)
qed

definition plain_world :: "(u32 \<Rightarrow> bytes) \<Rightarrow> u32 list \<Rightarrow> 's \<Rightarrow> (plain_state, 's) world" where
  "plain_world input fds s =
     \<lparr>w_kernel = \<lparr>tk_in = input, tk_got = (\<lambda>_. []), tk_put = (\<lambda>_. [])\<rparr>,
      w_fds = (\<lambda>p. \<lparr>fd_fd = (if p < length fds then fds ! p else 0), fd_eof = False, fd_closed = False,
                     fd_read_count = 0, fd_write_count = 0, fd_use = 1\<rparr>),
      w_next = length fds, w_user = s\<rparr>"

theorem write_completes_witness:
  "\<exists>w'. FileDescriptor_write plain_kernel 0 [[1, 2, 3], [], [4, 5, 6, 7]] True (plain_world (\<lambda>_. []) [7] ()) = (Inr 7, w') \<and>
     tk_put (w_kernel w') 7 = [1, 2, 3, 4, 5, 6, 7]"
proof -
  have "views_inv [[1, 2, 3], [], [4, 5, 6, 7]]" by (simp add: views_inv_def)
  from write_completes [OF plain_kernel_io _ this, of 0 "plain_world (\<lambda>_. []) [7] ()"] plain_kernel_progress
  show ?thesis by (simp add: plain_world_def)
qed

end
