(* ===== verification/Event_Loop.thy ===== *)
theory Event_Loop
  imports File_Descriptor
begin

text \<open>
  The class \<open>EventLoop\<close> of \<open>libsponge/util/eventloop.hh\<close> and \<open>libsponge/util/eventloop.cc\<close>.

  The callbacks of a rule are computations over the world: they may read and write
  descriptors and change the state of the program. They do not touch the list of rules (no
  callback of the sources does), so the list is an argument and a result of \<open>wait_next_event\<close>.
\<close>

unbundle bit_operations_syntax

section \<open>Rules\<close>

datatype Direction = In | Out

definition POLLIN :: u16 where
  "POLLIN = 1"

definition POLLOUT :: u16 where
  "POLLOUT = 4"

definition POLLERR :: u16 where
  "POLLERR = 8"

definition POLLHUP :: u16 where
  "POLLHUP = 16"

definition POLLNVAL :: u16 where
  "POLLNVAL = 32"

definition EINTR :: u32 where
  "EINTR = 4"

text \<open>The value of a direction, \<open>static_cast<short>(direction)\<close>.\<close>

fun direction_events :: "Direction \<Rightarrow> u16" where
  "direction_events In = POLLIN"
| "direction_events Out = POLLOUT"

record ('k, 's) Rule =
  ru_fd :: nat
  ru_direction :: Direction
  ru_callback :: "(('k, 's) world, unit) io"
  ru_interest :: "(('k, 's) world, bool) io"
  ru_cancel :: "(('k, 's) world, unit) io"

datatype Result = Success | Timeout | Exit

definition Rule_service_count :: "('k, 's) Rule \<Rightarrow> (('k, 's) world, u32) io" where
  "Rule_service_count r =
     (if ru_direction r = In then FileDescriptor_read_count (ru_fd r) else FileDescriptor_write_count (ru_fd r))"

definition EventLoop_add_rule ::
  "('k, 's) Rule list \<Rightarrow> nat \<Rightarrow> Direction \<Rightarrow> (('k, 's) world, unit) io \<Rightarrow> (('k, 's) world, bool) io \<Rightarrow>
     (('k, 's) world, unit) io \<Rightarrow> (('k, 's) world, ('k, 's) Rule list) io" where
  "EventLoop_add_rule rules fd direction callback interest cancel =
     io_bind (FileDescriptor_duplicate fd) (\<lambda>fd.
       io_return (rules @ [\<lparr>ru_fd = fd, ru_direction = direction, ru_callback = callback, ru_interest = interest,
                            ru_cancel = cancel\<rparr>]))"

section \<open>Waiting for the next event\<close>

text \<open>Cancelling a rule: its callback, then its removal, which destroys its handle.\<close>

definition cancel_rule :: "'k kernel \<Rightarrow> ('k, 's) Rule \<Rightarrow> (('k, 's) world, unit) io" where
  "cancel_rule K r = io_bind (ru_cancel r) (\<lambda>_. FileDescriptor_destroy K (ru_fd r))"

text \<open>
  The first loop: the rules that stay, what is polled for each (descriptor number and
  events), and \<open>something_to_poll\<close>.
\<close>

fun poll_setup :: "'k kernel \<Rightarrow> ('k, 's) Rule list \<Rightarrow> (('k, 's) world, ('k, 's) Rule list \<times> (u32 \<times> u16) list \<times> bool) io" where
  "poll_setup K [] = io_return ([], [], False)"
| "poll_setup K (this_rule # rules) =
     io_bind (FileDescriptor_eof (ru_fd this_rule)) (\<lambda>eof.
     if ru_direction this_rule = In \<and> eof then io_bind (cancel_rule K this_rule) (\<lambda>_. poll_setup K rules)
     else
       io_bind (FileDescriptor_closed (ru_fd this_rule)) (\<lambda>closed.
       if closed then io_bind (cancel_rule K this_rule) (\<lambda>_. poll_setup K rules)
       else
         io_bind (ru_interest this_rule) (\<lambda>interest.
         io_bind (FileDescriptor_fd_num (ru_fd this_rule)) (\<lambda>fd.
         io_bind (poll_setup K rules) (\<lambda>(rules, pollfds, something_to_poll).
           io_return (this_rule # rules,
             (fd, if interest then direction_events (ru_direction this_rule) else 0) # pollfds,
             interest \<or> something_to_poll))))))"

text \<open>The array after \<open>poll\<close>: events and returned events; what \<open>poll\<close> does not store stays 0.\<close>

fun with_revents :: "(u32 \<times> u16) list \<Rightarrow> u16 list \<Rightarrow> (u16 \<times> u16) list" where
  "with_revents [] rs = []"
| "with_revents ((fd, events) # ps) [] = (events, 0) # with_revents ps []"
| "with_revents ((fd, events) # ps) (r # rs) = (events, r) # with_revents ps rs"

text \<open>The part of the second loop for a rule that is ready.\<close>

definition serve_rule :: "('k, 's) Rule \<Rightarrow> (('k, 's) world, unit) io" where
  "serve_rule r =
     io_bind (Rule_service_count r) (\<lambda>count_before.
     io_bind (ru_callback r) (\<lambda>_.
     io_bind (Rule_service_count r) (\<lambda>count_after.
     io_bind (if count_before = count_after then ru_interest r else io_return False) (\<lambda>busy.
       if busy
       then io_throw (RuntimeError
         ''EventLoop: busy wait detected: callback did not read/write fd and is still interested'')
       else io_return ()))))"

fun poll_results :: "'k kernel \<Rightarrow> ('k, 's) Rule list \<Rightarrow> (u16 \<times> u16) list \<Rightarrow> (('k, 's) world, ('k, 's) Rule list) io" where
  "poll_results K [] pollfds = io_return []"
| "poll_results K (this_rule # rules) [] = io_throw (UndefinedBehaviour ''vector::operator[]'')"
| "poll_results K (this_rule # rules) ((events, revents) # pollfds) =
     (if revents AND (POLLERR OR POLLNVAL) \<noteq> 0
      then io_throw (RuntimeError ''EventLoop: error on polled file descriptor'')
      else
        let poll_ready = (revents AND events \<noteq> 0); poll_hup = (revents AND POLLHUP \<noteq> 0)
        in if poll_hup \<and> events \<noteq> 0 \<and> \<not> poll_ready
           then io_bind (cancel_rule K this_rule) (\<lambda>_. poll_results K rules pollfds)
           else
             io_bind (if poll_ready then serve_rule this_rule else io_return ()) (\<lambda>_.
             io_bind (poll_results K rules pollfds) (\<lambda>rules. io_return (this_rule # rules))))"

definition EventLoop_wait_next_event ::
  "'k kernel \<Rightarrow> ('k, 's) Rule list \<Rightarrow> u32 \<Rightarrow> (('k, 's) world, Result \<times> ('k, 's) Rule list) io" where
  "EventLoop_wait_next_event K rules timeout_ms =
     io_bind (poll_setup K rules) (\<lambda>(rules, pollfds, something_to_poll).
       if \<not> something_to_poll then io_return (Exit, rules)
       else
         io_bind (sys (k_poll K pollfds timeout_ms)) (\<lambda>(ret, errno, revents).
           let results = io_bind (poll_results K rules (with_revents pollfds revents)) (\<lambda>rules. io_return (Success, rules))
           in case SystemCall ''poll'' ret errno 0 of
                Inr r \<Rightarrow> if r = 0 then io_return (Timeout, rules) else results
              | Inl e \<Rightarrow> if e = UnixError ''poll'' EINTR then io_return (Exit, rules) else results))"

section \<open>Invariants of programs that run an event loop\<close>

text \<open>
  What a program must show for a predicate on the world to be an invariant of its event
  loop: every callback of every rule preserves it, and so do the calls the loop itself makes.
\<close>

definition rules_keep :: "'k kernel \<Rightarrow> (('k, 's) world \<Rightarrow> bool) \<Rightarrow> ('k, 's) Rule list \<Rightarrow> bool" where
  "rules_keep K P rules \<longleftrightarrow>
     (\<forall>r \<in> set rules. keeps P (ru_callback r) \<and> keeps P (ru_interest r) \<and> keeps P (ru_cancel r)) \<and>
     (\<forall>pollfds timeout. keeps P (sys (k_poll K pollfds timeout) :: (('k, 's) world, _) io)) \<and>
     (\<forall>p. keeps P (FileDescriptor_destroy K p :: (('k, 's) world, _) io))"

lemma rules_keep_subset: "rules_keep K P rules \<Longrightarrow> set rules' \<subseteq> set rules \<Longrightarrow> rules_keep K P rules'"
  by (auto simp: rules_keep_def)

lemma rules_keepD:
  assumes "rules_keep K P (r # rules)"
  shows "keeps P (ru_callback r)" "keeps P (ru_interest r)" "keeps P (cancel_rule K r)" "rules_keep K P rules"
    "keeps P (serve_rule r)"
proof -
  show k: "keeps P (ru_callback r)" "keeps P (ru_interest r)" and "rules_keep K P rules"
    using assms by (simp_all add: rules_keep_def)
  show "keeps P (cancel_rule K r)"
    using assms by (auto simp: rules_keep_def cancel_rule_def intro!: keeps_bind)
  show "keeps P (serve_rule r)"
    using k by (auto simp: serve_rule_def Rule_service_count_def fd_defs intro!: keeps_rules)
qed

lemma wp_keep:
  assumes "keeps P m" "P w" "\<And>a v. P v \<Longrightarrow> Q a v" "\<And>e v. P v \<Longrightarrow> E e v"
  shows "wp m Q E w"
  using assms by (auto simp: keeps_wp intro: wp_mono)

lemma wp_poll_setup:
  "rules_keep K P rules \<Longrightarrow> P w \<Longrightarrow>
   wp (poll_setup K rules) (\<lambda>(rs, pollfds, b) v. P v \<and> set rs \<subseteq> set rules \<and> length pollfds = length rs) (\<lambda>_. P) w"
proof (induction rules arbitrary: w)
  case (Cons r rules)
  note k = rules_keepD [OF Cons.prems(1)]
  have ih: "wp (poll_setup K rules) (\<lambda>(rs, pollfds, b) v. P v \<and> set rs \<subseteq> set (r # rules) \<and> length pollfds = length rs)
      (\<lambda>_. P) v" if "P v" for v
    by (rule wp_mono [OF Cons.IH [OF k(4) that]]) auto
  have ih': "wp (poll_setup K rules) (\<lambda>(rs, pollfds, b) v. P v \<and> set rs \<subseteq> set rules \<and> length pollfds = length rs)
      (\<lambda>_. P) v" if "P v" for v
    by (rule Cons.IH [OF k(4) that])
  show ?case
    using Cons.prems(2)
    by (auto simp: wp_simps fd_defs subset_iff intro!: wp_keep [OF k(3)] wp_keep [OF k(2)] ih [unfolded subset_iff]
        wp_mono [OF ih' [unfolded subset_iff]])
qed (simp add: wp_simps)

lemma wp_poll_results:
  "rules_keep K P rules \<Longrightarrow> P w \<Longrightarrow>
   wp (poll_results K rules pollfds) (\<lambda>rs v. P v \<and> set rs \<subseteq> set rules) (\<lambda>_. P) w"
proof (induction K rules pollfds arbitrary: w rule: poll_results.induct)
  case (3 K r rules events revents pollfds)
  note k = rules_keepD [OF "3.prems"(1)]
  have ih: "wp (poll_results K rules pollfds) (\<lambda>rs v. P v \<and> set rs \<subseteq> set (r # rules)) (\<lambda>_. P) v"
    if "P v" "\<not> revents AND (POLLERR OR POLLNVAL) \<noteq> 0" "revents AND POLLHUP \<noteq> 0 \<and> events \<noteq> 0 \<and> \<not> revents AND events \<noteq> 0" for v
    by (rule wp_mono [OF "3.IH"(1) [OF that(2) refl refl that(3) k(4) that(1)]]) auto
  have ih': "wp (poll_results K rules pollfds) (\<lambda>rs v. P v \<and> set rs \<subseteq> set rules) (\<lambda>_. P) v"
    if "P v" "\<not> revents AND (POLLERR OR POLLNVAL) \<noteq> 0" "\<not> (revents AND POLLHUP \<noteq> 0 \<and> events \<noteq> 0 \<and> \<not> revents AND events \<noteq> 0)" for v
    by (rule "3.IH"(2) [OF that(2) refl refl that(3) k(4) that(1)])
  let ?hup = "revents AND POLLHUP \<noteq> 0 \<and> events \<noteq> 0 \<and> \<not> revents AND events \<noteq> 0"
  consider "revents AND (POLLERR OR POLLNVAL) \<noteq> 0" | "\<not> revents AND (POLLERR OR POLLNVAL) \<noteq> 0" ?hup
    | "\<not> revents AND (POLLERR OR POLLNVAL) \<noteq> 0" "\<not> ?hup" by blast
  then show ?case
  proof cases
    case 2
    then show ?thesis using "3.prems"(2) ih by (simp add: wp_simps wp_keep [OF k(3)])
  next
    case 3
    have rest: "wp (io_bind (poll_results K rules pollfds) (\<lambda>rules. io_return (r # rules)))
        (\<lambda>rs v. P v \<and> set rs \<subseteq> set (r # rules)) (\<lambda>_. P) v" if "P v" for v
      unfolding wp_bind by (rule wp_mono [OF ih' [OF that 3]]) (auto simp: wp_simps)
    have serve: "keeps P (if revents AND events \<noteq> 0 then serve_rule r else io_return ())"
      using k(5) by (simp add: keeps_basic)
    show ?thesis unfolding poll_results.simps if_not_P [OF 3(1)] Let_def if_not_P [OF 3(2)] wp_bind [of "if _ then _ else _"]
      by (rule wp_keep [OF serve "3.prems"(2) rest])
  qed (use "3.prems"(2) in \<open>simp add: wp_simps\<close>)
qed (simp_all add: wp_simps)

lemma wp_wait_next_event:
  assumes "rules_keep K P rules" "P w"
  shows "wp (EventLoop_wait_next_event K rules timeout)
     (\<lambda>(res, rs) v. P v \<and> rules_keep K P rs) (\<lambda>_. P) w"
proof -
  have poll: "keeps P (sys (k_poll K pollfds t) :: (_, _) io)" for pollfds t
    using assms(1) by (simp add: rules_keep_def)
  have res: "wp (poll_results K rs pollfds) (\<lambda>rs v. P v \<and> rules_keep K P rs) (\<lambda>_. P) v"
    if "P v" "set rs \<subseteq> set rules" for rs pollfds v
    by (rule wp_mono [OF wp_poll_results [OF rules_keep_subset [OF assms(1) that(2)] that(1)]])
      (use that(2) in \<open>auto intro: rules_keep_subset [OF assms(1)]\<close>)
  have res': "wp (poll_results K rs pollfds) (\<lambda>a. wp (io_return (Success, a)) (\<lambda>(res, rs) v. P v \<and> rules_keep K P rs) (\<lambda>_. P))
      (\<lambda>_. P) v" if "P v" "set rs \<subseteq> set rules" for rs pollfds v
    by (rule wp_mono [OF res [OF that]]) (auto simp: wp_basic)
  show ?thesis unfolding EventLoop_wait_next_event_def wp_bind
    by (rule wp_mono [OF wp_poll_setup [OF assms]])
      (auto simp: wp_simps intro!: wp_keep [OF poll] res' rules_keep_subset [OF assms(1)] split: sum.split)
qed

section \<open>Errors of the loop\<close>

text \<open>
  A failing \<open>poll\<close> is only noticed when a signal interrupted it: with any other error the
  loop goes on with an array in which nothing is ready, calls nothing, and reports success.
\<close>

lemma poll_results_idle:
  "length pollfds = length rules \<Longrightarrow> poll_results K rules (with_revents pollfds []) w = (Inr rules, w)"
proof (induction rules arbitrary: pollfds)
  case (Cons r rules)
  then show ?case by (cases pollfds) (auto simp: io_run io_bind_def)
qed (simp add: io_run)

lemma poll_setup_length: "poll_setup K rules w = (Inr (rs, pollfds, b), v) \<Longrightarrow> length pollfds = length rs"
proof (induction rules arbitrary: w rs pollfds b)
  case (Cons r rules)
  then show ?case by (auto simp: io_bind_Inr io_run fd_defs split: if_splits)
qed (simp add: io_run)

lemma poll_failure_swallowed:
  assumes "poll_setup K rules w = (Inr (rs, pollfds, True), v)"
    and "k_poll K pollfds timeout (w_kernel v) = ((- 1, errno, []), k)" and "errno \<noteq> 0" "errno \<noteq> EINTR"
  shows "EventLoop_wait_next_event K rules timeout w = (Inr (Success, rs), v\<lparr>w_kernel := k\<rparr>)"
  using assms poll_results_idle [OF poll_setup_length [OF assms(1)]]
  by (simp add: EventLoop_wait_next_event_def io_bind_def sys_def SystemCall_def io_return_def Let_def)

text \<open>A ready rule whose callback neither uses the descriptor nor loses interest is reported.\<close>

lemma busy_wait_detected:
  assumes "Rule_service_count r w = (Inr c, w)" "ru_callback r w = (Inr (), v)"
    "Rule_service_count r v = (Inr c, v)" "ru_interest r v = (Inr True, v')"
  shows "serve_rule r w =
     (Inl (RuntimeError ''EventLoop: busy wait detected: callback did not read/write fd and is still interested''), v')"
  using assms by (simp add: serve_rule_def io_bind_def io_throw_def)

end
