(* ===== verification/Sockets.thy ===== *)
theory Sockets
  imports File_Descriptor
begin

text \<open>
  The socket classes of \<open>libsponge/util/socket.hh\<close> and \<open>libsponge/util/socket.cc\<close>: \<open>Socket\<close>,
  \<open>UDPSocket\<close>, \<open>TCPSocket\<close> and \<open>LocalStreamSocket\<close>. They add no state to \<open>FileDescriptor\<close>, so a
  socket is a handle, an address in the store of \<open>File_Descriptor\<close>.
\<close>

section \<open>Constants\<close>

definition AF_UNIX :: u32 where
  "AF_UNIX = 1"

definition SOCK_STREAM :: u32 where
  "SOCK_STREAM = 1"

definition SOCK_DGRAM :: u32 where
  "SOCK_DGRAM = 2"

definition SO_TYPE :: u32 where
  "SO_TYPE = 3"

definition SO_DOMAIN :: u32 where
  "SO_DOMAIN = 39"

definition SO_REUSEADDR :: u32 where
  "SO_REUSEADDR = 2"

definition SHUT_RD :: u32 where
  "SHUT_RD = 0"

definition SHUT_WR :: u32 where
  "SHUT_WR = 1"

definition SHUT_RDWR :: u32 where
  "SHUT_RDWR = 2"

section \<open>Socket\<close>

definition Socket_new :: "'k kernel \<Rightarrow> u32 \<Rightarrow> u32 \<Rightarrow> (('k, 's) world, nat) io" where
  "Socket_new K domain type =
     io_bind (sys (k_socket K domain type)) (\<lambda>(ret, errno).
     io_bind (io_lift (SystemCall ''socket'' ret errno 0)) (\<lambda>fd. FileDescriptor_new fd))"

text \<open>One check of the constructor from a descriptor: the option must have the given value.\<close>

definition check_option :: "'k kernel \<Rightarrow> nat \<Rightarrow> u32 \<Rightarrow> u32 \<Rightarrow> string \<Rightarrow> (('k, 's) world, unit) io" where
  "check_option K p option_name expected mismatch =
     io_bind (FileDescriptor_fd_num p) (\<lambda>fd.
     io_bind (sys (k_getsockopt K fd option_name)) (\<lambda>(ret, errno, actual_value, len).
     io_bind (io_lift (SystemCall ''getsockopt'' ret errno 0)) (\<lambda>_.
       if len \<noteq> 4 \<or> actual_value \<noteq> expected then io_throw (RuntimeError mismatch) else io_return ())))"

text \<open>When the body of the constructor throws, the handle it took over is destroyed.\<close>

definition Socket_of_fd :: "'k kernel \<Rightarrow> nat \<Rightarrow> u32 \<Rightarrow> u32 \<Rightarrow> (('k, 's) world, nat) io" where
  "Socket_of_fd K p domain type =
     io_try
       (io_bind (check_option K p SO_DOMAIN domain ''socket domain mismatch'') (\<lambda>_.
        io_bind (check_option K p SO_TYPE type ''socket type mismatch'') (\<lambda>_. io_return p)))
       (\<lambda>e. io_bind (FileDescriptor_destroy K p) (\<lambda>_. io_throw e))"

definition Socket_get_address ::
  "string \<Rightarrow> (u32 \<Rightarrow> 'k \<Rightarrow> (u32 \<times> u32 \<times> bytes \<times> u32) \<times> 'k) \<Rightarrow> nat \<Rightarrow> (('k, 's) world, Address) io" where
  "Socket_get_address name_of_function call p =
     io_bind (FileDescriptor_fd_num p) (\<lambda>fd.
     io_bind (sys (call fd)) (\<lambda>(ret, errno, address, size').
     io_bind (io_lift (SystemCall name_of_function ret errno 0)) (\<lambda>_.
       io_lift (Address_of_sockaddr (store_at (replicate (unat SOCKADDR_STORAGE_SIZE) 0) address) (ucast size')))))"

definition Socket_local_address :: "'k kernel \<Rightarrow> nat \<Rightarrow> (('k, 's) world, Address) io" where
  "Socket_local_address K p = Socket_get_address ''getsockname'' (k_getsockname K) p"

definition Socket_peer_address :: "'k kernel \<Rightarrow> nat \<Rightarrow> (('k, 's) world, Address) io" where
  "Socket_peer_address K p = Socket_get_address ''getpeername'' (k_getpeername K) p"

definition Socket_bind :: "'k kernel \<Rightarrow> nat \<Rightarrow> Address \<Rightarrow> (('k, 's) world, unit) io" where
  "Socket_bind K p address =
     io_bind (FileDescriptor_fd_num p) (\<lambda>fd.
     io_bind (sys (k_bind K fd (addr_storage address, addr_size address))) (\<lambda>(ret, errno).
     io_bind (io_lift (SystemCall ''bind'' ret errno 0)) (\<lambda>_. io_return ())))"

definition Socket_connect :: "'k kernel \<Rightarrow> nat \<Rightarrow> Address \<Rightarrow> (('k, 's) world, unit) io" where
  "Socket_connect K p address =
     io_bind (FileDescriptor_fd_num p) (\<lambda>fd.
     io_bind (sys (k_connect K fd (addr_storage address, addr_size address))) (\<lambda>(ret, errno).
     io_bind (io_lift (SystemCall ''connect'' ret errno 0)) (\<lambda>_. io_return ())))"

definition Socket_shutdown :: "'k kernel \<Rightarrow> nat \<Rightarrow> u32 \<Rightarrow> (('k, 's) world, unit) io" where
  "Socket_shutdown K p how =
     io_bind (FileDescriptor_fd_num p) (\<lambda>fd.
     io_bind (sys (k_shutdown K fd how)) (\<lambda>(ret, errno).
     io_bind (io_lift (SystemCall ''shutdown'' ret errno 0)) (\<lambda>_.
       if how = SHUT_RD then FileDescriptor_register_read p
       else if how = SHUT_WR then FileDescriptor_register_write p
       else if how = SHUT_RDWR then io_bind (FileDescriptor_register_read p) (\<lambda>_. FileDescriptor_register_write p)
       else io_throw (RuntimeError ''Socket::shutdown() called with invalid `how`''))))"

definition Socket_setsockopt :: "'k kernel \<Rightarrow> nat \<Rightarrow> u32 \<Rightarrow> u32 \<Rightarrow> (('k, 's) world, unit) io" where
  "Socket_setsockopt K p option_name option_value =
     io_bind (FileDescriptor_fd_num p) (\<lambda>fd.
     io_bind (sys (k_setsockopt K fd option_name option_value)) (\<lambda>(ret, errno).
     io_bind (io_lift (SystemCall ''setsockopt'' ret errno 0)) (\<lambda>_. io_return ())))"

definition Socket_set_reuseaddr :: "'k kernel \<Rightarrow> nat \<Rightarrow> (('k, 's) world, unit) io" where
  "Socket_set_reuseaddr K p = Socket_setsockopt K p SO_REUSEADDR 1"

section \<open>UDPSocket\<close>

record received_datagram =
  rd_source_address :: Address
  rd_payload :: bytes

definition UDPSocket_new :: "'k kernel \<Rightarrow> (('k, 's) world, nat) io" where
  "UDPSocket_new K = Socket_new K (ucast AF_INET) SOCK_DGRAM"

definition UDPSocket_of_fd :: "'k kernel \<Rightarrow> nat \<Rightarrow> (('k, 's) world, nat) io" where
  "UDPSocket_of_fd K p = Socket_of_fd K p (ucast AF_INET) SOCK_DGRAM"

definition UDPSocket_recv_into ::
  "'k kernel \<Rightarrow> nat \<Rightarrow> received_datagram \<Rightarrow> u64 \<Rightarrow> (('k, 's) world, received_datagram) io" where
  "UDPSocket_recv_into K p datagram mtu =
     io_bind (io_lift (resize (rd_payload datagram) mtu)) (\<lambda>payload.
     io_bind (FileDescriptor_fd_num p) (\<lambda>fd.
     io_bind (sys (k_recvfrom K fd mtu)) (\<lambda>(ret, errno, data, address, fromlen).
     io_bind (io_lift (SystemCall ''recvfrom'' (ucast ret) errno 0)) (\<lambda>r.
       let recv_len = (scast r :: u64)
       in if sint mtu < sint recv_len then io_throw (RuntimeError ''recvfrom (oversized datagram)'')
          else
            io_bind (FileDescriptor_register_read p) (\<lambda>_.
            io_bind (io_lift (Address_of_sockaddr
                (store_at (replicate (unat SOCKADDR_STORAGE_SIZE) 0) address) (ucast fromlen))) (\<lambda>source_address.
            io_bind (io_lift (resize (store_at payload data) recv_len)) (\<lambda>payload.
              io_return \<lparr>rd_source_address = source_address, rd_payload = payload\<rparr>)))))))"

definition UDPSocket_recv :: "'k kernel \<Rightarrow> nat \<Rightarrow> u64 \<Rightarrow> (('k, 's) world, received_datagram) io" where
  "UDPSocket_recv K p mtu =
     io_bind (io_lift (Address_of_sockaddr [] 0)) (\<lambda>address.
       UDPSocket_recv_into K p \<lparr>rd_source_address = address, rd_payload = []\<rparr> mtu)"

definition sendmsg_helper ::
  "'k kernel \<Rightarrow> u32 \<Rightarrow> (bytes \<times> u32) option \<Rightarrow> BufferViewList \<Rightarrow> (('k, 's) world, unit) io" where
  "sendmsg_helper K fd_num destination payload =
     io_bind (sys (k_sendmsg K fd_num destination (BufferViewList_as_iovecs payload))) (\<lambda>(ret, errno).
     io_bind (io_lift (SystemCall ''sendmsg'' (ucast ret) errno 0)) (\<lambda>bytes_sent.
       if (scast bytes_sent :: u64) \<noteq> BufferViewList_size payload
       then io_throw (RuntimeError ''datagram payload too big for sendmsg()'')
       else io_return ()))"

definition UDPSocket_sendto :: "'k kernel \<Rightarrow> nat \<Rightarrow> Address \<Rightarrow> BufferViewList \<Rightarrow> (('k, 's) world, unit) io" where
  "UDPSocket_sendto K p destination payload =
     io_bind (FileDescriptor_fd_num p) (\<lambda>fd.
     io_bind (sendmsg_helper K fd (Some (addr_storage destination, addr_size destination)) payload) (\<lambda>_.
       FileDescriptor_register_write p))"

definition UDPSocket_send :: "'k kernel \<Rightarrow> nat \<Rightarrow> BufferViewList \<Rightarrow> (('k, 's) world, unit) io" where
  "UDPSocket_send K p payload =
     io_bind (FileDescriptor_fd_num p) (\<lambda>fd.
     io_bind (sendmsg_helper K fd None payload) (\<lambda>_. FileDescriptor_register_write p))"

section \<open>TCPSocket and LocalStreamSocket\<close>

definition TCPSocket_new :: "'k kernel \<Rightarrow> (('k, 's) world, nat) io" where
  "TCPSocket_new K = Socket_new K (ucast AF_INET) SOCK_STREAM"

definition TCPSocket_of_fd :: "'k kernel \<Rightarrow> nat \<Rightarrow> (('k, 's) world, nat) io" where
  "TCPSocket_of_fd K p = Socket_of_fd K p (ucast AF_INET) SOCK_STREAM"

definition TCPSocket_listen :: "'k kernel \<Rightarrow> nat \<Rightarrow> u32 \<Rightarrow> (('k, 's) world, unit) io" where
  "TCPSocket_listen K p backlog =
     io_bind (FileDescriptor_fd_num p) (\<lambda>fd.
     io_bind (sys (k_listen K fd backlog)) (\<lambda>(ret, errno).
     io_bind (io_lift (SystemCall ''listen'' ret errno 0)) (\<lambda>_. io_return ())))"

definition TCPSocket_accept :: "'k kernel \<Rightarrow> nat \<Rightarrow> (('k, 's) world, nat) io" where
  "TCPSocket_accept K p =
     io_bind (FileDescriptor_register_read p) (\<lambda>_.
     io_bind (FileDescriptor_fd_num p) (\<lambda>fd.
     io_bind (sys (k_accept K fd)) (\<lambda>(ret, errno).
     io_bind (io_lift (SystemCall ''accept'' ret errno 0)) (\<lambda>fd.
     io_bind (FileDescriptor_new fd) (\<lambda>q. TCPSocket_of_fd K q)))))"

definition LocalStreamSocket_of_fd :: "'k kernel \<Rightarrow> nat \<Rightarrow> (('k, 's) world, nat) io" where
  "LocalStreamSocket_of_fd K p = Socket_of_fd K p AF_UNIX SOCK_STREAM"

section \<open>Rules\<close>

text \<open>Shutting down counts as a use of the descriptor in the directions it closes.\<close>

lemma wp_shutdown_wr:
  assumes K: "kernel_io K got put"
    and ret: "\<And>k. put k = put (w_kernel w) \<Longrightarrow> got k = got (w_kernel w) \<Longrightarrow>
      Q () (w\<lparr>w_kernel := k, w_fds := (w_fds w)(p := (w_fds w p)\<lparr>fd_write_count := fd_write_count (w_fds w p) + 1\<rparr>)\<rparr>)"
    and exn: "\<And>e k. put k = put (w_kernel w) \<Longrightarrow> got k = got (w_kernel w) \<Longrightarrow> E e (w\<lparr>w_kernel := k\<rparr>)"
  shows "wp (Socket_shutdown K p SHUT_WR) Q E w"
proof -
  obtain r errno k where c: "k_shutdown K (fd_fd (w_fds w p)) SHUT_WR (w_kernel w) = ((r, errno), k)"
    by (metis surj_pair)
  then have "put k = put (w_kernel w)" "got k = got (w_kernel w)"
    using K unfolding kernel_io_def control_ok_def by (metis snd_conv)+
  with ret exn c show ?thesis
    by (auto simp: Socket_shutdown_def fd_wp SHUT_WR_def SHUT_RD_def split: sum.split)
qed

text \<open>
  A received datagram has the payload the kernel delivered and the address it came from; a
  datagram longer than the buffer is refused and not truncated.
\<close>

lemma recv_datagram:
  assumes "k_recvfrom K (fd_fd (w_fds w p)) mtu (w_kernel w) = ((of_nat (length data), errno, data, address, fromlen), k)"
    and "length data \<le> unat mtu" and "unat mtu < 2 ^ 31"
    and "length address = unat fromlen" and "fromlen \<le> 128"
  shows "\<exists>source w'. UDPSocket_recv K p mtu w = (Inr \<lparr>rd_source_address = source, rd_payload = data\<rparr>, w') \<and>
     addr_size source = fromlen \<and> take (unat fromlen) (addr_storage source) = address"
proof -
  have l: "unat (of_nat (length data) :: u64) = length data" "unat (of_nat (length data) :: u64) < 2 ^ 31"
    using assms(2,3) by (simp_all add: unat_of_nat64)
  have f: "unat fromlen \<le> 128" using assms(5) by (simp add: word_le_nat_alt)
  have u: "(ucast (ucast fromlen :: u64) :: u32) = fromlen" by (rule bit_word_eqI) (auto simp: bit_simps)
  have "resize [] mtu = Inr (replicate (unat mtu) 0)" using assms(3) by (simp add: resize_def)
  moreover have "resize (store_at (replicate (unat mtu) 0) data) (of_nat (length data)) = Inr data"
    using l assms(2,3) by (simp add: resize_def store_at_def)
  moreover have "\<not> sint mtu < sint (of_nat (length data) :: u64)"
    using l assms(2,3) by (intro sint_not_less) auto
  moreover have "Address_of_sockaddr (store_at (replicate 128 0) address) (ucast fromlen) =
      Inr \<lparr>addr_size = fromlen, addr_storage = address @ replicate (128 - unat fromlen) 0\<rparr>"
    using assms(4) f u by (auto simp: Address_of_sockaddr_def SOCKADDR_STORAGE_SIZE_def memcpy_into_def store_at_def
        word_less_nat_alt unat_ucast)
  moreover have "Address_of_sockaddr [] 0 = Inr \<lparr>addr_size = 0, addr_storage = replicate 128 0\<rparr>"
    by (simp add: Address_of_sockaddr_def SOCKADDR_STORAGE_SIZE_def memcpy_into_def)
  ultimately show ?thesis
    using assms(1,4) narrow_return [OF l(2)] SystemCall_ok [OF l(2)]
    by (simp add: UDPSocket_recv_def UDPSocket_recv_into_def io_run fd_defs on_fd_def io_bind_def sys_def
        SOCKADDR_STORAGE_SIZE_def)
qed

end
