(* ===== verification/Stream_Copy.thy ===== *)
theory Stream_Copy
  imports Event_Loop Sockets Byte_Stream
begin

text \<open>
  The function \<open>bidirectional_stream_copy\<close> of \<open>apps/bidirectional_stream_copy.cc\<close>, the body of
  the programs that connect the terminal to a socket: four rules of an event loop move bytes
  from the standard input through one byte stream to the socket, and from the socket through
  another to the standard output.

  The local variables captured by the rules are the user part of the world. The loop runs
  until the event loop has nothing left to poll, which may never happen: the model takes a bound
  on the number of rounds, and the result is \<open>None\<close> when it is reached.
\<close>

section \<open>The local variables\<close>

record copy_state =
  cp_outbound :: ByteStream
  cp_inbound :: ByteStream
  cp_outbound_shutdown :: bool
  cp_inbound_shutdown :: bool

definition max_copy_length :: u64 where
  "max_copy_length = 65536"

definition copy_buffer_size :: u64 where
  "copy_buffer_size = 1048576"

definition copy_init :: copy_state where
  "copy_init = \<lparr>cp_outbound = ByteStream_new copy_buffer_size, cp_inbound = ByteStream_new copy_buffer_size,
     cp_outbound_shutdown = False, cp_inbound_shutdown = False\<rparr>"

section \<open>The rules\<close>

text \<open>
  Rules 1 and 3 read a descriptor into a byte stream, rules 2 and 4 write a byte stream to a
  descriptor; \<open>stream\<close> and \<open>update\<close> select the variable, \<open>finish\<close> is what happens at its end.
\<close>

definition fill_stream ::
  "'k kernel \<Rightarrow> nat \<Rightarrow> (copy_state \<Rightarrow> ByteStream) \<Rightarrow> ((ByteStream \<Rightarrow> ByteStream) \<Rightarrow> copy_state \<Rightarrow> copy_state) \<Rightarrow>
     (('k, copy_state) world, unit) io" where
  "fill_stream K p stream update =
     io_bind (io_get (\<lambda>w. ByteStream_remaining_capacity (stream (w_user w)))) (\<lambda>capacity.
     io_bind (FileDescriptor_read K p capacity) (\<lambda>data.
     io_bind (on_user (update (\<lambda>s. fst (ByteStream_write s data)))) (\<lambda>_.
     io_bind (FileDescriptor_eof p) (\<lambda>eof.
       if eof then on_user (update ByteStream_end_input) else io_return ()))))"

definition drain_stream ::
  "'k kernel \<Rightarrow> nat \<Rightarrow> (copy_state \<Rightarrow> ByteStream) \<Rightarrow> ((ByteStream \<Rightarrow> ByteStream) \<Rightarrow> copy_state \<Rightarrow> copy_state) \<Rightarrow>
     (('k, copy_state) world, unit) io \<Rightarrow> (('k, copy_state) world, unit) io" where
  "drain_stream K p stream update finish =
     io_bind (io_get (\<lambda>w. stream (w_user w))) (\<lambda>s.
       let bytes_to_write = min max_copy_length (ByteStream_buffer_size s)
       in io_bind (FileDescriptor_write_string K p (ByteStream_peek_output s bytes_to_write) False) (\<lambda>bytes_written.
          io_bind (on_user (update (\<lambda>s. ByteStream_pop_output s bytes_written))) (\<lambda>_.
          io_bind (io_get (\<lambda>w. ByteStream_eof (stream (w_user w)))) (\<lambda>eof.
            if eof then finish else io_return ()))))"

definition rule1 :: "'k kernel \<Rightarrow> nat \<Rightarrow> ('k, copy_state) Rule" where
  "rule1 K input =
     \<lparr>ru_fd = input, ru_direction = In, ru_callback = fill_stream K input cp_outbound cp_outbound_update,
      ru_interest = io_get (\<lambda>w. \<not> ByteStream_error (cp_outbound (w_user w)) \<and>
        0 < ByteStream_remaining_capacity (cp_outbound (w_user w)) \<and> \<not> ByteStream_error (cp_inbound (w_user w))),
      ru_cancel = on_user (cp_outbound_update ByteStream_end_input)\<rparr>"

definition rule2 :: "'k kernel \<Rightarrow> nat \<Rightarrow> ('k, copy_state) Rule" where
  "rule2 K socket =
     \<lparr>ru_fd = socket, ru_direction = Out,
      ru_callback = drain_stream K socket cp_outbound cp_outbound_update
        (io_bind (Socket_shutdown K socket SHUT_WR) (\<lambda>_. on_user (\<lambda>s. s\<lparr>cp_outbound_shutdown := True\<rparr>))),
      ru_interest = io_get (\<lambda>w. \<not> ByteStream_buffer_empty (cp_outbound (w_user w)) \<or>
        ByteStream_eof (cp_outbound (w_user w)) \<and> \<not> cp_outbound_shutdown (w_user w)),
      ru_cancel = on_user (cp_outbound_update ByteStream_end_input)\<rparr>"

definition rule3 :: "'k kernel \<Rightarrow> nat \<Rightarrow> ('k, copy_state) Rule" where
  "rule3 K socket =
     \<lparr>ru_fd = socket, ru_direction = In, ru_callback = fill_stream K socket cp_inbound cp_inbound_update,
      ru_interest = io_get (\<lambda>w. \<not> ByteStream_error (cp_inbound (w_user w)) \<and>
        0 < ByteStream_remaining_capacity (cp_inbound (w_user w)) \<and> \<not> ByteStream_error (cp_outbound (w_user w))),
      ru_cancel = on_user (cp_inbound_update ByteStream_end_input)\<rparr>"

definition rule4 :: "'k kernel \<Rightarrow> nat \<Rightarrow> ('k, copy_state) Rule" where
  "rule4 K output =
     \<lparr>ru_fd = output, ru_direction = Out,
      ru_callback = drain_stream K output cp_inbound cp_inbound_update
        (io_bind (FileDescriptor_close K output) (\<lambda>_. on_user (\<lambda>s. s\<lparr>cp_inbound_shutdown := True\<rparr>))),
      ru_interest = io_get (\<lambda>w. \<not> ByteStream_buffer_empty (cp_inbound (w_user w)) \<or>
        ByteStream_eof (cp_inbound (w_user w)) \<and> \<not> cp_inbound_shutdown (w_user w)),
      ru_cancel = on_user (cp_inbound_update ByteStream_end_input)\<rparr>"

fun add_rules :: "('k, 's) Rule list \<Rightarrow> ('k, 's) Rule list \<Rightarrow> (('k, 's) world, ('k, 's) Rule list) io" where
  "add_rules rules [] = io_return rules"
| "add_rules rules (r # rs) =
     io_bind (EventLoop_add_rule rules (ru_fd r) (ru_direction r) (ru_callback r) (ru_interest r) (ru_cancel r)) (\<lambda>rules.
       add_rules rules rs)"

text \<open>The loop; what is left of the rules when it ends is destroyed with the event loop.\<close>

fun destroy_rules :: "'k kernel \<Rightarrow> ('k, 's) Rule list \<Rightarrow> (('k, 's) world, unit) io" where
  "destroy_rules K [] = io_return ()"
| "destroy_rules K (r # rules) = io_bind (FileDescriptor_destroy K (ru_fd r)) (\<lambda>_. destroy_rules K rules)"

fun copy_loop :: "'k kernel \<Rightarrow> nat \<Rightarrow> ('k, copy_state) Rule list \<Rightarrow>
    (('k, copy_state) world, ('k, copy_state) Rule list option) io" where
  "copy_loop K 0 rules = io_return None"
| "copy_loop K (Suc n) rules =
     io_bind (EventLoop_wait_next_event K rules (- 1)) (\<lambda>(result, rules).
       if result = Exit then io_return (Some rules) else copy_loop K n rules)"

definition bidirectional_stream_copy :: "'k kernel \<Rightarrow> nat \<Rightarrow> nat \<Rightarrow> (('k, copy_state) world, unit option) io" where
  "bidirectional_stream_copy K rounds socket =
     io_bind (FileDescriptor_new 0) (\<lambda>input.
     io_bind (FileDescriptor_new 1) (\<lambda>output.
     io_bind (on_user (\<lambda>_. copy_init)) (\<lambda>_.
     io_bind (FileDescriptor_set_blocking K socket False) (\<lambda>_.
     io_bind (FileDescriptor_set_blocking K input False) (\<lambda>_.
     io_bind (FileDescriptor_set_blocking K output False) (\<lambda>_.
     io_bind (add_rules [] [rule1 K input, rule2 K socket, rule3 K socket, rule4 K output]) (\<lambda>rules.
     io_bind (copy_loop K rounds rules) (\<lambda>r.
       case r of
         None \<Rightarrow> io_return None
       | Some rules \<Rightarrow>
           io_bind (FileDescriptor_destroy K output) (\<lambda>_.
           io_bind (FileDescriptor_destroy K input) (\<lambda>_.
           io_bind (destroy_rules K rules) (\<lambda>_. io_return (Some ()))))))))))))"

section \<open>The flow of bytes\<close>

text \<open>
  What was read from descriptor \<open>a\<close> since the start is what was written to descriptor \<open>b\<close>,
  followed by what is in the stream between them.
\<close>

definition flows :: "bytes \<Rightarrow> bytes \<Rightarrow> bytes \<Rightarrow> bytes \<Rightarrow> ByteStream \<Rightarrow> bool" where
  "flows got0 put0 got put s \<longleftrightarrow> bs_inv s \<and> bs_capacity s = copy_buffer_size \<and>
     (\<exists>d. put = put0 @ d \<and> got = got0 @ d @ bs_str s)"

lemma flows_init: "flows g p g p (ByteStream_new copy_buffer_size)"
  by (simp add: flows_def bs_inv_new) (simp add: ByteStream_new_def)

lemma flows_end: "flows g0 p0 g p s \<Longrightarrow> flows g0 p0 g p (ByteStream_end_input s)"
  by (auto simp: flows_def bs_inv_end_input)

lemma flows_fill:
  assumes "flows g0 p0 g p s" "length data \<le> unat (ByteStream_remaining_capacity s)"
  shows "flows g0 p0 (g @ data) p (fst (ByteStream_write s data))"
  using assms by (auto simp: flows_def bs_inv_write write_str remaining_capacity_unat)

lemma flows_drain:
  assumes "flows g0 p0 g p s" "m \<le> length (bs_str s)"
  shows "flows g0 p0 g (p @ take m (bs_str s)) (ByteStream_pop_output s (of_nat m))"
proof -
  have i: "bs_inv s" using assms(1) by (simp add: flows_def)
  have "m \<le> unat (bs_capacity s)" using assms(2) bs_inv_length [OF i] by simp
  then have "unat (of_nat m :: u64) = m" by (rule of_nat_le_word)
  with assms i show ?thesis by (auto simp: flows_def bs_inv_pop pop_str)
qed

text \<open>
  The invariant: \<open>i\<close>, \<open>out\<close> and \<open>c\<close> are the handles of the standard input, the standard output and
  the socket, whose number is \<open>s\<close>.
\<close>

definition copy_inv :: "('k \<Rightarrow> u32 \<Rightarrow> bytes) \<Rightarrow> ('k \<Rightarrow> u32 \<Rightarrow> bytes) \<Rightarrow> 'k \<Rightarrow> u32 \<Rightarrow> nat \<Rightarrow> nat \<Rightarrow> nat \<Rightarrow>
    ('k, copy_state) world \<Rightarrow> bool" where
  "copy_inv got put k0 s i out c w \<longleftrightarrow>
     fd_fd (w_fds w i) = 0 \<and> fd_fd (w_fds w out) = 1 \<and> fd_fd (w_fds w c) = s \<and>
     flows (got k0 0) (put k0 s) (got (w_kernel w) 0) (put (w_kernel w) s) (cp_outbound (w_user w)) \<and>
     flows (got k0 s) (put k0 1) (got (w_kernel w) s) (put (w_kernel w) 1) (cp_inbound (w_user w))"

lemma copy_inv_quiet: "copy_inv got put k0 s i out c w \<Longrightarrow> quiet got put w v \<Longrightarrow> copy_inv got put k0 s i out c v"
  by (simp add: copy_inv_def quiet_def)

lemmas keeps_copy_quiet = keeps_quiet [OF _ copy_inv_quiet]

lemma wp_on_user: "wp (on_user f) Q E w = Q () (w\<lparr>w_user := f (w_user w)\<rparr>)"
  by (simp add: on_user_def wp_basic)

lemma keeps_end:
  "keeps (copy_inv got put k0 s i out c) (on_user (cp_outbound_update ByteStream_end_input))"
  "keeps (copy_inv got put k0 s i out c) (on_user (cp_inbound_update ByteStream_end_input))"
  by (auto intro!: keepsI simp: wp_on_user copy_inv_def flows_end)

lemma keeps_fill:
  assumes K: "kernel_io K got put" and s: "s \<noteq> 0"
  shows "keeps (copy_inv got put k0 s i out c) (fill_stream K i cp_outbound cp_outbound_update)"
    and "keeps (copy_inv got put k0 s i out c) (fill_stream K c cp_inbound cp_inbound_update)"
proof -
  show "keeps (copy_inv got put k0 s i out c) (fill_stream K i cp_outbound cp_outbound_update)"
  proof (rule keepsI)
    fix w :: "('a, copy_state) world"
    assume "copy_inv got put k0 s i out c w"
    then show "wp (fill_stream K i cp_outbound cp_outbound_update) (\<lambda>_. copy_inv got put k0 s i out c) (\<lambda>_. copy_inv got put k0 s i out c) w"
      using s by (auto simp: fill_stream_def fd_wp wp_on_user copy_inv_def flows_fill flows_end intro!: wp_read [OF K])
  qed
  show "keeps (copy_inv got put k0 s i out c) (fill_stream K c cp_inbound cp_inbound_update)"
  proof (rule keepsI)
    fix w :: "('a, copy_state) world"
    assume "copy_inv got put k0 s i out c w"
    then show "wp (fill_stream K c cp_inbound cp_inbound_update) (\<lambda>_. copy_inv got put k0 s i out c) (\<lambda>_. copy_inv got put k0 s i out c) w"
      using s by (auto simp: fill_stream_def fd_wp wp_on_user copy_inv_def flows_fill flows_end intro!: wp_read [OF K])
  qed
qed

text \<open>What a drain writes is the front of the stream.\<close>

lemma flows_peek:
  assumes "flows g0 p0 g p s" "n \<le> length (ByteStream_peek_output s len)"
  shows "flows g0 p0 g (p @ take n (ByteStream_peek_output s len)) (ByteStream_pop_output s (of_nat n))"
  using assms flows_drain [OF assms(1), of n] by (simp add: flows_def peek_str min_def split: if_splits)

lemma peek_short:
  assumes "flows g0 p0 g p s"
  shows "length (ByteStream_peek_output s len) < 2 ^ 63"
proof -
  have "length (bs_str s) \<le> 1048576"
    using assms bs_inv_length [of s] by (simp add: flows_def copy_buffer_size_def)
  then show ?thesis using assms by (simp add: flows_def peek_str)
qed

lemma write_post_flows:
  assumes "flows g0 p0 (got (w_kernel w) a) (put (w_kernel w) (fd_fd (w_fds w p))) s"
    and "write_post got put p False (ByteStream_peek_output s len) 0 w m v"
  shows "flows g0 p0 (got (w_kernel v) a) (put (w_kernel v) (fd_fd (w_fds w p))) (ByteStream_pop_output s m)"
    and "b \<noteq> fd_fd (w_fds w p) \<Longrightarrow> put (w_kernel v) b = put (w_kernel w) b"
    and "got (w_kernel v) = got (w_kernel w)" "w_user v = w_user w" "fd_fd (w_fds v q) = fd_fd (w_fds w q)"
proof -
  obtain n where "m = of_nat n" "sent got put p (ByteStream_peek_output s len) n 1 w v"
    using assms(2) by (auto simp: write_post_def)
  with flows_peek [OF assms(1), of n len]
  show "flows g0 p0 (got (w_kernel v) a) (put (w_kernel v) (fd_fd (w_fds w p))) (ByteStream_pop_output s m)"
    and "b \<noteq> fd_fd (w_fds w p) \<Longrightarrow> put (w_kernel v) b = put (w_kernel w) b"
    and "got (w_kernel v) = got (w_kernel w)" "w_user v = w_user w" "fd_fd (w_fds v q) = fd_fd (w_fds w q)"
    by (auto simp: sent_def)
qed

lemma keeps_drain:
  assumes K: "kernel_io K got put" and s: "s \<noteq> 1"
    and f: "keeps (copy_inv got put k0 s i out c) finish"
  shows "keeps (copy_inv got put k0 s i out c) (drain_stream K c cp_outbound cp_outbound_update finish)"
    and "keeps (copy_inv got put k0 s i out c) (drain_stream K out cp_inbound cp_inbound_update finish)"
proof -
  let ?P = "copy_inv got put k0 s i out c"
  have rest: "wp (if e then finish else io_return ()) (\<lambda>_. ?P) (\<lambda>_. ?P) v" if "?P v" for e v
    using f that by (auto simp: keeps_wp wp_basic)
  have quiet: "quiet got put w v" if "write_exn K got put p False data w v" for p data w v
    using that by (auto simp: write_exn_def sent_def quiet_def)
  show "keeps ?P (drain_stream K c cp_outbound cp_outbound_update finish)"
  proof (rule keepsI)
    fix w assume P: "?P w"
    let ?d = "ByteStream_peek_output (cp_outbound (w_user w)) (min max_copy_length (ByteStream_buffer_size (cp_outbound (w_user w))))"
    have fl: "flows (got k0 0) (put k0 s) (got (w_kernel w) 0) (put (w_kernel w) (fd_fd (w_fds w c))) (cp_outbound (w_user w))"
      using P by (simp add: copy_inv_def)
    have "?P (v\<lparr>w_user := cp_outbound_update (\<lambda>s. ByteStream_pop_output s m) (w_user v)\<rparr>)"
      if "write_post got put c False ?d 0 w m v" for m v
      using P s write_post_flows [OF fl that] by (simp add: copy_inv_def)
    then show "wp (drain_stream K c cp_outbound cp_outbound_update finish) (\<lambda>_. ?P) (\<lambda>_. ?P) w"
      unfolding drain_stream_def Let_def wp_bind wp_basic wp_on_user
      by (intro wp_mono [OF wp_write_string [OF K peek_short]] rest)
        (use P copy_inv_quiet [OF P quiet] in \<open>auto simp: copy_inv_def\<close>)
  qed
  show "keeps ?P (drain_stream K out cp_inbound cp_inbound_update finish)"
  proof (rule keepsI)
    fix w assume P: "?P w"
    let ?d = "ByteStream_peek_output (cp_inbound (w_user w)) (min max_copy_length (ByteStream_buffer_size (cp_inbound (w_user w))))"
    have fl: "flows (got k0 s) (put k0 1) (got (w_kernel w) s) (put (w_kernel w) (fd_fd (w_fds w out))) (cp_inbound (w_user w))"
      using P by (simp add: copy_inv_def)
    have "?P (v\<lparr>w_user := cp_inbound_update (\<lambda>s. ByteStream_pop_output s m) (w_user v)\<rparr>)"
      if "write_post got put out False ?d 0 w m v" for m v
      using P s write_post_flows [OF fl that] by (simp add: copy_inv_def)
    then show "wp (drain_stream K out cp_inbound cp_inbound_update finish) (\<lambda>_. ?P) (\<lambda>_. ?P) w"
      unfolding drain_stream_def Let_def wp_bind wp_basic wp_on_user
      by (intro wp_mono [OF wp_write_string [OF K peek_short]] rest)
        (use P copy_inv_quiet [OF P quiet] in \<open>auto simp: copy_inv_def\<close>)
  qed
qed

lemma is_quiet_shutdown: "kernel_io K got put \<Longrightarrow> is_quiet got put (Socket_shutdown K p how)"
  unfolding Socket_shutdown_def fd_defs split_def
  by (intro is_quiet_rules is_quiet_control) (auto intro!: is_quiet_rules [rule_format] is_quiet_on_fd [rule_format])

lemma keeps_flag:
  "keeps (copy_inv got put k0 s i out c) (on_user (\<lambda>u. u\<lparr>cp_outbound_shutdown := True\<rparr>))"
  "keeps (copy_inv got put k0 s i out c) (on_user (\<lambda>u. u\<lparr>cp_inbound_shutdown := True\<rparr>))"
  by (auto intro!: keepsI simp: wp_on_user copy_inv_def)

lemma copy_rules_keep:
  assumes K: "kernel_io K got put" and s: "s \<noteq> 0" "s \<noteq> 1"
  shows "rules_keep K (copy_inv got put k0 s i out c) [rule1 K i, rule2 K c, rule3 K c, rule4 K out]"
proof -
  let ?P = "copy_inv got put k0 s i out c"
  have "keeps ?P (io_bind (Socket_shutdown K c SHUT_WR) (\<lambda>_. on_user (\<lambda>u. u\<lparr>cp_outbound_shutdown := True\<rparr>)))"
    by (intro keeps_bind keeps_flag keeps_copy_quiet [OF is_quiet_shutdown [OF K]])
  moreover have "keeps ?P (io_bind (FileDescriptor_close K out) (\<lambda>_. on_user (\<lambda>u. u\<lparr>cp_inbound_shutdown := True\<rparr>)))"
    unfolding FileDescriptor_close_def by (intro keeps_bind keeps_flag keeps_copy_quiet [OF is_quiet_close [OF K]])
  moreover have "keeps ?P (sys (k_poll K pfds t))" for pfds t by (rule keeps_copy_quiet [OF is_quiet_control(4) [OF K]])
  moreover have "keeps ?P (FileDescriptor_destroy K p)" for p by (rule keeps_copy_quiet [OF is_quiet_destroy [OF K]])
  ultimately show ?thesis
    by (auto simp: rules_keep_def rule1_def rule2_def rule3_def rule4_def keeps_basic
        intro!: keeps_fill [OF K s(1)] keeps_drain [OF K s(2)] keeps_end)
qed

lemma keeps_copy_loop:
  "rules_keep K P rules \<Longrightarrow> P w \<Longrightarrow> wp (copy_loop K n rules) (\<lambda>_. P) (\<lambda>_. P) w"
proof (induction n arbitrary: rules w)
  case (Suc n)
  show ?case unfolding copy_loop.simps wp_bind
    by (rule wp_mono [OF wp_wait_next_event [OF Suc.prems]]) (use Suc.IH in \<open>auto simp: wp_simps\<close>)
qed (simp add: wp_simps)

lemma wp_add_rules:
  "wp (add_rules rules rs) (\<lambda>r v. r = rules @ rs \<and> quiet got put w v) (\<lambda>_ _. False) w"
proof (induction rs arbitrary: rules w)
  case (Cons r rs)
  have "quiet got put w (w\<lparr>w_fds := (w_fds w)(ru_fd r := w_fds w (ru_fd r)\<lparr>fd_use := fd_use (w_fds w (ru_fd r)) + 1\<rparr>)\<rparr>)"
    by (simp add: quiet_def)
  moreover have "\<lparr>ru_fd = ru_fd r, ru_direction = ru_direction r, ru_callback = ru_callback r, ru_interest = ru_interest r,
      ru_cancel = ru_cancel r\<rparr> = r" by simp
  ultimately show ?case
    by (auto simp: EventLoop_add_rule_def FileDescriptor_duplicate_def fd_wp intro!: wp_mono [OF Cons.IH] elim: quiet_trans)
qed (simp add: wp_simps)

lemma keeps_destroy_rules: "(\<And>p. keeps P (FileDescriptor_destroy K p)) \<Longrightarrow> keeps P (destroy_rules K rules)"
  by (induction rules) (auto intro: keeps_rules)

lemma wp_bind_new:
  "0 \<le> sint fd \<Longrightarrow> wp (io_bind (FileDescriptor_new fd) f) Q E w = wp (f (w_next w)) Q E
     (w\<lparr>w_fds := (w_fds w)(w_next w := \<lparr>fd_fd = fd, fd_eof = False, fd_closed = False, fd_read_count = 0, fd_write_count = 0, fd_use = 1\<rparr>),
        w_next := Suc (w_next w)\<rparr>)"
  by (simp add: FileDescriptor_new_def FDWrapper_new_def wp_simps)

lemma wp_bind_user: "wp (io_bind (on_user g) f) Q E w = wp (f ()) Q E (w\<lparr>w_user := g (w_user w)\<rparr>)"
  by (simp add: wp_simps wp_on_user)

lemma wp_bind_keep:
  "keeps P m \<Longrightarrow> (\<And>a v. P v \<Longrightarrow> wp (f a) (\<lambda>_. P) (\<lambda>_. P) v) \<Longrightarrow> P w \<Longrightarrow> wp (io_bind m f) (\<lambda>_. P) (\<lambda>_. P) w"
  unfolding wp_bind by (rule wp_keep)

text \<open>The function establishes the invariant and keeps it.\<close>

lemma stream_copy_inv:
  assumes K: "kernel_io K got put" and c: "fd_fd (w_fds w c) = s" "c < w_next w" and s: "s \<noteq> 0" "s \<noteq> 1"
  shows "copy_inv got put (w_kernel w) s (w_next w) (Suc (w_next w)) c (snd (bidirectional_stream_copy K rounds c w))"
proof -
  let ?P = "copy_inv got put (w_kernel w) s (w_next w) (Suc (w_next w)) c"
  let ?w = "w\<lparr>w_fds := (w_fds w)(w_next w := \<lparr>fd_fd = 0, fd_eof = False, fd_closed = False, fd_read_count = 0, fd_write_count = 0, fd_use = 1\<rparr>,
      Suc (w_next w) := \<lparr>fd_fd = 1, fd_eof = False, fd_closed = False, fd_read_count = 0, fd_write_count = 0, fd_use = 1\<rparr>),
      w_next := Suc (Suc (w_next w)), w_user := copy_init\<rparr>"
  have init: "?P ?w" using c by (simp add: copy_inv_def copy_init_def flows_init)
  have block: "keeps ?P (FileDescriptor_set_blocking K p False)" for p
    by (rule keeps_copy_quiet [OF is_quiet_set_blocking [OF K]])
  have destroy: "keeps ?P (FileDescriptor_destroy K p)" for p by (rule keeps_copy_quiet [OF is_quiet_destroy [OF K]])
  have loop: "wp (io_bind (add_rules [] [rule1 K (w_next w), rule2 K c, rule3 K c, rule4 K (Suc (w_next w))]) (\<lambda>rules.
       io_bind (copy_loop K rounds rules) (\<lambda>r. case r of None \<Rightarrow> io_return None
       | Some rules \<Rightarrow> io_bind (FileDescriptor_destroy K (Suc (w_next w))) (\<lambda>_. io_bind (FileDescriptor_destroy K (w_next w)) (\<lambda>_.
           io_bind (destroy_rules K rules) (\<lambda>_. io_return (Some ()))))))) (\<lambda>_. ?P) (\<lambda>_. ?P) v" if "?P v" for v
  proof -
    have end': "keeps ?P (case r of None \<Rightarrow> io_return None
       | Some rules \<Rightarrow> io_bind (FileDescriptor_destroy K (Suc (w_next w))) (\<lambda>_. io_bind (FileDescriptor_destroy K (w_next w)) (\<lambda>_.
           io_bind (destroy_rules K rules) (\<lambda>_. io_return (Some ())))))" for r
      by (cases r) (auto intro!: keeps_rules destroy keeps_destroy_rules)
    show ?thesis unfolding wp_bind [of "add_rules _ _"]
    proof (rule wp_mono [OF wp_add_rules [of _ _ got put]], goal_cases)
      case (1 rules u)
      then have r: "rules_keep K ?P rules" "?P u" using copy_rules_keep [OF K s] copy_inv_quiet [OF that] by auto
      show ?case unfolding wp_bind by (rule wp_mono [OF keeps_copy_loop [OF r]]) (auto intro: wp_keep [OF end'])
    qed simp
  qed
  have "wp (bidirectional_stream_copy K rounds c) (\<lambda>_. ?P) (\<lambda>_. ?P) w"
    unfolding bidirectional_stream_copy_def
    by (subst wp_bind_new, simp, subst wp_bind_new, simp, subst wp_bind_user, simp del: add_rules.simps)
      ((rule wp_bind_keep [OF block])+, erule loop, use init in simp_all)
  then show ?thesis by (simp add: wp_same)
qed

section \<open>Properties\<close>

text \<open>C27. Whatever the event loop does, in whatever order, and also when a call fails: of the
  bytes read from the standard input a prefix was written to the socket, in order and without
  gaps or repetitions, and the rest, at most the size of the buffer, is still waiting; and the
  same holds from the socket to the standard output.\<close>

theorem stream_copy_lossless:
  assumes "kernel_io K got put" and "fd_fd (w_fds w socket) = s" and "socket < w_next w" and "s \<noteq> 0" "s \<noteq> 1"
    and "bidirectional_stream_copy K rounds socket w = (r, w')"
  shows "(\<exists>copied waiting. put (w_kernel w') s = put (w_kernel w) s @ copied \<and>
       got (w_kernel w') 0 = got (w_kernel w) 0 @ copied @ waiting \<and> length waiting \<le> 1048576) \<and>
     (\<exists>copied waiting. put (w_kernel w') 1 = put (w_kernel w) 1 @ copied \<and>
       got (w_kernel w') s = got (w_kernel w) s @ copied @ waiting \<and> length waiting \<le> 1048576)"
proof -
  have "copy_inv got put (w_kernel w) s (w_next w) (Suc (w_next w)) socket w'"
    using stream_copy_inv [OF assms(1-5), of rounds] assms(6) by simp
  then show ?thesis using bs_inv_length by (fastforce simp: copy_inv_def flows_def copy_buffer_size_def)
qed

abbreviation terminal :: "(plain_state, copy_state) world" where
  "terminal \<equiv> plain_world (\<lambda>fd. if fd = 0 then [1, 2, 3, 4, 5] else if fd = 7 then [6] else []) [7] copy_init"

theorem stream_copy_lossless_witness:
  "\<exists>copied waiting. tk_put (w_kernel (snd (bidirectional_stream_copy plain_kernel 3 0 terminal))) 7 = copied \<and>
     tk_got (w_kernel (snd (bidirectional_stream_copy plain_kernel 3 0 terminal))) 0 = copied @ waiting \<and>
     length waiting \<le> 1048576"
proof -
  have "fd_fd (w_fds terminal 0) = 7" "0 < w_next terminal" by (simp_all add: plain_world_def)
  from stream_copy_lossless [OF plain_kernel_io this _ _ prod.collapse [symmetric], of 3] show ?thesis
    by (simp add: plain_world_def)
qed

end
