(* ===== verification/Spec2Isabelle.thy ===== *)
theory Spec2Isabelle
  imports Ethernet_ARP TCP_Connection TCP_End_To_End Router TCP_Over_IP Stream_Copy
begin

text \<open>
  A verification development for Sponge, a TCP/IP stack in user space written in C++ (the
  sources are under \<open>src/\<close>; paths below are relative to \<open>src/\<close>).

  \<^bold>\<open>The program.\<close> An application writes bytes to a \<open>ByteStream\<close>. A \<open>TCPSender\<close> cuts the stream
  into segments that fit the window of the peer, keeps them until they are acknowledged and
  sends the oldest one again when its timer expires. A \<open>TCPReceiver\<close> turns the sequence
  numbers of incoming segments into stream indices and gives their payloads to a
  \<open>StreamReassembler\<close>, which writes what is contiguous to the inbound \<open>ByteStream\<close>. A
  \<open>TCPConnection\<close> owns one sender and one receiver, stamps outgoing segments with the
  acknowledgment and the window of its receiver, and decides when the connection is over.
  Adapters put segments into UDP datagrams, or into IPv4 datagrams that go to a TUN device, or
  through a \<open>NetworkInterface\<close>, which resolves addresses by ARP, into Ethernet frames for a TAP
  device. A \<open>Router\<close> moves datagrams between interfaces by longest prefix match. Below are
  buffers, parsers, the Internet checksum, wrappers of file descriptors and sockets, and an
  event loop over \<open>poll\<close>. The applications copy between the terminal and a socket with
  \<open>bidirectional_stream_copy\<close>.

  \<^bold>\<open>How the code is modelled.\<close> A class is a record with a field per member, a method
  \<open>C::m\<close> is a function \<open>C_m\<close> that takes and returns the record, a free function keeps its name.
  Integers are words of their width, so wrap-around is that of the code. A function that may
  throw returns a sum, with the exception on the left. Undefined behaviour that the sources can
  reach is an exception of its own. Code that calls the operating system is a computation
  over a world that holds the state of an unknown kernel and the store of shared descriptor
  wrappers; the system calls are a parameter. Debug output to \<open>cerr\<close>, and the calls of
  \<open>Address::ip\<close> made only for it (constructor of \<open>NetworkInterface\<close>, \<open>Router::add_route\<close>),
  are left out.

  \<^bold>\<open>Theories.\<close>
  \<^item> \<open>Sponge_Prelude\<close>: machine types, exceptions, generic lemmas, the locale \<open>step_invariant\<close> for
    invariants of runs.
  \<^item> \<open>Sponge_IO\<close>: computations with state and exceptions, their weakest preconditions, the
    record of system calls.
  \<^item> \<open>Byte_Stream\<close> (\<open>libsponge/byte_stream\<close>): invariant, every operation as a queue operation,
    the contract \<open>fifo_stream\<close>, first-in first-out for whole runs, refinement of an abstract
    bounded queue and its relation to the documented one.
  \<^item> \<open>Wrapping_Integers\<close> (\<open>libsponge/wrapping_integers\<close>): \<open>wrap\<close> and \<open>unwrap\<close>; the latter is the
    closest preimage, stated as the contract \<open>seqno_codec\<close>.
  \<^item> \<open>Stream_Reassembler\<close> (\<open>libsponge/stream_reassembler\<close>): merging of intervals, the class
    invariant, one push and whole runs, the end of the stream, capacity; the contract
    \<open>reassembly\<close> is what the receiver uses.
  \<^item> \<open>Sponge_Buffer\<close>, \<open>Net_Parser\<close>, \<open>Internet_Checksum\<close>, \<open>Sponge_Address\<close> (\<open>libsponge/util\<close>):
    containers with shared storage, network-order integers with the contract \<open>wire_codec\<close>, the
    checksum and its self-verification, socket addresses over a given resolver.
  \<^item> \<open>TCP_Segment\<close>, \<open>IPv4_Datagram\<close>, \<open>Ethernet_ARP\<close>, \<open>TCP_Config\<close>, \<open>TCP_State\<close>
    (\<open>libsponge/tcp_helpers\<close>): the wire formats with their round trips and errors, the
    configuration, the named states of a connection.
  \<^item> \<open>TCP_Receiver\<close>, \<open>TCP_Sender\<close>, \<open>TCP_Connection\<close> (the classes of the same names): the receiver
    delivers the stream from segments in any order, the sender's segments are slices of the
    stream and its timer retransmits with exponential back-off, the connection sends, acknowledges, resets, lingers and
    closes.
  \<^item> \<open>TCP_End_To_End\<close>: a sender and a receiver joined by a network that loses, repeats and
    reorders segments, and loses and repeats acknowledgments.
  \<^item> \<open>Network_Interface\<close>, \<open>Router\<close>: conservation of datagrams, timing of ARP, longest prefix
    match, forwarding.
  \<^item> \<open>TCP_Over_IP\<close> (\<open>tcp_over_ip\<close>, \<open>fd_adapter\<close>, \<open>tuntap_adapter\<close>, \<open>lossy_fd_adapter\<close>): segments
    through IPv4 and Ethernet and back, the filters of the receiving side.
  \<^item> \<open>File_Descriptor\<close>, \<open>Sockets\<close>, \<open>Event_Loop\<close> (\<open>libsponge/util\<close>): reading, writing and lifetime
    of descriptors, sockets, one round of the event loop and the invariants of programs that
    run it.
  \<^item> \<open>Stream_Copy\<close> (\<open>apps/bidirectional_stream_copy\<close>): the copy loop of the applications.

  \<^bold>\<open>What is shown.\<close> Properties \<open>C1\<close> to \<open>C40\<close> are marked in the theories; each is stated in
  words before its theorem, with the conditions it needs. Delivery: the reassembler, the
  receiver, and a sender with a receiver over a bad network deliver a prefix of the stream,
  end it only when it is complete, and do not throw. The conditions are those under which the
  code works: substrings and segments start no later than the end of the window, a bare FIN does not
  overtake data, no segment starts at a multiple of \<open>2 ^ 32\<close>, and, end to end, acknowledgments do not overtake each
  other. What happens outside of the first three is shown as well. Sending: every segment of a sender or of a
  connection is the right slice of the stream, the window is respected and used, acknowledgments
  remove exactly what they cover, and time makes the oldest segment be sent again, on the
  schedule of exponential back-off. Life of a connection: handshake, close with
  and without lingering, reset, giving up. Below: round trips of every wire format and of
  whole stacks (TCP in IPv4, and in IPv4 in Ethernet), filters, conservation of datagrams in
  the interface, forwarding by the router, lossless copying by the applications, completion
  of writes. Some properties describe defects of the code as it is, for every state in which they
  show: the stall at 4 GiB, the SYN flag that leaks into later segments, the FIN that overtakes data,
  the substring beyond the window that makes the reassembler throw, the ignored header
  checksum. Two describe behaviour that differs from what the repository says: a reset is
  obeyed in every state, and a byte stream takes bytes after its end.

  \<^bold>\<open>Bounds.\<close> The loops of the code are structural recursion on the lists they walk, or
  recursive functions with a termination proof: \<open>fill_loop\<close> (bytes left in the
  stream), \<open>write_loop\<close> (bytes left), \<open>InternetChecksum_fold\<close> (the sum), \<open>route_queue\<close> (length of
  the queue). Only loops over events have no bound in the code: \<open>copy_loop\<close> takes a number of
  rounds, and its properties hold for every number. Stream lengths are bounded where 64-bit
  counters would wrap (reassembler) or where sequence numbers would repeat (\<open>2 ^ 31\<close> in the
  end-to-end theorem; the receiver loses segments at multiples of \<open>2 ^ 32\<close>, which is a
  property of its own).

  \<^bold>\<open>Parameters.\<close> The kernel (\<open>kernel_io\<close>: a read returns bytes that were available, a write
  takes a prefix, other calls move no data), \<open>getaddrinfo\<close> and \<open>getnameinfo\<close>, and the random
  generator. Properties with assumptions on them are instantiated with a concrete kernel.

  \<^bold>\<open>Not modelled.\<close>
  \<^item> \<open>TCPSpongeSocket\<close> (\<open>tcp_sponge_socket\<close>): it runs a connection in its own thread; the thread
    and its atomic flags are outside a sequential model. Its parts are modelled.
  \<^item> \<open>TunTapFD\<close> (\<open>util/tun\<close>): opens and configures a device, only calls of the kernel.
  \<^item> Formatting for people: \<open>to_string\<close> and \<open>summary\<close> of the headers, \<open>hexdump\<close>, the stream
    operators, \<open>apps/udp_tcpdump\<close>.
  \<^item> Main programs (the rest of \<open>apps\<close>) and tests: reading of the command line, construction of
    sockets, expectations.
  \<^item> The clock and the seeding of the random generator (\<open>util/util\<close>).
  \<^item> Concurrency: a descriptor is used by one thread.
\<close>

end
